(* ===== verification/Prelude.thy ===== *)
theory Prelude
  imports Main "HOL-Library.Word"
begin

text \<open>
  Shared vocabulary of the development: Rust's machine integers as words, Rust strings as
  lists of Unicode scalar values, the \<open>Result\<close> type as a sum, and the generic lemmas on
  lists, options and words that the component theories use.
\<close>

section \<open>Types\<close>

unbundle bit_operations_syntax

type_synonym u8 = "8 word"
type_synonym u16 = "16 word"
type_synonym u32 = "32 word"
type_synonym u64 = "64 word"

text \<open>A byte slice or \<open>Vec<u8>\<close>.\<close>

type_synonym bytes = "u8 list"

text \<open>
  A Rust \<open>&str\<close> or \<open>String\<close> is a sequence of Unicode scalar values; \<open>lit\<close> reads an ASCII
  literal of the source.
\<close>

type_synonym ustr = "nat list"

definition lit :: "string \<Rightarrow> ustr" where
  "lit s = map of_char s"

text \<open>\<open>Result<A, E>\<close>: \<open>Inl\<close> is \<open>Err\<close>, \<open>Inr\<close> is \<open>Ok\<close>.\<close>

type_synonym ('e, 'a) result = "'e + 'a"

text \<open>
  \<open>u64::saturating_add_signed\<close>. An \<open>i64\<close> argument is an \<open>int\<close>; the callers' values are shown to
  be in range where they arise.
\<close>

definition saturating_add_signed :: "u64 \<Rightarrow> int \<Rightarrow> u64" where
  "saturating_add_signed a d =
     (let r = uint a + d in
      if r < 0 then 0 else if 2 ^ 64 - 1 < r then - 1 else word_of_int r)"

section \<open>Collections of facts\<close>

named_theorems frame_simps \<open>fields an operation leaves alone\<close>
named_theorems inv_intros \<open>operations keep their component's invariant\<close>

section \<open>Generic facts\<close>

subsection \<open>Lists\<close>

text \<open>A bounded buffer that drops its oldest element keeps the last \<open>n\<close> elements.\<close>

definition last_n :: "nat \<Rightarrow> 'a list \<Rightarrow> 'a list" where
  "last_n n xs = drop (length xs - n) xs"

lemma length_last_n [simp]: "length (last_n n xs) = min n (length xs)"
  by (simp add: last_n_def)

lemma last_n_all: "length xs \<le> n \<Longrightarrow> last_n n xs = xs"
  by (simp add: last_n_def)

lemma last_n_Nil [simp]: "last_n n [] = []"
  by (simp add: last_n_def)

lemma last_n_append_exact [simp]: "length ys = n \<Longrightarrow> last_n n (xs @ ys) = ys"
  by (simp add: last_n_def)

lemma last_n_snoc_full:
  assumes "n \<le> length xs" and "0 < n"
  shows "last_n n (xs @ [x]) = tl (last_n n xs) @ [x]"
proof -
  from assms have "Suc (length xs) - n = Suc (length xs - n)" by simp
  then show ?thesis using assms by (simp add: last_n_def drop_Suc tl_drop)
qed

lemma last_n_snoc_room: "length xs < n \<Longrightarrow> last_n n (xs @ [x]) = last_n n xs @ [x]"
  by (simp add: last_n_def)

subsection \<open>Words\<close>

text \<open>\<open>(acc << 1) | bit\<close> is doubling and adding the bit.\<close>

lemma shift_or_bit: "push_bit 1 w OR of_bool b = 2 * w + (of_bool b :: 'a::len word)"
  by (cases b) (simp_all add: or_one_eq mult.commute)

text \<open>A widening cast keeps the value and can be undone.\<close>

lemma unat_ucast_up:
  "LENGTH('a) \<le> LENGTH('b) \<Longrightarrow> unat (ucast (w :: 'a::len word) :: 'b::len word) = unat w"
  by (simp add: unsigned_ucast_eq)
    (metis nat_take_bit_eq take_bit_nat_def min.absorb2 take_bit_take_bit unsigned_take_bit_eq take_bit_word_eq_self)

lemma ucast_up_down:
  "LENGTH('a) \<le> LENGTH('b) \<Longrightarrow> ucast (ucast (w :: 'a::len word) :: 'b::len word) = w"
  by (rule bit_word_eqI) (simp add: bit_unsigned_iff)

lemma even_word_iff_unat: "even (w :: 'a::len word) \<longleftrightarrow> even (unat w)"
  using bit_unsigned_iff [of w 0, where ?'a = nat] by (simp add: bit_0)

lemma unat_u8_mod: "unat (w :: u8) mod 256 = unat w"
  using unsigned_less [of w, where ?'a = nat] by simp

lemma unat_u16_mod: "unat (w :: u16) mod 65536 = unat w"
  using unsigned_less [of w, where ?'a = nat] by simp

lemma unat_le_max_u64: "unat (w :: u64) \<le> 18446744073709551615"
  using unsigned_less [of w, where ?'a = nat] by simp

lemma uint_saturating_add_signed:
  "uint (saturating_add_signed a d) = max 0 (min (2 ^ 64 - 1) (uint a + d))"
proof -
  define r where "r = uint a + d"
  have "uint (word_of_int r :: u64) = r" if "0 \<le> r" "r \<le> 2 ^ 64 - 1"
    using that by (simp add: uint_word_of_int)
  moreover have "uint (- 1 :: u64) = 2 ^ 64 - 1"
    by (simp add: unsigned_minus_1_eq_mask mask_eq_exp_minus_1)
  ultimately show ?thesis
    unfolding saturating_add_signed_def r_def [symmetric] Let_def by auto
qed

lemma uint_le_max_u64: "0 \<le> uint (w :: u64) \<and> uint w \<le> 18446744073709551615"
  using unsigned_less [of w, where ?'a = int] by simp

end
