(* ===== verification/Wiegand.thy ===== *)
theory Wiegand
  imports Prelude
begin

text \<open>
  Decoding of a captured Wiegand bit frame (\<^verbatim>\<open>lock-client/core/src/wiegand.rs\<close>).
\<close>

section \<open>Model\<close>

datatype frame =
    Frame_Digit u8
  | Frame_Cancel
  | Frame_Enter
  | Frame_Card (facility_code: u8) (card_number: u16)
  | Frame_Unrecognized (bit_count: nat)

definition bits_to_u32 :: "bool list \<Rightarrow> u32" where
  "bits_to_u32 bits = foldl (\<lambda>acc bit. push_bit 1 acc OR of_bool bit) 0 bits"

definition decode_nibble :: "bool list \<Rightarrow> frame" where
  "decode_nibble bits =
     (let value = bits_to_u32 bits in
      if value \<le> 9 then Frame_Digit (ucast value)
      else if value = 10 then Frame_Cancel
      else if value = 11 then Frame_Enter
      else Frame_Unrecognized 4)"

definition decode_card :: "bool list \<Rightarrow> frame" where
  "decode_card bits =
     Frame_Card (ucast (bits_to_u32 (take 8 (drop 1 bits))))
                (ucast (bits_to_u32 (take 16 (drop 9 bits))))"

definition decode_frame :: "bool list \<Rightarrow> frame" where
  "decode_frame bits =
     (if length bits = 4 then decode_nibble bits
      else if length bits = 26 then decode_card bits
      else Frame_Unrecognized (length bits))"

text \<open>
  The encoders of the unit tests: \<open>nibble\<close> and \<open>bits_msb_first\<close> build the bit sequences a
  keypad or a card reader sends.
\<close>

definition nibble :: "u8 \<Rightarrow> bool list" where
  "nibble value = [value AND 8 \<noteq> 0, value AND 4 \<noteq> 0, value AND 2 \<noteq> 0, value AND 1 \<noteq> 0]"

definition bits_msb_first :: "u32 \<Rightarrow> nat \<Rightarrow> bool list" where
  "bits_msb_first value width = map (\<lambda>i. drop_bit i value AND 1 = 1) (rev [0..<width])"

section \<open>The value of a bit sequence\<close>

text \<open>The number a bit sequence denotes, most significant bit first, without a width.\<close>

definition bits_value :: "bool list \<Rightarrow> nat" where
  "bits_value bits = foldl (\<lambda>a b. 2 * a + of_bool b) 0 bits"

lemma bits_value_snoc [simp]: "bits_value (bs @ [b]) = 2 * bits_value bs + of_bool b"
  by (simp add: bits_value_def)

lemma bits_value_Nil [simp]: "bits_value [] = 0"
  by (simp add: bits_value_def)

lemma bits_value_less: "bits_value bs < 2 ^ length bs"
  by (induction bs rule: rev_induct) auto

lemma bits_to_u32_Nil [simp]: "bits_to_u32 [] = 0"
  by (simp add: bits_to_u32_def)

lemma bits_to_u32_snoc [simp]: "bits_to_u32 (bs @ [b]) = 2 * bits_to_u32 bs + of_bool b"
  unfolding bits_to_u32_def foldl_append foldl.simps shift_or_bit ..

lemma bits_to_u32_of_nat: "bits_to_u32 bs = of_nat (bits_value bs)"
  by (induction bs rule: rev_induct) simp_all

lemma unat_bits_to_u32: "length bs \<le> 32 \<Longrightarrow> unat (bits_to_u32 bs) = bits_value bs"
proof -
  assume "length bs \<le> 32"
  then have "(2::nat) ^ length bs \<le> 2 ^ 32"
    by (rule power_increasing) simp
  with bits_value_less [of bs] have "bits_value bs < 2 ^ 32" by linarith
  then show ?thesis by (simp add: bits_to_u32_of_nat unsigned_of_nat take_bit_nat_eq_self)
qed

text \<open>\<open>bits_msb_first\<close> writes the low \<open>width\<close> bits of its argument.\<close>

lemma length_bits_msb_first [simp]: "length (bits_msb_first v w) = w"
  by (simp add: bits_msb_first_def)

lemma bits_msb_first_Suc:
  "bits_msb_first v (Suc w) = bits_msb_first (drop_bit 1 v) w @ [odd v]"
proof -
  have "rev [0..<Suc w] = map Suc (rev [0..<w]) @ [0]"
    by (simp only: upt_conv_Cons zero_less_Suc map_Suc_upt [symmetric] rev.simps rev_map)
  then show ?thesis
    by (simp add: bits_msb_first_def drop_bit_Suc and_one_eq odd_iff_mod_2_eq_one
        del: upt_Suc drop_bit_Suc)
qed

lemma bits_value_msb_first: "bits_value (bits_msb_first v w) = unat v mod 2 ^ w"
proof (induction w arbitrary: v)
  case 0
  show ?case by (simp add: bits_msb_first_def)
next
  case (Suc w)
  have half: "unat (drop_bit 1 v) = unat v div 2"
    by (simp only: drop_bit_eq_div power_one_right unat_div) simp
  have "bits_value (bits_msb_first v (Suc w)) = 2 * (unat v div 2 mod 2 ^ w) + of_bool (odd v)"
    by (simp only: bits_msb_first_Suc bits_value_snoc Suc.IH half)
  also have "\<dots> = unat v mod (2 * 2 ^ w)"
    by (simp only: mod_mult2_eq) (simp add: mod2_eq_if even_word_iff_unat)
  finally show ?case by simp
qed

text \<open>The bits of a sequence are determined by its length and value.\<close>

lemma bits_value_inj: "length bs = length cs \<Longrightarrow> bits_value bs = bits_value cs \<Longrightarrow> bs = cs"
proof (induction bs arbitrary: cs rule: rev_induct)
  case Nil
  then show ?case by simp
next
  case (snoc b bs)
  from snoc.prems(1) obtain cs' c where cs: "cs = cs' @ [c]" and len: "length bs = length cs'"
    by (cases cs rule: rev_cases) auto
  from snoc.prems(2) cs have eq: "2 * bits_value bs + of_bool b = 2 * bits_value cs' + of_bool c"
    by simp
  then have "b = c" and "bits_value bs = bits_value cs'"
    by (cases b; cases c; simp; presburger)+
  with snoc.IH [OF len] cs show ?case by simp
qed

section \<open>What each frame means\<close>

lemma unat_le_9 [simp]: "(w :: u32) \<le> 9 \<longleftrightarrow> unat w \<le> 9"
  by (simp add: word_le_nat_alt)

lemma u32_eq_iff_unat: "(w :: u32) = v \<longleftrightarrow> unat w = unat v"
  by (simp add: word_eq_iff_unsigned [where ?'a = nat])

lemma decode_nibble_value:
  assumes "length bits = 4"
  shows "decode_nibble bits =
     (if bits_value bits \<le> 9 then Frame_Digit (of_nat (bits_value bits))
      else if bits_value bits = 10 then Frame_Cancel
      else if bits_value bits = 11 then Frame_Enter
      else Frame_Unrecognized 4)"
proof -
  have u: "unat (bits_to_u32 bits) = bits_value bits"
    using assms by (intro unat_bits_to_u32) simp
  have "ucast (bits_to_u32 bits) = (of_nat (bits_value bits) :: u8)"
    by (simp flip: u)
  then show ?thesis
    by (simp add: decode_nibble_def Let_def u u32_eq_iff_unat)
qed

lemma of_nat_u8_eq: "n \<le> 9 \<Longrightarrow> (of_nat n :: u8) = d \<longleftrightarrow> n = unat d"
proof
  assume "n \<le> 9" and "(of_nat n :: u8) = d"
  then show "n = unat d" by (auto simp: unsigned_of_nat take_bit_nat_eq_self)
qed auto

lemma decode_frame_Digit_iff:
  "decode_frame bits = Frame_Digit d \<longleftrightarrow>
     length bits = 4 \<and> bits_value bits = unat d \<and> unat d \<le> 9"
  by (auto simp: decode_frame_def decode_card_def decode_nibble_value of_nat_u8_eq)

lemma decode_frame_Cancel_iff:
  "decode_frame bits = Frame_Cancel \<longleftrightarrow> length bits = 4 \<and> bits_value bits = 10"
  by (auto simp: decode_frame_def decode_card_def decode_nibble_value)

lemma decode_frame_Enter_iff:
  "decode_frame bits = Frame_Enter \<longleftrightarrow> length bits = 4 \<and> bits_value bits = 11"
  by (auto simp: decode_frame_def decode_card_def decode_nibble_value)

lemma bits_msb_first_bit: "bits_msb_first v w = map (bit v) (rev [0..<w])"
  by (simp add: bits_msb_first_def and_one_eq bit_iff_odd_drop_bit odd_iff_mod_2_eq_one)

lemma nibble_msb_first: "nibble v = bits_msb_first (ucast v) 4"
proof -
  have "nibble v = map (bit v) [3, 2, 1, 0]"
    by (simp add: nibble_def and_exp_eq_0_iff_not_bit [of v 3, simplified]
        and_exp_eq_0_iff_not_bit [of v 2, simplified]
        and_exp_eq_0_iff_not_bit [of v 1, simplified] and_exp_eq_0_iff_not_bit [of v 0, simplified])
  also have "\<dots> = bits_msb_first (ucast v) 4"
    by (simp add: bits_msb_first_bit upt_rec bit_unsigned_iff numeral_eq_Suc)
  finally show ?thesis .
qed

lemma bits_value_nibble: "bits_value (nibble v) = unat v mod 16"
  by (simp add: nibble_msb_first bits_value_msb_first unat_ucast_up)

lemma length_nibble [simp]: "length (nibble v) = 4"
  by (simp add: nibble_def)

lemma decode_frame_nibble:
  "decode_frame (nibble v) =
     (let n = unat v mod 16 in
      if n \<le> 9 then Frame_Digit (of_nat n)
      else if n = 10 then Frame_Cancel
      else if n = 11 then Frame_Enter
      else Frame_Unrecognized 4)"
  by (simp add: decode_frame_def decode_nibble_value bits_value_nibble Let_def)

text \<open>
  A card read is decoded whatever its parity bits are: the facility code and the card number
  sent most significant bit first come back unchanged.
\<close>

lemma decode_card_roundtrip:
  "decode_frame (p # bits_msb_first (ucast fc) 8 @ bits_msb_first (ucast cn) 16 @ [q]) =
     Frame_Card fc cn"
  by (simp add: decode_frame_def decode_card_def bits_to_u32_of_nat bits_value_msb_first
      unat_ucast_up unat_u8_mod unat_u16_mod ucast_up_down)

text \<open>The bits of a card are those of its two numbers.\<close>

lemma bits_of_field:
  assumes "length bs = n" and "n \<le> 32"
  shows "bits_msb_first (bits_to_u32 bs) n = bs"
proof (rule bits_value_inj)
  have "bits_value bs < 2 ^ n" using bits_value_less [of bs] assms(1) by simp
  then show "bits_value (bits_msb_first (bits_to_u32 bs) n) = bits_value bs"
    using assms by (simp add: bits_value_msb_first unat_bits_to_u32)
qed (simp add: assms)

lemma bits_msb_first_ucast:
  "bits_msb_first (ucast (ucast v :: u8)) 8 = bits_msb_first v 8"
  "bits_msb_first (ucast (ucast v :: u16)) 16 = bits_msb_first v 16"
  by (rule bits_value_inj; simp add: bits_value_msb_first unat_ucast_up unsigned_ucast_eq take_bit_eq_mod unat_mod_distrib)+

lemma decode_frame_Card_iff:
  "decode_frame bits = Frame_Card fc cn \<longleftrightarrow>
     (\<exists>p q. bits = p # bits_msb_first (ucast fc) 8 @ bits_msb_first (ucast cn) 16 @ [q])"
proof
  assume card: "decode_frame bits = Frame_Card fc cn"
  then have len: "length bits = 26"
    by (auto simp: decode_frame_def decode_nibble_def Let_def split: if_splits)
  then have fields: "fc = ucast (bits_to_u32 (take 8 (drop 1 bits)))" "cn = ucast (bits_to_u32 (take 16 (drop 9 bits)))"
    using card by (simp_all add: decode_frame_def decode_card_def)
  have "bits = take 1 bits @ take 8 (drop 1 bits) @ take 16 (drop 9 bits) @ drop 25 bits"
    using append_take_drop_id [of 8 "drop 1 bits"] append_take_drop_id [of 16 "drop 9 bits"] by simp
  moreover have "length (take 1 bits) = Suc 0" "length (drop 25 bits) = Suc 0" using len by simp_all
  then obtain p q where "take 1 bits = [p]" "drop 25 bits = [q]" by (metis length_Suc_conv length_0_conv)
  ultimately show "\<exists>p q. bits = p # bits_msb_first (ucast fc) 8 @ bits_msb_first (ucast cn) 16 @ [q]"
    using len by (intro exI [of _ p] exI [of _ q]) (simp add: fields bits_msb_first_ucast bits_of_field)
qed (auto simp: decode_card_roundtrip)

lemma decode_frame_Unrecognized_iff:
  "decode_frame bits = Frame_Unrecognized n \<longleftrightarrow>
     n = length bits \<and> (if length bits = 4 then 12 \<le> bits_value bits else length bits \<noteq> 26)"
  by (auto simp: decode_frame_def decode_nibble_value decode_card_def)

section \<open>Properties\<close>

text \<open>
  C26. The wire format is decoded exactly: of all bit sequences, only a 4-bit burst of value 0 to 9 is
  a digit (that digit), only \<open>1010\<close> is cancel and only \<open>1011\<close> is enter; a card read is exactly the
  facility code in 8 bits and the card number in 16, most significant bit first, between two
  parity bits of any value; and all else is unrecognized, with the number of its bits.
\<close>

theorem decode_frame_exact:
  "(decode_frame bits = Frame_Digit d \<longleftrightarrow>
      length bits = 4 \<and> bits_value bits = unat d \<and> unat d \<le> 9) \<and>
   (decode_frame bits = Frame_Cancel \<longleftrightarrow> bits = [True, False, True, False]) \<and>
   (decode_frame bits = Frame_Enter \<longleftrightarrow> bits = [True, False, True, True]) \<and>
   (decode_frame bits = Frame_Card fc cn \<longleftrightarrow>
      (\<exists>p q. bits = p # bits_msb_first (ucast fc) 8 @ bits_msb_first (ucast cn) 16 @ [q])) \<and>
   (decode_frame bits = Frame_Unrecognized n \<longleftrightarrow>
      n = length bits \<and> (if length bits = 4 then 12 \<le> bits_value bits else length bits \<noteq> 26))"
  using bits_value_inj [of bits "[True, False, True, False]"]
    bits_value_inj [of bits "[True, False, True, True]"]
  by (auto simp: decode_frame_Digit_iff decode_frame_Cancel_iff decode_frame_Enter_iff decode_frame_Card_iff
      decode_frame_Unrecognized_iff bits_value_def)

end
