(* ===== verification/Pin_Entry.thy ===== *)
theory Pin_Entry
  imports Prelude
begin

text \<open>
  The keypad's PIN buffer (\<^verbatim>\<open>lock-client/core/src/pin_entry.rs\<close>): the fixed array and its
  length, the abstract contract it implements (the digits typed so far), and the closed form
  of what a history of key presses submits.
\<close>

section \<open>Model\<close>

definition PIN_LEN :: nat where
  "PIN_LEN = 6"

datatype key = Key_Digit u8 | Key_Cancel | Key_Enter

text \<open>\<open>Ready\<close> carries the array \<open>[u8; PIN_LEN]\<close>.\<close>

datatype submission = Pending | Ready "u8 list"

record pin_entry =
  buffer :: "u8 list"
  filled :: nat

definition pin_entry_new :: pin_entry where
  "pin_entry_new = \<lparr>buffer = replicate PIN_LEN 0, filled = 0\<rparr>"

definition reset :: "pin_entry \<Rightarrow> pin_entry" where
  "reset self = self\<lparr>buffer := replicate PIN_LEN 0, filled := 0\<rparr>"

fun push :: "pin_entry \<Rightarrow> key \<Rightarrow> submission \<times> pin_entry" where
  "push self Key_Cancel = (Pending, reset self)"
| "push self (Key_Digit d) =
     (Pending,
      if filled self < PIN_LEN
      then self\<lparr>buffer := (buffer self)[filled self := d], filled := filled self + 1\<rparr>
      else self\<lparr>buffer := (buffer self)[0 := d], filled := 1\<rparr>)"
| "push self Key_Enter =
     (if filled self = PIN_LEN then Ready (buffer self) else Pending, reset self)"

text \<open>Feeding a sequence of keys, as the caller does: the submissions in order.\<close>

fun run_keys :: "('p \<Rightarrow> key \<Rightarrow> submission \<times> 'p) \<Rightarrow> 'p \<Rightarrow> key list \<Rightarrow> submission list \<times> 'p" where
  "run_keys f p [] = ([], p)"
| "run_keys f p (k # ks) =
     (let (s, p') = f p k; (ss, p'') = run_keys f p' ks in (s # ss, p''))"

section \<open>The contract\<close>

text \<open>
  What the buffer promises: the state is the list of digits of the current attempt; \<open>Enter\<close>
  submits it when it is complete and always clears it, \<open>Cancel\<close> clears it, and a digit
  after a complete attempt starts the next one.
\<close>

fun spec_push :: "u8 list \<Rightarrow> key \<Rightarrow> submission \<times> u8 list" where
  "spec_push ds Key_Cancel = (Pending, [])"
| "spec_push ds (Key_Digit d) = (Pending, if length ds < PIN_LEN then ds @ [d] else [d])"
| "spec_push ds Key_Enter = (if length ds = PIN_LEN then Ready ds else Pending, [])"

definition typed :: "pin_entry \<Rightarrow> u8 list" where
  "typed self = take (filled self) (buffer self)"

definition pin_inv :: "pin_entry \<Rightarrow> bool" where
  "pin_inv self \<longleftrightarrow> length (buffer self) = PIN_LEN \<and> filled self \<le> PIN_LEN"

text \<open>The digits pressed since the last \<open>Enter\<close> or \<open>Cancel\<close>.\<close>

fun is_digit_key :: "key \<Rightarrow> bool" where
  "is_digit_key (Key_Digit d) = True"
| "is_digit_key k = False"

fun key_digit :: "key \<Rightarrow> u8" where
  "key_digit (Key_Digit d) = d"
| "key_digit k = 0"

definition attempt :: "key list \<Rightarrow> u8 list" where
  "attempt ks = rev (map key_digit (takeWhile is_digit_key (rev ks)))"

text \<open>Digits are grouped in sixes from the start of the attempt; the last group counts.\<close>

definition last_chunk :: "u8 list \<Rightarrow> u8 list" where
  "last_chunk ds = drop (PIN_LEN * ((length ds - 1) div PIN_LEN)) ds"

lemma length_last_chunk:
  "length (last_chunk ds) = (if ds = [] then 0 else (length ds - 1) mod PIN_LEN + 1)"
proof (cases ds)
  case Nil
  then show ?thesis by (simp add: last_chunk_def)
next
  case (Cons d es)
  then show ?thesis
    using minus_mult_div_eq_mod [of "length es" PIN_LEN]
    by (simp add: last_chunk_def) (metis Suc_diff_le div_times_less_eq_dividend mult.commute)
qed

lemma last_chunk_snoc:
  "last_chunk (ds @ [d]) =
     (if length (last_chunk ds) < PIN_LEN then last_chunk ds @ [d] else [d])"
proof (cases "ds = []")
  case True
  then show ?thesis by (simp add: last_chunk_def PIN_LEN_def)
next
  case False
  then obtain n where n: "length ds = Suc n" by (cases ds) auto
  have "Suc n div 6 = (if n mod 6 < 5 then n div 6 else Suc (n div 6))" by presburger
  moreover have "\<not> n mod 6 < 5 \<Longrightarrow> 6 + 6 * (n div 6) = Suc n" by presburger
  moreover have "6 * (n div 6) \<le> Suc n" by presburger
  ultimately show ?thesis
    using False n by (auto simp: length_last_chunk last_chunk_def PIN_LEN_def)
qed

lemma last_chunk_complete:
  "length (last_chunk ds) = PIN_LEN \<longleftrightarrow> ds \<noteq> [] \<and> length ds mod PIN_LEN = 0"
proof (cases ds)
  case Nil
  then show ?thesis by (simp add: length_last_chunk PIN_LEN_def)
next
  case (Cons d es)
  have "(Suc (n mod 6) = 6) = (Suc n mod 6 = 0)" for n :: nat by presburger
  with Cons show ?thesis by (simp add: length_last_chunk PIN_LEN_def)
qed

lemma last_chunk_last_n:
  "length (last_chunk ds) = PIN_LEN \<Longrightarrow> last_chunk ds = last_n PIN_LEN ds"
  by (simp add: last_chunk_def last_n_def)
    (metis PIN_LEN_def diff_diff_cancel diff_is_0_eq' length_0_conv nat_le_linear
      zero_neq_numeral)

lemma attempt_simps [simp]:
  "attempt [] = []"
  "attempt (ks @ [Key_Digit d]) = attempt ks @ [d]"
  "attempt (ks @ [Key_Cancel]) = []"
  "attempt (ks @ [Key_Enter]) = []"
  by (simp_all add: attempt_def)

section \<open>The interface the lock controller relies on\<close>

lemma run_keys_snoc:
  "run_keys f p (ks @ [k]) =
     (let (ss, p') = run_keys f p ks; (s, p'') = f p' k in (ss @ [s], p''))"
  by (induction ks arbitrary: p) (auto simp: Let_def split: prod.splits)

locale code_entry =
  fixes new :: "'p"
    and push_key :: "'p \<Rightarrow> key \<Rightarrow> submission \<times> 'p"
    and digits_of :: "'p \<Rightarrow> u8 list"
    and ok :: "'p \<Rightarrow> bool"
  assumes new_ok: "ok new"
    and new_digits: "digits_of new = []"
    and push_ok: "ok p \<Longrightarrow> ok (snd (push_key p k))"
    and push_submission: "ok p \<Longrightarrow> fst (push_key p k) = fst (spec_push (digits_of p) k)"
    and push_digits: "ok p \<Longrightarrow> digits_of (snd (push_key p k)) = snd (spec_push (digits_of p) k)"
begin

lemma run_ok: "ok p \<Longrightarrow> ok (snd (run_keys push_key p ks))"
proof (induction ks arbitrary: p)
  case (Cons k ks)
  from push_ok [OF Cons.prems, of k] Cons.IH [of "snd (push_key p k)"]
  show ?case by (simp add: Let_def split_beta)
qed simp

text \<open>The implementation and the contract answer every key sequence alike.\<close>

lemma run_simulates:
  "ok p \<Longrightarrow>
     fst (run_keys push_key p ks) = fst (run_keys spec_push (digits_of p) ks) \<and>
     digits_of (snd (run_keys push_key p ks)) = snd (run_keys spec_push (digits_of p) ks)"
proof (induction ks arbitrary: p)
  case (Cons k ks)
  note step = push_ok push_submission push_digits
  from step [OF Cons.prems, of k] Cons.IH [of "snd (push_key p k)"]
  show ?case by (simp add: Let_def split_beta)
qed simp

lemma digits_bounded: "digits_of (snd (run_keys push_key new ks)) = last_chunk (attempt ks)"
proof (induction ks rule: rev_induct)
  case Nil
  show ?case by (simp add: new_digits last_chunk_def)
next
  case (snoc k ks)
  have ok: "ok (snd (run_keys push_key new ks))"
    by (rule run_ok) (rule new_ok)
  have "digits_of (snd (run_keys push_key new (ks @ [k]))) =
      snd (spec_push (digits_of (snd (run_keys push_key new ks))) k)"
    by (simp add: run_keys_snoc Let_def split_beta push_digits [OF ok])
  also have "\<dots> = last_chunk (attempt (ks @ [k]))"
    by (cases k) (simp_all add: snoc.IH last_chunk_snoc last_chunk_def [of "[]"])
  finally show ?case .
qed

lemma enter_submits:
  "fst (push_key (snd (run_keys push_key new ks)) Key_Enter) =
     (if attempt ks \<noteq> [] \<and> length (attempt ks) mod PIN_LEN = 0
      then Ready (last_n PIN_LEN (attempt ks)) else Pending)"
proof -
  have ok: "ok (snd (run_keys push_key new ks))"
    by (rule run_ok) (rule new_ok)
  show ?thesis
    using last_chunk_complete [of "attempt ks"] last_chunk_last_n [of "attempt ks"]
    by (simp add: push_submission [OF ok] digits_bounded)
qed

lemma only_enter_submits:
  "ok p \<Longrightarrow> fst (push_key p k) = Ready code \<Longrightarrow> k = Key_Enter \<and> code = digits_of p \<and> length code = PIN_LEN"
  by (cases k) (auto simp: push_submission split: if_splits)

lemma enter_or_cancel_clears:
  "ok p \<Longrightarrow> \<not> is_digit_key k \<Longrightarrow> digits_of (snd (push_key p k)) = []"
  by (cases k) (auto simp: push_digits)

end

section \<open>The array buffer implements the interface\<close>

lemma pin_inv_new [inv_intros]: "pin_inv pin_entry_new"
  by (simp add: pin_inv_def pin_entry_new_def)

lemma pin_inv_push [inv_intros]: "pin_inv p \<Longrightarrow> pin_inv (snd (push p k))"
  by (cases k) (auto simp: pin_inv_def reset_def PIN_LEN_def)

lemma take_update_snoc: "n < length xs \<Longrightarrow> take (Suc n) (xs[n := x]) = take n xs @ [x]"
  by (simp add: take_Suc_conv_app_nth)

lemma typed_push:
  assumes "pin_inv p"
  shows "map_prod id typed (push p k) = spec_push (typed p) k"
proof (cases k)
  case (Key_Digit d)
  have first: "take (Suc 0) ((buffer p)[0 := d]) = [d]"
    using assms take_update_snoc [of 0 "buffer p" d] by (simp add: pin_inv_def PIN_LEN_def)
  with Key_Digit assms show ?thesis
    by (auto simp: typed_def pin_inv_def take_update_snoc)
qed (use assms in \<open>auto simp: typed_def reset_def pin_inv_def\<close>)

interpretation keypad: code_entry pin_entry_new push typed pin_inv
proof
  fix p k
  assume p: "pin_inv p"
  show "fst (push p k) = fst (spec_push (typed p) k)"
    using typed_push [OF p, of k] by (metis fst_map_prod id_apply)
  show "typed (snd (push p k)) = snd (spec_push (typed p) k)"
    using typed_push [OF p, of k] by (metis snd_map_prod)
next
  show "typed pin_entry_new = []" by (simp add: typed_def pin_entry_new_def)
qed (fact inv_intros)+

section \<open>Properties\<close>

text \<open>
  C31. The fixed six-byte array with its fill count behaves exactly as the list of digits of the
  current attempt: any sequence of keys gives the same submissions and leaves corresponding
  states.
\<close>

theorem pin_entry_refines_spec:
  "fst (run_keys push pin_entry_new ks) = fst (run_keys spec_push [] ks) \<and>
   typed (snd (run_keys push pin_entry_new ks)) = snd (run_keys spec_push [] ks) \<and>
   pin_inv (snd (run_keys push pin_entry_new ks))"
  using keypad.run_simulates [OF keypad.new_ok] keypad.run_ok [OF keypad.new_ok]
  by (simp add: keypad.new_digits)

text \<open>
  What \<open>Enter\<close> submits after any history of keys: a code exactly when the number of digits
  pressed since the last \<open>Enter\<close> or \<open>Cancel\<close> is a positive multiple of six, and then the last
  six of them; afterwards nothing is buffered.
\<close>

theorem enter_submits_last_six:
  "fst (push (snd (run_keys push pin_entry_new ks)) Key_Enter) =
     (if attempt ks \<noteq> [] \<and> length (attempt ks) mod PIN_LEN = 0
      then Ready (last_n PIN_LEN (attempt ks)) else Pending) \<and>
   snd (push (snd (run_keys push pin_entry_new ks)) Key_Enter) = pin_entry_new"
proof -
  have "snd (push p Key_Enter) = pin_entry_new" for p
    by (simp add: reset_def pin_entry_new_def)
  then show ?thesis by (intro conjI keypad.enter_submits)
qed

end
