(* ===== verification/Totp_Verify.thy ===== *)
theory Totp_Verify
  imports Pin_Entry
begin

text \<open>
  The lock's TOTP check (\<^verbatim>\<open>lock-client/core/src/totp.rs\<close>). The code generator
  \<open>totp_embed::totp_custom::<Sha1>\<close> is third-party: it is the argument \<open>totp_custom\<close> of the
  definitions, and what the check relies on is the hypothesis \<open>step_determined\<close>.
\<close>

section \<open>Model\<close>

definition DIGITS :: u32 where
  "DIGITS = 6"

definition STEP_SECONDS :: u64 where
  "STEP_SECONDS = 30"

text \<open>\<open>totp_custom(step, digits, secret, time)\<close>, a numeric code of 64 bits.\<close>

type_synonym totp_fn = "u64 \<Rightarrow> u32 \<Rightarrow> bytes \<Rightarrow> u64 \<Rightarrow> u64"

definition digits_to_value :: "u8 list \<Rightarrow> u32" where
  "digits_to_value ds = foldl (\<lambda>acc d. acc * 10 + ucast d) 0 ds"

text \<open>The loop over the steps of drift, with its early return.\<close>

fun matches_loop :: "totp_fn \<Rightarrow> bytes \<Rightarrow> u32 \<Rightarrow> u64 \<Rightarrow> int list \<Rightarrow> bool" where
  "matches_loop totp_custom secret entered_value now [] = False"
| "matches_loop totp_custom secret entered_value now (step # steps) =
     (let candidate_time = saturating_add_signed now (step * uint STEP_SECONDS) in
      if ucast (totp_custom STEP_SECONDS DIGITS secret candidate_time) = entered_value
      then True
      else matches_loop totp_custom secret entered_value now steps)"

definition matches :: "totp_fn \<Rightarrow> bytes \<Rightarrow> u8 list \<Rightarrow> u64 \<Rightarrow> u8 \<Rightarrow> bool" where
  "matches totp_custom secret entered now skew_steps =
     matches_loop totp_custom secret (digits_to_value entered) now
       [- uint skew_steps .. uint skew_steps]"

text \<open>
  The test helper \<open>digits\<close>: the six decimal digits of a code, filled from the right; a code
  of a million or more fails its assertion.
\<close>

fun digit_slots :: "nat \<Rightarrow> u32 \<Rightarrow> u8 list" where
  "digit_slots 0 remaining = []"
| "digit_slots (Suc n) remaining = digit_slots n (remaining div 10) @ [ucast (remaining mod 10)]"

definition digits :: "u32 \<Rightarrow> u8 list option" where
  "digits code = (if code < 1000000 then Some (digit_slots PIN_LEN code) else None)"

section \<open>Decimal values\<close>

definition decimal :: "u8 list \<Rightarrow> nat" where
  "decimal ds = foldl (\<lambda>a d. 10 * a + unat d) 0 ds"

lemma decimal_Nil [simp]: "decimal [] = 0"
  by (simp add: decimal_def)

lemma decimal_snoc [simp]: "decimal (ds @ [d]) = 10 * decimal ds + unat d"
  by (simp add: decimal_def)

lemma digits_to_value_of_nat: "digits_to_value ds = of_nat (decimal ds)"
proof (induction ds rule: rev_induct)
  case Nil
  show ?case by (simp add: digits_to_value_def)
next
  case (snoc d ds)
  then show ?case by (simp add: digits_to_value_def mult.commute)
qed

lemma decimal_bound: "9 * decimal ds + 255 \<le> 255 * 10 ^ length ds"
proof (induction ds rule: rev_induct)
  case (snoc d ds)
  have "unat d \<le> 255" using unsigned_less [of d, where ?'a = nat] by simp
  then show ?case using snoc by (simp add: algebra_simps)
qed simp

lemma unat_digits_to_value:
  assumes "length ds = PIN_LEN"
  shows "unat (digits_to_value ds) = decimal ds"
proof -
  have "9 * decimal ds + 255 \<le> 255 * 1000000"
    using decimal_bound [of ds] assms by (simp add: PIN_LEN_def)
  then have "decimal ds < 2 ^ 32" by simp
  then show ?thesis by (simp add: digits_to_value_of_nat unsigned_of_nat take_bit_nat_eq_self)
qed

lemma decimal_inj:
  "length ds = length es \<Longrightarrow> list_all (\<lambda>d. d \<le> 9) ds \<Longrightarrow> list_all (\<lambda>d. d \<le> 9) es \<Longrightarrow>
     decimal ds = decimal es \<Longrightarrow> ds = es"
proof (induction ds arbitrary: es rule: rev_induct)
  case (snoc d ds)
  from snoc.prems(1) obtain es' e where es: "es = es' @ [e]" and len: "length ds = length es'"
    by (cases es rule: rev_cases) auto
  have small: "unat d \<le> 9" "unat e \<le> 9"
    using snoc.prems(2,3) by (simp_all add: es word_le_nat_alt)
  have "10 * decimal ds + unat d = 10 * decimal es' + unat e"
    using snoc.prems(4) by (simp add: es)
  with small have "decimal ds = decimal es'" and "unat d = unat e" by presburger+
  with snoc.IH [OF len] snoc.prems(2,3) show ?case by (simp add: es word_unat_eq_iff)
qed simp

lemma length_digit_slots [simp]: "length (digit_slots n r) = n"
  by (induction n arbitrary: r) simp_all

lemma digit_slots_small: "list_all (\<lambda>d. d \<le> 9) (digit_slots n r)"
proof (induction n arbitrary: r)
  case (Suc n)
  have "unat (ucast (r mod 10) :: u8) \<le> 9"
    by (simp add: unsigned_ucast_eq unat_mod take_bit_nat_eq_self)
  with Suc show ?case by (simp add: word_le_nat_alt)
qed simp

lemma decimal_digit_slots: "decimal (digit_slots n r) = unat r mod 10 ^ n"
proof (induction n arbitrary: r)
  case (Suc n)
  have "unat (ucast (r mod 10) :: u8) = unat r mod 10"
    by (simp add: unsigned_ucast_eq unat_mod take_bit_nat_eq_self)
  then show ?case by (simp add: Suc.IH unat_div mod_mult2_eq)
qed simp

section \<open>The windows a check accepts\<close>

text \<open>
  RFC 6238: a code depends on the time only through the number of whole steps since the epoch.
\<close>

definition step_determined :: "totp_fn \<Rightarrow> bool" where
  "step_determined totp_custom \<longleftrightarrow>
     (\<forall>step ds secret t t'. t div step = t' div step \<longrightarrow>
        totp_custom step ds secret t = totp_custom step ds secret t')"

text \<open>The code of the \<open>i\<close>-th window, and the last window a 64-bit clock reaches.\<close>

definition window_code :: "totp_fn \<Rightarrow> bytes \<Rightarrow> nat \<Rightarrow> u32" where
  "window_code totp_custom secret i =
     ucast (totp_custom STEP_SECONDS DIGITS secret (of_nat (30 * i)))"

definition last_window :: nat where
  "last_window = 18446744073709551615 div 30"

lemma matches_loop_iff:
  "matches_loop tc secret v now steps \<longleftrightarrow>
     (\<exists>step \<in> set steps.
        ucast (tc STEP_SECONDS DIGITS secret
                 (saturating_add_signed now (step * uint STEP_SECONDS))) = v)"
  by (induction steps) (simp_all add: Let_def)

lemma window_code_at:
  assumes "step_determined tc"
  shows "ucast (tc STEP_SECONDS DIGITS secret t) = window_code tc secret (unat t div 30)"
proof -
  define n where "n = 30 * (unat t div 30)"
  have "n \<le> unat t" by (simp add: n_def)
  then have "unat (of_nat n :: u64) = n"
    using unat_le_max_u64 [of t] by (simp add: unsigned_of_nat take_bit_nat_eq_self)
  then have "(of_nat n :: u64) div STEP_SECONDS = t div STEP_SECONDS"
    by (simp add: word_unat_eq_iff unat_div STEP_SECONDS_def n_def)
  then have "tc STEP_SECONDS DIGITS secret t = tc STEP_SECONDS DIGITS secret (of_nat n)"
    using assms unfolding step_determined_def by metis
  then show ?thesis by (simp add: window_code_def n_def)
qed

text \<open>Saturation at either end of the clock clips the window index, nothing else.\<close>

lemma drifted_window:
  "int (unat (saturating_add_signed now (j * 30)) div 30) =
     max 0 (min (int last_window) (int (unat now div 30) + j))"
proof -
  have div: "int (unat w div 30) = uint w div 30" for w :: u64
    by (simp add: zdiv_int)
  have "max 0 (min 18446744073709551615 (n + j * 30)) div 30 =
      max 0 (min (18446744073709551615 div 30) (n div 30 + j))" for n :: int
  proof -
    define q where "q = n div 30"
    define m where "m = n mod 30"
    have m: "0 \<le> m" "m < 30" by (simp_all add: m_def)
    have n: "n = 30 * q + m" by (simp add: q_def m_def)
    have "(n + j * 30) div 30 = q + j" by (simp add: q_def)
    with m show ?thesis
      unfolding q_def [symmetric] by (simp add: n max_def min_def)
  qed
  then show ?thesis
    by (simp only: div uint_saturating_add_signed) (simp add: last_window_def zdiv_int)
qed

lemma matches_windows:
  assumes "step_determined tc"
  shows "matches tc secret entered now skew \<longleftrightarrow>
     (\<exists>i \<le> last_window. \<bar>int i - int (unat now div 30)\<bar> \<le> uint skew \<and>
        window_code tc secret i = digits_to_value entered)" (is "?L \<longleftrightarrow> ?R")
proof -
  let ?w = "int (unat now div 30)"
  let ?at = "\<lambda>j. unat (saturating_add_signed now (j * 30)) div 30"
  have w: "?w \<le> int last_window"
    using unat_le_max_u64 [of now] by (simp add: last_window_def div_le_mono)
  have L: "?L \<longleftrightarrow> (\<exists>j \<in> {- uint skew .. uint skew}.
      window_code tc secret (?at j) = digits_to_value entered)"
    by (simp add: matches_def matches_loop_iff window_code_at [OF assms])
      (simp add: STEP_SECONDS_def)
  show ?thesis
  proof
    assume ?L
    then obtain j where "- uint skew \<le> j" "j \<le> uint skew"
      and "window_code tc secret (?at j) = digits_to_value entered"
      unfolding L by auto
    moreover have "?at j \<le> last_window" and "\<bar>int (?at j) - ?w\<bar> \<le> \<bar>j\<bar>"
      using drifted_window [of now j] w by linarith+
    ultimately show ?R by (intro exI [of _ "?at j"]) auto
  next
    assume ?R
    then obtain i where i: "i \<le> last_window" "\<bar>int i - ?w\<bar> \<le> uint skew"
      and code: "window_code tc secret i = digits_to_value entered" by blast
    have "?at (int i - ?w) = i"
      using drifted_window [of now "int i - ?w"] i(1) by linarith
    with code i(2) show ?L
      unfolding L by (intro bexI [of _ "int i - ?w"]) auto
  qed
qed

section \<open>Properties\<close>

text \<open>
  C15. The entered code is accepted exactly when it is the code of a window at most
  \<open>skew_steps\<close> away from the lock's current one; the saturating arithmetic at the two ends of
  the 64-bit clock only clips the range of windows. The hypothesis is RFC 6238's: the
  third-party generator sees the time only as a number of whole steps.
\<close>

theorem matches_accepts_skew_windows:
  assumes "step_determined totp_custom"
  shows "matches totp_custom secret entered now skew_steps \<longleftrightarrow>
     (\<exists>i \<le> last_window. \<bar>int i - int (unat now div 30)\<bar> \<le> uint skew_steps \<and>
        window_code totp_custom secret i = digits_to_value entered)"
  using assms by (rule matches_windows)

text \<open>A generator that returns the step index: the hypothesis can hold.\<close>

lemma step_determined_index: "step_determined (\<lambda>step ds secret t. t div step)"
  by (simp add: step_determined_def)

theorem matches_accepts_skew_windows_witness:
  "step_determined (\<lambda>step ds secret t. t div step) \<and>
   matches (\<lambda>step ds secret t. t div step) [] [0, 0, 0, 0, 0, 2] 59 1 \<and>
   \<not> matches (\<lambda>step ds secret t. t div step) [] [0, 0, 0, 0, 0, 3] 59 1"
proof -
  let ?tc = "\<lambda>step ds secret t. t div step"
  have two: "window_code ?tc [] 2 = digits_to_value [0, 0, 0, 0, 0, 2]"
    by (simp add: window_code_def STEP_SECONDS_def digits_to_value_def)
  have "matches ?tc [] [0, 0, 0, 0, 0, 2] 59 1"
    unfolding matches_accepts_skew_windows [OF step_determined_index]
    using two by (intro exI [of _ 2]) (simp add: last_window_def)
  moreover have "\<not> matches ?tc [] [0, 0, 0, 0, 0, 3] 59 1"
    by code_simp
  ultimately show ?thesis using step_determined_index by simp
qed

text \<open>
  Comparing codes as numbers loses nothing: the six digits of any code below a million have
  that value again (no leading zero matters, nothing overflows 32 bits), and two different
  six-digit entries of keypad digits never have the same value.
\<close>

theorem digits_value_roundtrip:
  "(\<forall>code < 1000000. \<exists>ds. digits code = Some ds \<and> length ds = PIN_LEN \<and>
      list_all (\<lambda>d. d \<le> 9) ds \<and> digits_to_value ds = code) \<and>
   (\<forall>ds es. length ds = PIN_LEN \<and> length es = PIN_LEN \<and>
      list_all (\<lambda>d. d \<le> 9) ds \<and> list_all (\<lambda>d. d \<le> 9) es \<and>
      digits_to_value ds = digits_to_value es \<longrightarrow> ds = es)"
proof (intro conjI allI impI)
  fix code :: u32
  assume small: "code < 1000000"
  then have "unat code < 1000000" by (simp add: word_less_nat_alt)
  then have "unat (digits_to_value (digit_slots PIN_LEN code)) = unat code"
    by (simp add: unat_digits_to_value decimal_digit_slots) (simp add: PIN_LEN_def)
  then have "digits_to_value (digit_slots PIN_LEN code) = code"
    by (simp add: word_unat_eq_iff)
  with small show "\<exists>ds. digits code = Some ds \<and> length ds = PIN_LEN \<and>
      list_all (\<lambda>d. d \<le> 9) ds \<and> digits_to_value ds = code"
    by (simp add: digits_def digit_slots_small)
next
  fix ds es
  assume "length ds = PIN_LEN \<and> length es = PIN_LEN \<and>
      list_all (\<lambda>d. d \<le> 9) ds \<and> list_all (\<lambda>d. d \<le> 9) es \<and>
      digits_to_value ds = digits_to_value es"
  then show "ds = es"
    using decimal_inj [of ds es] by (metis unat_digits_to_value)
qed

theorem digits_value_roundtrip_witness:
  "digits 7123 = Some [0, 0, 7, 1, 2, 3] \<and> digits_to_value [0, 0, 7, 1, 2, 3] = 7123"
proof -
  have d: "digits 7123 = Some [0, 0, 7, 1, 2, 3]" by code_simp
  have "(7123 :: u32) < 1000000" by simp
  with digits_value_roundtrip obtain ds where "digits 7123 = Some ds" and "digits_to_value ds = 7123"
    by blast
  with d show ?thesis by simp
qed

end
