(* ===== verification/Lock_Controller.thy ===== *)
theory Lock_Controller
  imports Wiegand Totp_Verify
begin

text \<open>
  The lock's decision logic (\<^verbatim>\<open>lock-client/core/src/lock.rs\<close>). The traits \<open>Clock\<close> and
  \<open>Actuator\<close> are records of operations on an implementation's own state; the firmware's
  implementations are in \<open>Firmware\<close>.
\<close>

section \<open>Model\<close>

record 'c clock_trait =
  unix_seconds :: "'c \<Rightarrow> u64"

record 'a actuator_trait =
  unlock :: "'a \<Rightarrow> 'a"
  lock :: "'a \<Rightarrow> 'a"

datatype outcome = Waiting | Unlocked | Rejected

record lock_controller =
  secret :: bytes
  skew_steps :: u8
  entry :: pin_entry

definition lock_controller_new :: "bytes \<Rightarrow> u8 \<Rightarrow> lock_controller" where
  "lock_controller_new sec skew = \<lparr>secret = sec, skew_steps = skew, entry = pin_entry_new\<rparr>"

text \<open>The first \<open>match\<close> of \<open>on_frame\<close>: \<open>None\<close> is its early return.\<close>

fun frame_key :: "frame \<Rightarrow> key option" where
  "frame_key (Frame_Digit d) = Some (Key_Digit d)"
| "frame_key Frame_Cancel = Some Key_Cancel"
| "frame_key Frame_Enter = Some Key_Enter"
| "frame_key (Frame_Card fc cn) = None"
| "frame_key (Frame_Unrecognized n) = None"

definition on_frame ::
  "totp_fn \<Rightarrow> 'c clock_trait \<Rightarrow> 'a actuator_trait \<Rightarrow> lock_controller \<Rightarrow> frame \<Rightarrow> 'c \<Rightarrow> 'a \<Rightarrow>
     outcome \<times> lock_controller \<times> 'a" where
  "on_frame totp_custom C A self frame clock actuator =
     (case frame_key frame of
        None \<Rightarrow> (Waiting, self, actuator)
      | Some key \<Rightarrow>
          (let (sub, e) = push (entry self) key; self' = self\<lparr>entry := e\<rparr> in
           case sub of
             Pending \<Rightarrow> (Waiting, self', actuator)
           | Ready code \<Rightarrow>
               if matches totp_custom (secret self') code (unix_seconds C clock) (skew_steps self')
               then (Unlocked, self', unlock A actuator)
               else (Rejected, self', actuator)))"

text \<open>A sequence of frames, each with the clock at the time it is handled.\<close>

fun run_frames ::
  "totp_fn \<Rightarrow> 'c clock_trait \<Rightarrow> 'a actuator_trait \<Rightarrow> lock_controller \<Rightarrow> (frame \<times> 'c) list \<Rightarrow> 'a \<Rightarrow>
     outcome list \<times> lock_controller \<times> 'a" where
  "run_frames tc C A self [] act = ([], self, act)"
| "run_frames tc C A self ((f, clk) # fs) act =
     (let (out, self', act') = on_frame tc C A self f clk act;
          (outs, self'', act'') = run_frames tc C A self' fs act'
      in (out # outs, self'', act''))"

text \<open>The test helper \<open>frames_for\<close>: the digit frames of a code and \<open>Enter\<close>.\<close>

definition frames_for :: "u32 \<Rightarrow> frame list option" where
  "frames_for code =
     (if code < 1000000 then Some (map Frame_Digit (digit_slots 6 code) @ [Frame_Enter]) else None)"

section \<open>Runs\<close>

abbreviation run_outcomes where
  "run_outcomes tc C A self fs act \<equiv> fst (run_frames tc C A self fs act)"

abbreviation run_controller where
  "run_controller tc C A self fs act \<equiv> fst (snd (run_frames tc C A self fs act))"

abbreviation run_actuator where
  "run_actuator tc C A self fs act \<equiv> snd (snd (run_frames tc C A self fs act))"

definition frame_keys :: "frame \<Rightarrow> key list" where
  "frame_keys f = (case frame_key f of None \<Rightarrow> [] | Some k \<Rightarrow> [k])"

definition keys_of :: "(frame \<times> 'c) list \<Rightarrow> key list" where
  "keys_of fs = concat (map (frame_keys \<circ> fst) fs)"

lemma keys_of_simps [simp]:
  "keys_of [] = []"
  "keys_of ((f, c) # fs) = frame_keys f @ keys_of fs"
  "keys_of (fs @ gs) = keys_of fs @ keys_of gs"
  by (simp_all add: keys_of_def)

lemma on_frame_entry:
  "entry (fst (snd (on_frame tc C A self f clk act))) =
     (case frame_key f of None \<Rightarrow> entry self | Some k \<Rightarrow> snd (push (entry self) k))"
  by (simp add: on_frame_def Let_def split_beta split: option.splits submission.splits)

lemma on_frame_secret [frame_simps]:
  "secret (fst (snd (on_frame tc C A self f clk act))) = secret self"
  "skew_steps (fst (snd (on_frame tc C A self f clk act))) = skew_steps self"
  by (simp_all add: on_frame_def Let_def split_beta split: option.splits submission.splits)

lemma run_frames_Cons:
  "run_frames tc C A self ((f, clk) # fs) act =
     (let r = on_frame tc C A self f clk act;
          rs = run_frames tc C A (fst (snd r)) fs (snd (snd r))
      in (fst r # fst rs, snd rs))"
  by (simp add: Let_def split_beta)

lemma run_frames_append:
  "run_frames tc C A self (fs @ gs) act =
     (let r = run_frames tc C A self fs act;
          rs = run_frames tc C A (fst (snd r)) gs (snd (snd r))
      in (fst r @ fst rs, snd rs))"
  by (induction fs arbitrary: self act) (auto simp: Let_def split_beta)

lemma length_run_outcomes [simp]: "length (run_outcomes tc C A self fs act) = length fs"
  by (induction fs arbitrary: self act) (auto simp: Let_def split_beta)

lemma run_entry:
  "entry (run_controller tc C A self fs act) = snd (run_keys push (entry self) (keys_of fs))"
proof (induction fs arbitrary: self act)
  case (Cons fc fs)
  obtain f c where "fc = (f, c)" by fastforce
  with Cons show ?case
    by (simp add: Let_def split_beta on_frame_entry frame_keys_def split: option.splits)
qed simp

lemma run_secret [frame_simps]:
  "secret (run_controller tc C A self fs act) = secret self"
  "skew_steps (run_controller tc C A self fs act) = skew_steps self"
  by (induction fs arbitrary: self act) (auto simp: Let_def split_beta frame_simps)

lemma new_entry [simp]: "entry (lock_controller_new sec skew) = pin_entry_new"
  and new_secret [simp]: "secret (lock_controller_new sec skew) = sec"
  and new_skew [simp]: "skew_steps (lock_controller_new sec skew) = skew"
  by (simp_all add: lock_controller_new_def)

section \<open>What the controller decides, from its history alone\<close>

text \<open>
  The specification: the verdict on a frame after a history of frames. Only \<open>Enter\<close> is ever
  judged, and only on the last six digits of an attempt whose digits are complete.
\<close>

definition verdict ::
  "totp_fn \<Rightarrow> bytes \<Rightarrow> u8 \<Rightarrow> key list \<Rightarrow> frame \<Rightarrow> u64 \<Rightarrow> outcome" where
  "verdict tc sec skew history frame now =
     (let ds = attempt history in
      if frame = Frame_Enter \<and> ds \<noteq> [] \<and> length ds mod PIN_LEN = 0
      then (if matches tc sec (last_n PIN_LEN ds) now skew then Unlocked else Rejected)
      else Waiting)"

lemma on_frame_verdict:
  assumes "entry self = snd (run_keys push pin_entry_new ks)"
  shows "fst (on_frame tc C A self f clk act) =
     verdict tc (secret self) (skew_steps self) ks f (unix_seconds C clk)"
proof (cases f)
  case Frame_Enter
  with assms keypad.enter_submits [of ks] show ?thesis
    by (auto simp: on_frame_def verdict_def Let_def split_beta split: submission.splits if_splits)
qed (simp_all add: on_frame_def verdict_def Let_def)

text \<open>The verdicts on a sequence of frames, the history growing with each.\<close>

fun verdicts ::
  "totp_fn \<Rightarrow> bytes \<Rightarrow> u8 \<Rightarrow> key list \<Rightarrow> (frame \<times> u64) list \<Rightarrow> outcome list" where
  "verdicts tc sec skew history [] = []"
| "verdicts tc sec skew history ((f, now) # fs) =
     verdict tc sec skew history f now # verdicts tc sec skew (history @ frame_keys f) fs"

lemma run_outcomes_verdicts:
  assumes "entry self = snd (run_keys push pin_entry_new ks)"
  shows "run_outcomes tc C A self fs act =
     verdicts tc (secret self) (skew_steps self) ks (map (map_prod id (unix_seconds C)) fs)"
  using assms
proof (induction fs arbitrary: self act ks)
  case (Cons fc fs)
  obtain f c where fc: "fc = (f, c)" by fastforce
  let ?r = "on_frame tc C A self f c act"
  have "entry (fst (snd ?r)) = snd (run_keys push pin_entry_new (ks @ frame_keys f))"
    by (simp add: on_frame_entry Cons.prems frame_keys_def run_keys_snoc Let_def split_beta split: option.splits)
  from Cons.IH [OF this] show ?case
    by (simp add: fc Let_def split_beta on_frame_verdict [OF Cons.prems] frame_simps)
qed simp

lemma verdicts_append:
  "verdicts tc sec skew ks (fs @ gs) =
     verdicts tc sec skew ks fs @ verdicts tc sec skew (ks @ keys_of fs) gs"
  by (induction fs arbitrary: ks) auto

lemma verdicts_no_enter:
  "Frame_Enter \<notin> fst ` set fs \<Longrightarrow>
     verdicts tc sec skew ks fs = replicate (length fs) Waiting"
  by (induction fs arbitrary: ks) (auto simp: verdict_def Let_def)

section \<open>The actuator\<close>

lemma on_frame_actuator:
  "snd (snd (on_frame tc C A self f clk act)) =
     (if fst (on_frame tc C A self f clk act) = Unlocked then unlock A act else act)"
  by (simp add: on_frame_def Let_def split_beta split: option.splits submission.splits)

lemma run_actuator_count:
  "run_actuator tc C A self fs act =
     (unlock A ^^ count_list (run_outcomes tc C A self fs act) Unlocked) act"
proof (induction fs arbitrary: self act)
  case (Cons fc fs)
  obtain f c where "fc = (f, c)" by fastforce
  with Cons show ?case
    by (simp add: Let_def split_beta on_frame_actuator funpow_swap1)
qed simp

text \<open>
  What \<open>lock.rs\<close> asks of an implementation of \<open>Actuator\<close>: both methods are idempotent, and they
  set the bolt's state.
\<close>

locale bolt_actuator =
  fixes A :: "'a actuator_trait"
    and released :: "'a \<Rightarrow> bool"
  assumes unlock_idem: "unlock A (unlock A a) = unlock A a"
    and lock_idem: "lock A (lock A a) = lock A a"
    and unlock_releases: "released (unlock A a)"
    and lock_secures: "\<not> released (lock A a)"
begin

lemma unlock_funpow: "(unlock A ^^ Suc n) a = unlock A a"
  by (induction n) (simp_all add: unlock_idem)

lemma run_actuator_eq:
  "run_actuator tc C A self fs act =
     (if Unlocked \<in> set (run_outcomes tc C A self fs act) then unlock A act else act)"
proof (cases "count_list (run_outcomes tc C A self fs act) Unlocked")
  case 0
  then show ?thesis by (simp add: run_actuator_count count_list_0_iff)
next
  case (Suc n)
  then have "Unlocked \<in> set (run_outcomes tc C A self fs act)"
    by (metis count_notin nat.distinct(1))
  with Suc show ?thesis by (simp only: run_actuator_count unlock_funpow) simp
qed

lemma run_released:
  "\<not> released act \<Longrightarrow>
     released (run_actuator tc C A self fs act) \<longleftrightarrow> Unlocked \<in> set (run_outcomes tc C A self fs act)"
  by (simp add: run_actuator_eq unlock_releases)

end

section \<open>Entering a code\<close>

lemma keys_of_digits: "keys_of (map (\<lambda>d. (Frame_Digit d, c)) ds) = map Key_Digit ds"
  by (induction ds) (simp_all add: frame_keys_def)

lemma key_digit_comp [simp]: "key_digit \<circ> Key_Digit = id"
  by auto

lemma takeWhile_digits:
  "takeWhile is_digit_key (map Key_Digit ds @ ks) = map Key_Digit ds @ takeWhile is_digit_key ks"
  by (induction ds) auto

lemma attempt_digits: "attempt (ks @ Key_Cancel # map Key_Digit ds) = ds"
  by (simp add: attempt_def rev_map takeWhile_digits)

section \<open>Properties\<close>

text \<open>
  C7. The controller never opens on anything but a correct code: over any sequence of frames
  (card reads, noise and partial entries included) it answers as the specification does from
  the history alone. So an outcome is \<open>Unlocked\<close> only for an \<open>Enter\<close> that follows six digits
  with no \<open>Enter\<close> or \<open>Cancel\<close> between them, digits which the TOTP check accepts at the time of
  that \<open>Enter\<close>.
\<close>

theorem controller_decides_by_history:
  "run_outcomes totp_custom C A (lock_controller_new sec skew) frames act =
     verdicts totp_custom sec skew [] (map (map_prod id (unix_seconds C)) frames)"
  by (subst run_outcomes_verdicts [where ks = "[]"]) simp_all

text \<open>
  The bolt is driven once for every accepted code and for nothing else: over any run the
  actuator's \<open>unlock\<close> is called exactly as often as an outcome is \<open>Unlocked\<close>, \<open>lock\<close> is never
  called, and the secret and the skew stay as configured.
\<close>

theorem unlock_once_per_accepted_code:
  "run_actuator totp_custom C A ctl fs act =
     (unlock A ^^ count_list (run_outcomes totp_custom C A ctl fs act) Unlocked) act \<and>
   secret (run_controller totp_custom C A ctl fs act) = secret ctl \<and>
   skew_steps (run_controller totp_custom C A ctl fs act) = skew_steps ctl"
  by (simp add: run_actuator_count frame_simps)

text \<open>
  A correct code always opens, whatever was typed before: after any history, \<open>Cancel\<close> and the
  frames of a code the check accepts at the time of \<open>Enter\<close> give \<open>Unlocked\<close> for that \<open>Enter\<close>
  and \<open>Waiting\<close> for each key before it.
\<close>

theorem correct_code_opens:
  assumes "frames_for code = Some frames"
    and "matches totp_custom sec (digit_slots PIN_LEN code) (unix_seconds C clock) skew"
  shows "run_outcomes totp_custom C A
          (run_controller totp_custom C A (lock_controller_new sec skew) history act0)
          (map (\<lambda>f. (f, clock)) (Frame_Cancel # frames)) act = replicate 7 Waiting @ [Unlocked]"
proof -
  let ?ctl = "run_controller totp_custom C A (lock_controller_new sec skew) history act0"
  let ?ds = "digit_slots PIN_LEN code"
  let ?now = "unix_seconds C clock"
  let ?pre = "(Frame_Cancel, ?now) # map (\<lambda>d. (Frame_Digit d, ?now)) ?ds"
  have frames: "frames = map Frame_Digit ?ds @ [Frame_Enter]"
    using assms(1) by (simp add: frames_for_def PIN_LEN_def split: if_splits)
  then have fs: "map (map_prod id (unix_seconds C)) (map (\<lambda>f. (f, clock)) (Frame_Cancel # frames)) =
      ?pre @ [(Frame_Enter, ?now)]"
    by (simp add: comp_def)
  have enter: "verdict totp_custom sec skew (keys_of history @ keys_of ?pre) Frame_Enter ?now = Unlocked"
  proof -
    have len: "length ?ds = PIN_LEN" by simp
    then have "?ds \<noteq> []" by (metis PIN_LEN_def length_0_conv zero_neq_numeral)
    with len show ?thesis
      using assms(2) by (simp add: verdict_def keys_of_digits attempt_digits last_n_all Let_def
          frame_keys_def)
  qed
  have "run_outcomes totp_custom C A ?ctl (map (\<lambda>f. (f, clock)) (Frame_Cancel # frames)) act =
      verdicts totp_custom sec skew (keys_of history) (?pre @ [(Frame_Enter, ?now)])"
    by (subst run_outcomes_verdicts [where ks = "keys_of history"])
      (simp_all only: run_entry frame_simps new_entry new_secret new_skew fs)
  also have "\<dots> = replicate (length ?pre) Waiting @ [Unlocked]"
    by (subst verdicts_append, subst verdicts_no_enter) (use enter in auto)
  finally show ?thesis by (simp add: PIN_LEN_def)
qed

text \<open>The check at a concrete secret: the generator returns the step index.\<close>

theorem correct_code_opens_witness:
  "run_outcomes (\<lambda>step ds s t. t div step) \<lparr>unix_seconds = id\<rparr> \<lparr>unlock = Suc, lock = id\<rparr>
     (run_controller (\<lambda>step ds s t. t div step) \<lparr>unix_seconds = id\<rparr> \<lparr>unlock = Suc, lock = id\<rparr>
        (lock_controller_new [1] 1) [(Frame_Digit 9, 0), (Frame_Card 1 2, 3)] (0 :: nat))
     (map (\<lambda>f. (f, 59)) (Frame_Cancel # map Frame_Digit [0, 0, 0, 0, 0, 1] @ [Frame_Enter])) 0 =
   replicate 7 Waiting @ [Unlocked]"
proof -
  have frames: "frames_for 1 = Some (map Frame_Digit [0, 0, 0, 0, 0, 1] @ [Frame_Enter])"
    by code_simp
  have ok: "matches (\<lambda>step ds s t. t div step) [1] (digit_slots PIN_LEN 1)
      (unix_seconds \<lparr>unix_seconds = id\<rparr> 59) 1"
    by code_simp
  show ?thesis by (rule correct_code_opens [OF frames ok])
qed

text \<open>
  However the secret is chosen, one \<open>Enter\<close> accepts at most \<open>2 * skew_steps + 1\<close> of the
  entries of six keypad digits, so a guess succeeds for at most that many of the million
  codes.
\<close>

theorem accepted_entries_bounded:
  "card {entered. length entered = PIN_LEN \<and> list_all (\<lambda>d. d \<le> 9) entered \<and>
           matches totp_custom sec entered now skew} \<le> 2 * unat skew + 1"
proof -
  let ?S = "{entered. length entered = PIN_LEN \<and> list_all (\<lambda>d. d \<le> 9) entered \<and>
           matches totp_custom sec entered now skew}"
  let ?code = "\<lambda>j. ucast (totp_custom STEP_SECONDS DIGITS sec
      (saturating_add_signed now (j * uint STEP_SECONDS))) :: u32"
  let ?steps = "{- uint skew .. uint skew}"
  have "inj_on digits_to_value ?S"
    by (rule inj_onI) (metis (mono_tags, lifting) mem_Collect_eq decimal_inj unat_digits_to_value)
  then have card: "card ?S = card (digits_to_value ` ?S)" by (simp add: card_image)
  have "digits_to_value ` ?S \<subseteq> ?code ` ?steps"
  proof
    fix v assume "v \<in> digits_to_value ` ?S"
    then obtain step where "step \<in> ?steps" and "?code step = v"
      by (auto simp: matches_def matches_loop_iff)
    then show "v \<in> ?code ` ?steps" by blast
  qed
  then have "card (digits_to_value ` ?S) \<le> card (?code ` ?steps)"
    by (rule card_mono [rotated]) simp
  also have "card (?code ` ?steps) \<le> card ?steps"
    by (rule card_image_le) simp
  also have "card ?steps = 2 * unat skew + 1"
    by (simp add: nat_add_distrib nat_mult_distrib)
  finally show ?thesis by (simp only: card)
qed

end
