(* ===== verification/Wiegand_Capture.thy ===== *)
theory Wiegand_Capture
  imports Wiegand
begin

text \<open>
  Capture of Wiegand pulses by the GPIO interrupt handler and the message-gap timeout of the
  main loop (\<^verbatim>\<open>lock-client/firmware/src/wiegand_capture.rs\<close>). An \<open>Instant\<close> or a \<open>Duration\<close> of
  the HAL is a number of microseconds; of an input pin the code uses whether it listens for
  edges and its pending interrupt flag.
\<close>

section \<open>Model\<close>

type_synonym instant = nat
type_synonym duration = nat

definition MAX_BITS :: nat where
  "MAX_BITS = 34"

definition MESSAGE_GAP :: duration where
  "MESSAGE_GAP = 25000"

record input_pin =
  listening :: bool
  interrupt_set :: bool

record capture_state =
  d0 :: input_pin
  d1 :: input_pin
  bits :: "bool list"
  last_edge :: "instant option"

definition install :: "input_pin \<Rightarrow> input_pin \<Rightarrow> capture_state option \<Rightarrow> capture_state option" where
  "install p0 p1 capture =
     Some \<lparr>d0 = p0\<lparr>listening := True\<rparr>, d1 = p1\<lparr>listening := True\<rparr>, bits = [], last_edge = None\<rparr>"

text \<open>\<open>heapless::Vec::push\<close>: \<open>Inl\<close> gives the element back when the vector is full.\<close>

definition vec_push :: "bool list \<Rightarrow> bool \<Rightarrow> (bool, bool list) result" where
  "vec_push v x = (if length v < MAX_BITS then Inr (v @ [x]) else Inl x)"

text \<open>\<open>push_bit\<close> of the source; \<open>now\<close> is its reading of the timer.\<close>

definition capture_bit :: "capture_state \<Rightarrow> bool \<Rightarrow> instant \<Rightarrow> capture_state" where
  "capture_bit state b now =
     (let v = (if length (bits state) = MAX_BITS then tl (bits state) else bits state);
          v' = (case vec_push v b of Inl _ \<Rightarrow> v | Inr w \<Rightarrow> w)
      in state\<lparr>bits := v', last_edge := Some now\<rparr>)"

text \<open>The handler checks D0, then D1; each captured bit reads the timer.\<close>

definition on_gpio_interrupt ::
  "instant \<Rightarrow> instant \<Rightarrow> capture_state option \<Rightarrow> capture_state option" where
  "on_gpio_interrupt now0 now1 capture =
     (case capture of
        None \<Rightarrow> None
      | Some state \<Rightarrow>
          (let state = (if interrupt_set (d0 state)
                        then capture_bit (state\<lparr>d0 := (d0 state)\<lparr>interrupt_set := False\<rparr>\<rparr>) False now0
                        else state);
               state = (if interrupt_set (d1 state)
                        then capture_bit (state\<lparr>d1 := (d1 state)\<lparr>interrupt_set := False\<rparr>\<rparr>) True now1
                        else state)
           in Some state))"

text \<open>
  \<open>Instant - Instant\<close>. \<open>None\<close> stands for whatever the HAL does when the instants are out of
  order; the firmware is shown never to get there.
\<close>

definition instant_since :: "instant \<Rightarrow> instant \<Rightarrow> duration option" where
  "instant_since now earlier = (if earlier \<le> now then Some (now - earlier) else None)"

definition take_completed_frame ::
  "instant \<Rightarrow> capture_state option \<Rightarrow> (bool list option \<times> capture_state option) option" where
  "take_completed_frame now capture =
     (case capture of
        None \<Rightarrow> Some (None, None)
      | Some state \<Rightarrow>
          (case last_edge state of
             None \<Rightarrow> Some (None, capture)
           | Some e \<Rightarrow>
               if bits state = [] then Some (None, capture)
               else (case instant_since now e of
                       None \<Rightarrow> None
                     | Some gap \<Rightarrow>
                         if gap < MESSAGE_GAP then Some (None, capture)
                         else Some (Some (bits state), Some (state\<lparr>last_edge := None, bits := []\<rparr>)))))"

text \<open>The hardware: a falling edge sets the flag of a pin that listens for it.\<close>

definition raise_lines :: "bool \<Rightarrow> bool \<Rightarrow> capture_state option \<Rightarrow> capture_state option" where
  "raise_lines e0 e1 capture =
     map_option (\<lambda>st. st\<lparr>d0 := (d0 st)\<lparr>interrupt_set := interrupt_set (d0 st) \<or> e0 \<and> listening (d0 st)\<rparr>,
                         d1 := (d1 st)\<lparr>interrupt_set := interrupt_set (d1 st) \<or> e1 \<and> listening (d1 st)\<rparr>\<rparr>)
       capture"

text \<open>
  What happens to the capture over time: edges with the interrupt they raise (at the two
  timer readings of the handler) and polls of the main loop.
\<close>

datatype capture_event = Edges bool bool instant instant | Poll instant

definition gpio_edges ::
  "bool \<Rightarrow> bool \<Rightarrow> instant \<Rightarrow> instant \<Rightarrow> capture_state option \<Rightarrow> capture_state option" where
  "gpio_edges e0 e1 now0 now1 capture = on_gpio_interrupt now0 now1 (raise_lines e0 e1 capture)"

fun events_run ::
  "(bool \<Rightarrow> bool \<Rightarrow> instant \<Rightarrow> instant \<Rightarrow> 'k \<Rightarrow> 'k) \<Rightarrow>
   (instant \<Rightarrow> 'k \<Rightarrow> (bool list option \<times> 'k) option) \<Rightarrow>
   'k \<Rightarrow> capture_event list \<Rightarrow> (bool list list \<times> 'k) option" where
  "events_run irq poll k [] = Some ([], k)"
| "events_run irq poll k (Edges e0 e1 t0 t1 # es) = events_run irq poll (irq e0 e1 t0 t1 k) es"
| "events_run irq poll k (Poll t # es) =
     (case poll t k of
        None \<Rightarrow> None
      | Some (None, k') \<Rightarrow> events_run irq poll k' es
      | Some (Some f, k') \<Rightarrow> map_option (map_prod ((#) f) id) (events_run irq poll k' es))"

abbreviation capture_run where
  "capture_run \<equiv> events_run gpio_edges take_completed_frame"

text \<open>Events in the order of a clock that shows at least \<open>t\<close>.\<close>

fun in_order :: "instant \<Rightarrow> capture_event list \<Rightarrow> bool" where
  "in_order t [] = True"
| "in_order t (Edges e0 e1 t0 t1 # es) = (t \<le> t0 \<and> t0 \<le> t1 \<and> in_order t1 es)"
| "in_order t (Poll u # es) = (t \<le> u \<and> in_order u es)"

text \<open>The pulses of a sequence of events: D0 is a 0 bit, D1 a 1 bit.\<close>

definition edge_bits :: "bool \<Rightarrow> bool \<Rightarrow> bool list" where
  "edge_bits e0 e1 = (if e0 then [False] else []) @ (if e1 then [True] else [])"

fun pulses :: "capture_event list \<Rightarrow> bool list" where
  "pulses [] = []"
| "pulses (Edges e0 e1 t0 t1 # es) = edge_bits e0 e1 @ pulses es"
| "pulses (Poll t # es) = pulses es"

section \<open>The interface of a frame source\<close>

text \<open>
  What the main loop relies on: as long as the timer does not run backwards, interrupts and
  polls keep the source well-formed, a poll always answers, and a frame it hands out is
  non-empty and at most \<open>MAX_BITS\<close> long.
\<close>

locale frame_source =
  fixes irq :: "bool \<Rightarrow> bool \<Rightarrow> instant \<Rightarrow> instant \<Rightarrow> 'k \<Rightarrow> 'k"
    and poll :: "instant \<Rightarrow> 'k \<Rightarrow> (bool list option \<times> 'k) option"
    and ok :: "instant \<Rightarrow> 'k \<Rightarrow> bool"
  assumes later_ok: "ok t k \<Longrightarrow> t \<le> u \<Longrightarrow> ok u k"
    and irq_ok: "ok t k \<Longrightarrow> t \<le> t0 \<Longrightarrow> t0 \<le> t1 \<Longrightarrow> ok t1 (irq e0 e1 t0 t1 k)"
    and poll_answers: "ok t k \<Longrightarrow> t \<le> u \<Longrightarrow> \<exists>f k'. poll u k = Some (f, k') \<and> ok u k'"
    and frame_size: "ok t k \<Longrightarrow> poll u k = Some (Some f, k') \<Longrightarrow> f \<noteq> [] \<and> length f \<le> MAX_BITS"
begin

lemma run_answers:
  "ok t k \<Longrightarrow> in_order t es \<Longrightarrow>
     \<exists>fs k' u. events_run irq poll k es = Some (fs, k') \<and> ok u k' \<and>
       (\<forall>f \<in> set fs. f \<noteq> [] \<and> length f \<le> MAX_BITS)"
proof (induction es arbitrary: t k)
  case Nil
  then show ?case by auto
next
  case (Cons e es)
  show ?case
  proof (cases e)
    case (Edges e0 e1 t0 t1)
    with Cons.prems have "ok t1 (irq e0 e1 t0 t1 k)" "in_order t1 es" by (auto intro: irq_ok)
    from Cons.IH [OF this] Edges show ?thesis by auto
  next
    case (Poll u)
    with Cons.prems obtain f k1 where poll: "poll u k = Some (f, k1)" "ok u k1" "in_order u es"
      using poll_answers [of t k u] by auto
    from Cons.IH [OF poll(2,3)] obtain fs k' v
      where run: "events_run irq poll k1 es = Some (fs, k')" "ok v k'"
        "\<forall>f \<in> set fs. f \<noteq> [] \<and> length f \<le> MAX_BITS" by blast
    have "\<forall>g. f = Some g \<longrightarrow> g \<noteq> [] \<and> length g \<le> MAX_BITS"
      using frame_size [OF Cons.prems(1)] poll(1) by blast
    with Poll poll(1) run show ?thesis by (cases f) auto
  qed
qed

end

section \<open>Invariant\<close>

definition pin_idle :: "input_pin \<Rightarrow> bool" where
  "pin_idle p \<longleftrightarrow> listening p \<and> \<not> interrupt_set p"

text \<open>An installed capture between interrupts.\<close>

definition capture_inv :: "capture_state \<Rightarrow> bool" where
  "capture_inv st \<longleftrightarrow>
     length (bits st) \<le> MAX_BITS \<and> (bits st = [] \<longleftrightarrow> last_edge st = None) \<and>
     pin_idle (d0 st) \<and> pin_idle (d1 st)"

lemma capture_bit_bits:
  assumes "length (bits st) \<le> MAX_BITS"
  shows "bits (capture_bit st b now) = last_n MAX_BITS (bits st @ [b])"
proof (cases "length (bits st) = MAX_BITS")
  case True
  moreover have "MAX_BITS \<noteq> 0" by (simp add: MAX_BITS_def)
  ultimately show ?thesis
    by (simp add: capture_bit_def vec_push_def Let_def last_n_snoc_full last_n_all)
next
  case False
  with assms have "length (bits st) < MAX_BITS" by simp
  then show ?thesis
    by (simp add: capture_bit_def vec_push_def Let_def last_n_snoc_room last_n_all)
qed

lemma capture_bit_simps [simp]:
  "last_edge (capture_bit st b now) = Some now"
  "d0 (capture_bit st b now) = d0 st"
  "d1 (capture_bit st b now) = d1 st"
  by (simp_all add: capture_bit_def Let_def)

lemma gpio_edges_Some:
  assumes "capture_inv st"
  shows "\<exists>st'. gpio_edges e0 e1 t0 t1 (Some st) = Some st' \<and> capture_inv st' \<and>
     bits st' = last_n MAX_BITS (bits st @ edge_bits e0 e1) \<and>
     last_edge st' = (if e1 then Some t1 else if e0 then Some t0 else last_edge st)"
proof -
  have len: "length (bits st) \<le> MAX_BITS" and pos: "0 < MAX_BITS"
    using assms by (auto simp: capture_inv_def MAX_BITS_def)
  have two: "last_n MAX_BITS (last_n MAX_BITS xs @ [b]) = last_n MAX_BITS (xs @ [b])"
    for xs :: "bool list" and b
  proof (cases "length xs < MAX_BITS")
    case False
    then show ?thesis
      using pos by (simp add: last_n_snoc_full last_n_all)
  qed (simp add: last_n_all)
  have "last_n MAX_BITS xs \<noteq> []" if "xs \<noteq> []" for xs :: "bool list"
    using that pos length_last_n [of MAX_BITS xs] by (metis length_greater_0_conv min_less_iff_conj)
  with assms len two [of "bits st @ [False]" True] show ?thesis
    by (cases e0; cases e1)
      (auto simp: gpio_edges_def on_gpio_interrupt_def raise_lines_def Let_def capture_inv_def
        pin_idle_def capture_bit_bits edge_bits_def last_n_all)
qed

lemma take_completed_frame_cases:
  assumes "capture_inv st" and "\<And>e. last_edge st = Some e \<Longrightarrow> e \<le> now"
  shows "take_completed_frame now (Some st) =
     (case last_edge st of
        None \<Rightarrow> Some (None, Some st)
      | Some e \<Rightarrow>
          if now < e + MESSAGE_GAP then Some (None, Some st)
          else Some (Some (bits st), Some (st\<lparr>last_edge := None, bits := []\<rparr>)))"
  using assms
  by (auto simp: take_completed_frame_def instant_since_def capture_inv_def split: option.splits)

definition capture_ok :: "instant \<Rightarrow> capture_state option \<Rightarrow> bool" where
  "capture_ok t capture \<longleftrightarrow>
     (case capture of
        None \<Rightarrow> False
      | Some st \<Rightarrow> capture_inv st \<and> (case last_edge st of None \<Rightarrow> True | Some e \<Rightarrow> e \<le> t))"

lemma capture_ok_Some [simp]:
  "capture_ok t (Some st) \<longleftrightarrow> capture_inv st \<and> (\<forall>e. last_edge st = Some e \<longrightarrow> e \<le> t)"
  by (auto simp: capture_ok_def split: option.splits)

interpretation wiegand_source: frame_source gpio_edges take_completed_frame capture_ok
proof
  fix t u :: instant and k :: "capture_state option"
  assume k: "capture_ok t k"
  then obtain st where st: "k = Some st" by (cases k) (auto simp: capture_ok_def)
  { assume "t \<le> u"
    then show "capture_ok u k" using k st by auto }
  { fix e0 e1 t0 t1
    assume "t \<le> t0" "t0 \<le> (t1 :: instant)"
    then show "capture_ok t1 (gpio_edges e0 e1 t0 t1 k)"
      using k st gpio_edges_Some [of st e0 e1 t0 t1] by (fastforce split: if_splits) }
  { assume "t \<le> u"
    then have ord: "\<And>e. last_edge st = Some e \<Longrightarrow> e \<le> u" using k st by fastforce
    have "capture_inv (st\<lparr>last_edge := None, bits := []\<rparr>)"
      using k st by (simp add: capture_inv_def)
    then show "\<exists>f k'. take_completed_frame u k = Some (f, k') \<and> capture_ok u k'"
      using k st ord take_completed_frame_cases [of st u] by (auto split: option.splits) }
  { fix f k'
    assume "take_completed_frame u k = Some (Some f, k')"
    then show "f \<noteq> [] \<and> length f \<le> MAX_BITS"
      using k st by (auto simp: take_completed_frame_def capture_inv_def split: option.splits if_splits) }
qed

section \<open>The unbounded recorder\<close>

text \<open>
  The reference: a recorder with no bound on its buffer, whose poll hands out everything
  recorded once the lines have been silent for \<open>MESSAGE_GAP\<close>.
\<close>

type_synonym recorder = "bool list \<times> instant option"

fun record_edges :: "bool \<Rightarrow> bool \<Rightarrow> instant \<Rightarrow> instant \<Rightarrow> recorder \<Rightarrow> recorder" where
  "record_edges e0 e1 t0 t1 (buf, le) =
     (buf @ edge_bits e0 e1, if e1 then Some t1 else if e0 then Some t0 else le)"

fun record_poll :: "instant \<Rightarrow> recorder \<Rightarrow> (bool list option \<times> recorder) option" where
  "record_poll t (buf, None) = Some (None, (buf, None))"
| "record_poll t (buf, Some e) =
     (if t < e + MESSAGE_GAP then Some (None, (buf, Some e)) else Some (Some buf, ([], None)))"

abbreviation recorder_run where
  "recorder_run \<equiv> events_run record_edges record_poll"

text \<open>The recorder always answers, and hands out every pulse once and in order.\<close>

lemma recorder_pulses:
  "\<exists>fs buf le. recorder_run r es = Some (fs, (buf, le)) \<and> concat fs @ buf = fst r @ pulses es"
proof (induction es arbitrary: r)
  case Nil
  then show ?case by (cases r) auto
next
  case (Cons e es)
  obtain buf le where r: "r = (buf, le)" by fastforce
  show ?case
  proof (cases e)
    case (Edges e0 e1 t0 t1)
    with Cons.IH [of "record_edges e0 e1 t0 t1 r"] r show ?thesis by simp
  next
    case (Poll t)
    with Cons.IH [of r] Cons.IH [of "([], None)"] r show ?thesis
      by (cases le) auto
  qed
qed

definition simulates :: "capture_state \<Rightarrow> recorder \<Rightarrow> bool" where
  "simulates st r \<longleftrightarrow>
     capture_inv st \<and> bits st = last_n MAX_BITS (fst r) \<and> last_edge st = snd r"

lemma last_n_last_n_append:
  "last_n n (last_n n xs @ ys) = last_n n (xs @ ys)"
  by (cases "length xs \<le> n") (auto simp: last_n_def add.commute)

lemma simulates_edges:
  assumes "simulates st r"
  shows "\<exists>st'. gpio_edges e0 e1 t0 t1 (Some st) = Some st' \<and> simulates st' (record_edges e0 e1 t0 t1 r)"
  using assms gpio_edges_Some [of st e0 e1 t0 t1]
  by (cases r) (auto simp: simulates_def last_n_last_n_append)

lemma simulates_poll:
  assumes "simulates st r" and "capture_ok t (Some st)" and "t \<le> u"
  shows "\<exists>f r' st'. record_poll u r = Some (f, r') \<and>
     take_completed_frame u (Some st) = Some (map_option (last_n MAX_BITS) f, Some st') \<and>
     simulates st' r'"
proof -
  obtain buf le where r: "r = (buf, le)" by fastforce
  have "\<And>e. last_edge st = Some e \<Longrightarrow> e \<le> u" using assms(2,3) by fastforce
  moreover have "simulates (st\<lparr>last_edge := None, bits := []\<rparr>) ([], None)"
    using assms(1) by (simp add: simulates_def capture_inv_def)
  ultimately show ?thesis
    using assms(1) r take_completed_frame_cases [of st u]
    by (cases le) (auto simp: simulates_def)
qed

lemma capture_simulates:
  assumes "simulates st r" and "capture_ok t (Some st)" and "in_order t es"
  shows "\<exists>fs r' st'. recorder_run r es = Some (fs, r') \<and>
     capture_run (Some st) es = Some (map (last_n MAX_BITS) fs, Some st') \<and> simulates st' r'"
  using assms
proof (induction es arbitrary: st r t)
  case Nil
  then show ?case by auto
next
  case (Cons e es)
  show ?case
  proof (cases e)
    case (Edges e0 e1 t0 t1)
    obtain st' where st': "gpio_edges e0 e1 t0 t1 (Some st) = Some st'"
      and sim: "simulates st' (record_edges e0 e1 t0 t1 r)"
      using simulates_edges [OF Cons.prems(1)] by blast
    have "capture_ok t1 (Some st')"
      using wiegand_source.irq_ok [OF Cons.prems(2), of t0 t1 e0 e1] Cons.prems(3) Edges st' by simp
    with Cons.IH [OF sim] Cons.prems(3) Edges st' show ?thesis by auto
  next
    case (Poll u)
    with Cons.prems(3) have u: "t \<le> u" "in_order u es" by auto
    obtain f r' st' where poll: "record_poll u r = Some (f, r')"
      "take_completed_frame u (Some st) = Some (map_option (last_n MAX_BITS) f, Some st')"
      and sim: "simulates st' r'"
      using simulates_poll [OF Cons.prems(1,2) u(1)] by blast
    have "capture_ok u (Some st')"
      using wiegand_source.poll_answers [OF Cons.prems(2) u(1)] poll(2) by auto
    from Cons.IH [OF sim this u(2)] Poll poll show ?thesis by (cases f) auto
  qed
qed

section \<open>Bursts\<close>

text \<open>Every poll comes less than \<open>MESSAGE_GAP\<close> after the edge before it, if there is one.\<close>

fun one_burst :: "instant option \<Rightarrow> capture_event list \<Rightarrow> bool" where
  "one_burst e [] = True"
| "one_burst e (Edges e0 e1 t0 t1 # es) =
     one_burst (if e1 then Some t1 else if e0 then Some t0 else e) es"
| "one_burst e (Poll t # es) =
     ((case e of None \<Rightarrow> True | Some t' \<Rightarrow> t < t' + MESSAGE_GAP) \<and> one_burst e es)"

fun final_edge :: "instant option \<Rightarrow> capture_event list \<Rightarrow> instant option" where
  "final_edge e [] = e"
| "final_edge e (Edges e0 e1 t0 t1 # es) =
     final_edge (if e1 then Some t1 else if e0 then Some t0 else e) es"
| "final_edge e (Poll t # es) = final_edge e es"

lemma recorder_burst:
  "one_burst e es \<Longrightarrow> recorder_run (buf, e) es = Some ([], (buf @ pulses es, final_edge e es))"
proof (induction es arbitrary: buf e)
  case (Cons ev es)
  then show ?case by (cases ev; cases e) auto
qed simp

lemma events_run_snoc_Poll:
  "events_run irq poll k es = Some (fs, k') \<Longrightarrow> poll t k' = Some (Some f, k'') \<Longrightarrow>
     events_run irq poll k (es @ [Poll t]) = Some (fs @ [f], k'')"
  by (induction irq poll k es arbitrary: fs rule: events_run.induct) (auto split: option.splits)

lemma install_simulates:
  assumes "\<not> interrupt_set p0" and "\<not> interrupt_set p1"
  obtains st where "install p0 p1 c = Some st" and "simulates st ([], None)" and "capture_ok t (Some st)"
proof
  let ?st = "\<lparr>d0 = p0\<lparr>listening := True\<rparr>, d1 = p1\<lparr>listening := True\<rparr>, bits = [], last_edge = None\<rparr>"
  show "install p0 p1 c = Some ?st" by (simp add: install_def)
  show "simulates ?st ([], None)" and "capture_ok t (Some ?st)"
    using assms by (simp_all add: simulates_def capture_inv_def pin_idle_def)
qed

text \<open>A keypad so slow that a poll falls \<open>MESSAGE_GAP\<close> after each single bit.\<close>

definition slow_events :: "(bool \<times> instant \<times> instant) list \<Rightarrow> capture_event list" where
  "slow_events ps = concat (map (\<lambda>(b, t, u). [Edges (\<not> b) b t t, Poll u]) ps)"

lemma recorder_slow:
  "\<forall>(b, t, u) \<in> set ps. t + MESSAGE_GAP \<le> u \<Longrightarrow>
     recorder_run ([], None) (slow_events ps) = Some (map (\<lambda>(b, t, u). [b]) ps, ([], None))"
  by (induction ps) (auto simp: slow_events_def edge_bits_def)

section \<open>Properties\<close>

text \<open>
  C23. The interrupt-driven capture with its bounded buffer records what the lines carry: on any
  sequence of edges and polls in the order of the timer it never fails, and it hands out one frame
  for each frame of an unbounded recorder, whose frames and remainder joined together are exactly
  the pulses on the lines, in order. A frame of up to 34 pulses is handed out whole, bit by bit, so
  every key press and card read is. Of a longer burst the newest 34 pulses are handed out; neither
  the burst nor what is left of it decodes as a key or a card, so what was lost changes nothing.
\<close>

theorem capture_refines_recorder:
  assumes "in_order t es" and "\<not> interrupt_set p0" and "\<not> interrupt_set p1"
  shows "\<exists>fs cs buf le st. recorder_run ([], None) es = Some (fs, (buf, le)) \<and> concat fs @ buf = pulses es \<and>
     capture_run (install p0 p1 capture) es = Some (cs, Some st) \<and>
     list_all2 (\<lambda>f c. if length f \<le> 34 then c = f
       else c = last_n 34 f \<and> decode_frame f = Frame_Unrecognized (length f) \<and>
            decode_frame c = Frame_Unrecognized 34) fs cs \<and>
     bits st = last_n 34 buf \<and> last_edge st = le"
proof -
  obtain st0 where st0: "install p0 p1 capture = Some st0" "simulates st0 ([], None)"
      "capture_ok t (Some st0)"
    using assms(2,3) by (rule install_simulates)
  obtain fs r st where run: "recorder_run ([], None) es = Some (fs, r)"
      "capture_run (Some st0) es = Some (map (last_n MAX_BITS) fs, Some st)" "simulates st r"
    using capture_simulates [OF st0(2,3) assms(1)] by blast
  have "concat fs @ fst r = pulses es"
    using recorder_pulses [of "([], None)" es] run(1) by auto
  moreover have "list_all2 (\<lambda>f c. if length f \<le> 34 then c = f
       else c = last_n 34 f \<and> decode_frame f = Frame_Unrecognized (length f) \<and>
            decode_frame c = Frame_Unrecognized 34) fs (map (last_n MAX_BITS) fs)"
    by (simp add: list_all2_map2 list_all2_same last_n_all decode_frame_def MAX_BITS_def)
  moreover have "bits st = last_n 34 (fst r)" "last_edge st = snd r"
    using run(3) by (cases r; simp add: simulates_def MAX_BITS_def)+
  ultimately show ?thesis
    using run(1,2) st0(1) by (intro exI [of _ fs] exI [of _ "map (last_n MAX_BITS) fs"] exI [of _ "fst r"]
        exI [of _ "snd r"] exI [of _ st]) simp
qed

text \<open>The key 7: the bits 0111 a millisecond apart, with two polls among them.\<close>

definition seven_press :: "capture_event list" where
  "seven_press =
     [Edges True False 0 0, Poll 500, Edges False True 1000 1000, Edges False True 2000 2000,
      Poll 2500, Edges False True 3000 3000]"

lemmas seven_simps = seven_press_def MESSAGE_GAP_def edge_bits_def

theorem capture_refines_recorder_witness:
  "\<exists>fs cs buf le st. recorder_run ([], None) (seven_press @ [Poll 40000]) = Some (fs, (buf, le)) \<and>
     concat fs @ buf = pulses (seven_press @ [Poll 40000]) \<and> fs = [[False, True, True, True]] \<and>
     capture_run (install \<lparr>listening = False, interrupt_set = False\<rparr>
        \<lparr>listening = False, interrupt_set = False\<rparr> None) (seven_press @ [Poll 40000]) = Some (cs, Some st) \<and>
     cs = fs \<and> bits st = []"
proof -
  have "in_order 0 (seven_press @ [Poll 40000])" by (simp add: seven_simps)
  from capture_refines_recorder [OF this, of "\<lparr>listening = False, interrupt_set = False\<rparr>"
      "\<lparr>listening = False, interrupt_set = False\<rparr>" None]
  show ?thesis by (auto simp: seven_simps list_all2_Cons1)
qed

text \<open>
  A burst of pulses followed by \<open>MESSAGE_GAP\<close> of silence is handed out as one frame by the
  first poll after the silence, and the capture is empty again. Up to 34 pulses the frame
  decodes as the pulses; a longer burst decodes as unrecognized, never as a key.
\<close>

theorem burst_becomes_one_frame:
  assumes "in_order t (burst @ [Poll now])" and "one_burst None burst"
    and "final_edge None burst = Some e" and "e + MESSAGE_GAP \<le> now"
    and "\<not> interrupt_set p0" and "\<not> interrupt_set p1"
  shows "\<exists>frame st. capture_run (install p0 p1 capture) (burst @ [Poll now]) = Some ([frame], Some st) \<and>
     bits st = [] \<and> last_edge st = None \<and>
     decode_frame frame = (if length (pulses burst) \<le> MAX_BITS then decode_frame (pulses burst)
                           else Frame_Unrecognized MAX_BITS)"
proof -
  obtain st0 where st0: "install p0 p1 capture = Some st0" "simulates st0 ([], None)"
      "capture_ok t (Some st0)"
    using assms(5,6) by (rule install_simulates)
  have "recorder_run ([], None) burst = Some ([], (pulses burst, Some e))"
    using recorder_burst [OF assms(2), of "[]"] assms(3) by simp
  then have rec: "recorder_run ([], None) (burst @ [Poll now]) = Some ([pulses burst], ([], None))"
    using events_run_snoc_Poll [where fs = "[]"] assms(4) by fastforce
  obtain st where "capture_run (Some st0) (burst @ [Poll now]) =
      Some ([last_n MAX_BITS (pulses burst)], Some st)" "simulates st ([], None)"
    using capture_simulates [OF st0(2,3) assms(1)] rec by auto
  moreover have "decode_frame (last_n MAX_BITS bs) =
      (if length bs \<le> MAX_BITS then decode_frame bs else Frame_Unrecognized MAX_BITS)" for bs
    by (simp add: last_n_all decode_frame_def MAX_BITS_def)
  ultimately show ?thesis using st0(1) by (auto simp: simulates_def)
qed

theorem burst_becomes_one_frame_witness:
  "\<exists>frame st. capture_run (install \<lparr>listening = False, interrupt_set = False\<rparr>
        \<lparr>listening = False, interrupt_set = False\<rparr> None)
        (seven_press @ [Poll 40000]) = Some ([frame], Some st) \<and>
     bits st = [] \<and> last_edge st = None \<and> decode_frame frame = Frame_Digit 7"
proof -
  let ?b = "seven_press"
  have "in_order 0 (?b @ [Poll 40000])" "one_burst None ?b" "final_edge None ?b = Some 3000"
    by (simp_all add: seven_simps)
  from burst_becomes_one_frame [OF this] have
    "\<exists>frame st. capture_run (install \<lparr>listening = False, interrupt_set = False\<rparr>
        \<lparr>listening = False, interrupt_set = False\<rparr> None) (?b @ [Poll 40000]) =
          Some ([frame], Some st) \<and>
     bits st = [] \<and> last_edge st = None \<and>
     decode_frame frame = (if length (pulses ?b) \<le> MAX_BITS then decode_frame (pulses ?b)
                           else Frame_Unrecognized MAX_BITS)"
    by (simp add: MESSAGE_GAP_def)
  moreover have "pulses ?b = [False, True, True, True]" by (simp add: seven_simps)
  moreover have "decode_frame [False, True, True, True] = Frame_Digit 7" by code_simp
  ultimately show ?thesis by (simp add: MAX_BITS_def)
qed

text \<open>
  C40. The comment on \<open>MESSAGE_GAP\<close> gives 20 to 100 ms as the usual gap between the bits of one
  keypress, but the code ends a frame after 25 ms: when the main loop polls 25 ms or more after
  every bit, each bit becomes a frame of its own and every one of them is unrecognized, so no
  key press of such a keypad is ever decoded.
\<close>

theorem slow_keypad_is_never_decoded:
  assumes "in_order t (slow_events ps)" and "\<forall>(b, t, u) \<in> set ps. t + MESSAGE_GAP \<le> u"
    and "\<not> interrupt_set p0" and "\<not> interrupt_set p1"
  shows "\<exists>frames st. capture_run (install p0 p1 capture) (slow_events ps) = Some (frames, Some st) \<and>
     length frames = length ps \<and> list_all (\<lambda>f. decode_frame f = Frame_Unrecognized 1) frames"
proof -
  obtain st0 where st0: "install p0 p1 capture = Some st0" "simulates st0 ([], None)"
      "capture_ok t (Some st0)"
    using assms(3,4) by (rule install_simulates)
  obtain st where "capture_run (Some st0) (slow_events ps) =
      Some (map (last_n MAX_BITS) (map (\<lambda>(b, t, u). [b]) ps), Some st)"
    using capture_simulates [OF st0(2,3) assms(1)] recorder_slow [OF assms(2)] by auto
  then show ?thesis
    using st0(1) by (auto simp: list_all_iff decode_frame_def MAX_BITS_def)
qed

theorem slow_keypad_is_never_decoded_witness:
  "\<exists>frames st. capture_run (install \<lparr>listening = False, interrupt_set = False\<rparr>
        \<lparr>listening = False, interrupt_set = False\<rparr> None)
        (slow_events [(False, 0, 25000), (True, 30000, 55000), (True, 60000, 85000), (True, 90000, 115000)]) =
      Some (frames, Some st) \<and>
     length frames = 4 \<and> list_all (\<lambda>f. decode_frame f = Frame_Unrecognized 1) frames"
proof -
  let ?ps = "[(False, 0, 25000), (True, 30000, 55000), (True, 60000, 85000), (True, 90000, 115000)]
    :: (bool \<times> instant \<times> instant) list"
  have ord: "in_order 0 (slow_events ?ps)" by (simp add: slow_events_def)
  have gap: "\<forall>(b, t, u) \<in> set ?ps. t + MESSAGE_GAP \<le> u" by (simp add: MESSAGE_GAP_def)
  have len: "length ?ps = 4" by simp
  show ?thesis
    unfolding len [symmetric] by (rule slow_keypad_is_never_decoded [OF ord gap]) simp_all
qed

end
