(* ===== verification/Rust_Text.thy ===== *)
theory Rust_Text
  imports Prelude
begin

text \<open>
  The operations of Rust's standard library on strings and decimal numbers that the sources
  use: \<open>trim\<close>, \<open>trim_end_matches\<close>, \<open>strip_prefix\<close>, \<open>split_once\<close>, \<open>eq_ignore_ascii_case\<close>,
  \<open>parse\<close> for the unsigned integer types and their \<open>Display\<close>.
\<close>

section \<open>Strings\<close>

text \<open>\<open>char::is_whitespace\<close>: the Unicode property White\_Space.\<close>

definition is_whitespace :: "nat \<Rightarrow> bool" where
  "is_whitespace c \<longleftrightarrow>
     9 \<le> c \<and> c \<le> 13 \<or> c = 32 \<or> c = 133 \<or> c = 160 \<or> c = 5760 \<or> 8192 \<le> c \<and> c \<le> 8202 \<or>
     c = 8232 \<or> c = 8233 \<or> c = 8239 \<or> c = 8287 \<or> c = 12288"

definition trim_end_by :: "(nat \<Rightarrow> bool) \<Rightarrow> ustr \<Rightarrow> ustr" where
  "trim_end_by p s = rev (dropWhile p (rev s))"

definition trim :: "ustr \<Rightarrow> ustr" where
  "trim s = trim_end_by is_whitespace (dropWhile is_whitespace s)"

definition trim_end_matches :: "nat \<Rightarrow> ustr \<Rightarrow> ustr" where
  "trim_end_matches c s = trim_end_by (\<lambda>x. x = c) s"

fun strip_prefix :: "ustr \<Rightarrow> ustr \<Rightarrow> ustr option" where
  "strip_prefix [] s = Some s"
| "strip_prefix (p # ps) [] = None"
| "strip_prefix (p # ps) (c # cs) = (if p = c then strip_prefix ps cs else None)"

fun split_once :: "nat \<Rightarrow> ustr \<Rightarrow> (ustr \<times> ustr) option" where
  "split_once sep [] = None"
| "split_once sep (c # cs) =
     (if c = sep then Some ([], cs)
      else map_option (map_prod ((#) c) id) (split_once sep cs))"

definition to_ascii_lowercase :: "nat \<Rightarrow> nat" where
  "to_ascii_lowercase c = (if 65 \<le> c \<and> c \<le> 90 then c + 32 else c)"

definition eq_ignore_ascii_case :: "ustr \<Rightarrow> ustr \<Rightarrow> bool" where
  "eq_ignore_ascii_case a b \<longleftrightarrow> map to_ascii_lowercase a = map to_ascii_lowercase b"

lemma trim_end_by_last: "trim_end_by p s \<noteq> [] \<Longrightarrow> \<not> p (last (trim_end_by p s))"
  by (simp add: trim_end_by_def last_rev hd_dropWhile)

lemma trim_end_by_idem [simp]: "trim_end_by p (trim_end_by p s) = trim_end_by p s"
  by (simp add: trim_end_by_def)

lemma trim_end_by_id: "s = [] \<or> \<not> p (last s) \<Longrightarrow> trim_end_by p s = s"
  by (cases s rule: rev_cases) (auto simp: trim_end_by_def)

lemma trim_end_by_subset: "set (trim_end_by p s) \<subseteq> set s"
  unfolding trim_end_by_def by (metis set_dropWhileD set_rev subsetI)

lemma trim_end_by_decomp: "\<exists>ws. s = trim_end_by p s @ ws \<and> list_all p ws"
proof
  let ?ws = "rev (takeWhile p (rev s))"
  have "rev s = takeWhile p (rev s) @ dropWhile p (rev s)" by simp
  then have "s = rev (dropWhile p (rev s)) @ ?ws"
    by (metis rev_append rev_rev_ident)
  then show "s = trim_end_by p s @ ?ws \<and> list_all p ?ws"
    by (auto simp: trim_end_by_def list_all_iff dest: set_takeWhileD)
qed

text \<open>\<open>trim\<close> leaves no whitespace at either end.\<close>

lemma trim_ends:
  assumes "trim s \<noteq> []"
  shows "\<not> is_whitespace (hd (trim s))" and "\<not> is_whitespace (last (trim s))"
proof -
  let ?t = "dropWhile is_whitespace s"
  have ne: "?t \<noteq> []"
  proof
    assume "?t = []"
    then have "trim s = []" by (simp only: trim_def trim_end_by_def rev.simps dropWhile.simps)
    with assms show False by simp
  qed
  obtain ws where "?t = trim s @ ws"
    using trim_end_by_decomp [of ?t is_whitespace] by (auto simp: trim_def)
  then have "hd ?t = hd (trim s)" using assms by (metis hd_append2)
  with ne show "\<not> is_whitespace (hd (trim s))"
    using hd_dropWhile [of is_whitespace s] by simp
  show "\<not> is_whitespace (last (trim s))"
    using assms trim_end_by_last [of is_whitespace ?t] by (simp add: trim_def)
qed

lemma trim_idem [simp]: "trim (trim s) = trim s"
proof (cases "trim s = []")
  case False
  then have "dropWhile is_whitespace (trim s) = trim s"
    using trim_ends(1) [OF False] by (cases "trim s") auto
  moreover have "trim_end_by is_whitespace (trim s) = trim s"
    by (rule trim_end_by_id) (use False trim_ends(2) in auto)
  ultimately show ?thesis by (simp add: trim_def [of "trim s"])
qed (simp add: trim_def [of "[]"] trim_end_by_def)

lemma split_once_Some:
  "split_once sep s = Some (a, b) \<longleftrightarrow> s = a @ sep # b \<and> sep \<notin> set a"
proof (induction s arbitrary: a)
  case (Cons c cs)
  show ?case
  proof (cases a)
    case Nil
    then show ?thesis by auto
  next
    case (Cons x xs)
    then show ?thesis using Cons.IH [of xs] by auto
  qed
qed auto

lemma strip_prefix_Some: "strip_prefix p s = Some r \<longleftrightarrow> s = p @ r"
  by (induction p s rule: strip_prefix.induct) auto

section \<open>Unsigned integers in decimal\<close>

datatype parse_int_error = Empty | InvalidDigit | PosOverflow

text \<open>
  \<open>str::parse\<close> at an unsigned type with largest value \<open>mx\<close>: an optional plus sign, then at
  least one decimal digit.
\<close>

fun parse_digits :: "nat \<Rightarrow> nat \<Rightarrow> ustr \<Rightarrow> (parse_int_error, nat) result" where
  "parse_digits mx acc [] = Inr acc"
| "parse_digits mx acc (c # cs) =
     (if 48 \<le> c \<and> c \<le> 57
      then (let v = acc * 10 + (c - 48) in
            if mx < v then Inl PosOverflow else parse_digits mx v cs)
      else Inl InvalidDigit)"

definition parse_unsigned :: "nat \<Rightarrow> ustr \<Rightarrow> (parse_int_error, nat) result" where
  "parse_unsigned mx s =
     (case s of
        [] \<Rightarrow> Inl Empty
      | c # cs \<Rightarrow>
          if c = 43 then (if cs = [] then Inl InvalidDigit else parse_digits mx 0 cs)
          else parse_digits mx 0 s)"

text \<open>\<open>Display\<close> for unsigned integers.\<close>

fun show_nat :: "nat \<Rightarrow> ustr" where
  "show_nat n = (if n < 10 then [48 + n] else show_nat (n div 10) @ [48 + n mod 10])"

declare show_nat.simps [simp del]

lemma parse_digits_append:
  "parse_digits mx acc (cs @ ds) =
     (case parse_digits mx acc cs of Inl e \<Rightarrow> Inl e | Inr v \<Rightarrow> parse_digits mx v ds)"
  by (induction cs arbitrary: acc) (auto simp: Let_def)

lemma parse_digits_bound: "parse_digits mx acc cs = Inr v \<Longrightarrow> acc \<le> mx \<Longrightarrow> v \<le> mx"
  by (induction cs arbitrary: acc) (auto simp: Let_def split: if_splits)

lemma parse_unsigned_bound: "parse_unsigned mx s = Inr v \<Longrightarrow> v \<le> mx"
  by (auto simp: parse_unsigned_def simp del: parse_digits.simps
      split: list.splits if_splits dest: parse_digits_bound)

lemma show_nat_not_Nil [simp]: "show_nat n \<noteq> []"
  by (subst show_nat.simps) simp

lemma show_nat_digits: "c \<in> set (show_nat n) \<Longrightarrow> 48 \<le> c \<and> c \<le> 57"
proof (induction n rule: show_nat.induct)
  case (1 n)
  from "1.prems" show ?case
    by (subst (asm) show_nat.simps) (use "1.IH" in \<open>auto split: if_splits\<close>)
qed

lemma parse_digits_show: "n \<le> mx \<Longrightarrow> parse_digits mx 0 (show_nat n) = Inr n"
proof (induction n rule: show_nat.induct)
  case (1 n)
  show ?case
  proof (cases "n < 10")
    case True
    with "1.prems" show ?thesis by (subst show_nat.simps) simp
  next
    case False
    then have "parse_digits mx 0 (show_nat (n div 10)) = Inr (n div 10)"
      using "1.IH" "1.prems" by simp
    moreover have "n div 10 * 10 + n mod 10 = n" by simp
    ultimately show ?thesis
      using False "1.prems" by (subst show_nat.simps) (simp add: parse_digits_append)
  qed
qed

text \<open>Printing and parsing round-trip.\<close>

lemma parse_show_nat: "n \<le> mx \<Longrightarrow> parse_unsigned mx (show_nat n) = Inr n"
proof -
  assume n: "n \<le> mx"
  obtain c cs where s: "show_nat n = c # cs" by (cases "show_nat n") auto
  then have "c \<noteq> 43" using show_nat_digits [of c n] by auto
  with n s show ?thesis using parse_digits_show [OF n] by (simp add: parse_unsigned_def)
qed

lemma trim_show_nat [simp]: "trim (show_nat n) = show_nat n"
proof -
  have no_ws: "\<not> is_whitespace c" if "c \<in> set (show_nat n)" for c
    using show_nat_digits [OF that] by (auto simp: is_whitespace_def)
  have "dropWhile is_whitespace (show_nat n) = show_nat n"
    using no_ws by (cases "show_nat n") auto
  moreover have "trim_end_by is_whitespace (show_nat n) = show_nat n"
    by (rule trim_end_by_id) (use no_ws [of "last (show_nat n)"] in simp)
  ultimately show ?thesis by (simp add: trim_def)
qed

end
