(* ===== verification/Firmware.thy ===== *)
theory Firmware
  imports Lock_Controller Wiegand_Capture Rust_Text
begin

text \<open>
  The firmware's main loop with its clock and actuator (\<^verbatim>\<open>lock-client/firmware\<close>: \<open>main.rs\<close>,
  \<open>clock.rs\<close>, \<open>actuator.rs\<close>, \<open>build.rs\<close>). The loop is cut into phases between which GPIO
  interrupts fire and time passes; the HAL's timer is the field \<open>now\<close>.
\<close>

section \<open>Model\<close>

subsection \<open>The bolt\<close>

text \<open>\<open>BoltActuator\<close>: the level of the relay pin, high while the bolt is released.\<close>

record bolt_state =
  relay_high :: bool

definition bolt_new :: "bool \<Rightarrow> bolt_state" where
  "bolt_new level = \<lparr>relay_high = level\<rparr>"

definition bolt_trait :: "bolt_state actuator_trait" where
  "bolt_trait = \<lparr>unlock = (\<lambda>b. b\<lparr>relay_high := True\<rparr>), lock = (\<lambda>b. b\<lparr>relay_high := False\<rparr>)\<rparr>"

subsection \<open>The clock\<close>

record system_clock =
  boot_epoch :: u64

text \<open>\<open>build.rs\<close>: the build's Unix time as the text of an environment variable.\<close>

definition build_epoch_env :: "u64 \<Rightarrow> ustr" where
  "build_epoch_env build_epoch = show_nat (unat build_epoch)"

text \<open>\<open>SystemClock::start\<close>; \<open>None\<close> is the panic of \<open>expect\<close>.\<close>

definition system_clock_start :: "ustr \<Rightarrow> system_clock option" where
  "system_clock_start env_epoch =
     (case parse_unsigned (2 ^ 64 - 1) env_epoch of
        Inl _ \<Rightarrow> None
      | Inr n \<Rightarrow> Some \<lparr>boot_epoch = of_nat n\<rparr>)"

text \<open>The clock read at a value of the timer (microseconds since boot).\<close>

definition system_clock_trait :: "(system_clock \<times> instant) clock_trait" where
  "system_clock_trait =
     \<lparr>unix_seconds = (\<lambda>(c, t). boot_epoch c + of_nat (t div 1000000))\<rparr>"

subsection \<open>The main loop\<close>

definition SECRET :: bytes where
  "SECRET = map of_char ''CHANGE ME: provision a real per-lock secret''"

definition SKEW_STEPS :: u8 where
  "SKEW_STEPS = 1"

definition UNLOCK_DURATION :: duration where
  "UNLOCK_DURATION = 5000000"

definition POLL_INTERVAL_MS :: nat where
  "POLL_INTERVAL_MS = 5"

text \<open>Where the main thread is in the body of its loop; in the delay at its end, since when.\<close>

datatype phase = AtPoll | AtFrame "bool list" | AtOutcome outcome | AtRelock | AtDelay instant

text \<open>
  \<open>history\<close> is auxiliary: the frames handled so far, with the clock at each. No phase reads it.
\<close>

record firmware =
  capture :: "capture_state option"
  controller :: lock_controller
  bolt :: bolt_state
  clock :: system_clock
  relock_at :: "instant option"
  console :: "string list"
  phase :: phase
  now :: instant
  history :: "(frame \<times> u64) list"

definition fw_unix :: "firmware \<Rightarrow> u64" where
  "fw_unix s = unix_seconds system_clock_trait (clock s, now s)"

text \<open>The set-up before the loop, with fresh pins; \<open>None\<close> is the panic of \<open>SystemClock::start\<close>.\<close>

definition fw_init :: "ustr \<Rightarrow> instant \<Rightarrow> firmware option" where
  "fw_init env_epoch t =
     map_option (\<lambda>clk.
       \<lparr>capture = install \<lparr>listening = False, interrupt_set = False\<rparr>
                          \<lparr>listening = False, interrupt_set = False\<rparr> None,
        controller = lock_controller_new SECRET SKEW_STEPS,
        bolt = bolt_new False,
        clock = clk,
        relock_at = None,
        console = [''lock-client ready''],
        phase = AtPoll,
        now = t,
        history = []\<rparr>)
     (system_clock_start env_epoch)"

definition poll_phase :: "firmware \<Rightarrow> firmware option" where
  "poll_phase s =
     map_option (\<lambda>(f, c). s\<lparr>capture := c,
                            phase := (case f of None \<Rightarrow> AtRelock | Some bs \<Rightarrow> AtFrame bs)\<rparr>)
       (take_completed_frame (now s) (capture s))"

definition frame_phase :: "totp_fn \<Rightarrow> bool list \<Rightarrow> firmware \<Rightarrow> firmware" where
  "frame_phase tc bs s =
     (let frame = decode_frame bs;
          (out, ctl, act) = on_frame tc system_clock_trait bolt_trait (controller s) frame
                              (clock s, now s) (bolt s)
      in s\<lparr>controller := ctl, bolt := act, phase := AtOutcome out,
           history := history s @ [(frame, fw_unix s)]\<rparr>)"

definition outcome_phase :: "outcome \<Rightarrow> firmware \<Rightarrow> firmware" where
  "outcome_phase out s =
     (case out of
        Unlocked \<Rightarrow> s\<lparr>console := console s @ [''access granted''],
                      relock_at := Some (now s + UNLOCK_DURATION)\<rparr>
      | Rejected \<Rightarrow> s\<lparr>console := console s @ [''access denied'']\<rparr>
      | Waiting \<Rightarrow> s)\<lparr>phase := AtRelock\<rparr>"

definition relock_phase :: "firmware \<Rightarrow> firmware" where
  "relock_phase s =
     (case relock_at s of
        None \<Rightarrow> s
      | Some t \<Rightarrow>
          if t \<le> now s
          then s\<lparr>bolt := lock bolt_trait (bolt s), relock_at := None,
                 console := console s @ [''re-locked'']\<rparr>
          else s)\<lparr>phase := AtDelay (now s)\<rparr>"

text \<open>
  The system's steps: time passes, the lines pulse and raise the interrupt, or the main thread
  executes its next phase. The delay ends once \<open>POLL_INTERVAL_MS\<close> have gone by.
\<close>

inductive fw_step :: "totp_fn \<Rightarrow> firmware \<Rightarrow> firmware \<Rightarrow> bool" for tc where
  tick: "now s \<le> t \<Longrightarrow> fw_step tc s (s\<lparr>now := t\<rparr>)"
| edges: "now s \<le> t0 \<Longrightarrow> t0 \<le> t1 \<Longrightarrow>
     fw_step tc s (s\<lparr>capture := gpio_edges e0 e1 t0 t1 (capture s), now := t1\<rparr>)"
| poll: "phase s = AtPoll \<Longrightarrow> poll_phase s = Some s' \<Longrightarrow> fw_step tc s s'"
| handle: "phase s = AtFrame bs \<Longrightarrow> fw_step tc s (frame_phase tc bs s)"
| outcome: "phase s = AtOutcome out \<Longrightarrow> fw_step tc s (outcome_phase out s)"
| relock: "phase s = AtRelock \<Longrightarrow> fw_step tc s (relock_phase s)"
| delay: "phase s = AtDelay since \<Longrightarrow> since + 1000 * POLL_INTERVAL_MS \<le> t \<Longrightarrow> now s \<le> t \<Longrightarrow>
     fw_step tc s (s\<lparr>now := t, phase := AtPoll\<rparr>)"

inductive fw_reachable :: "totp_fn \<Rightarrow> firmware \<Rightarrow> bool" for tc where
  boot: "fw_init env_epoch t = Some s \<Longrightarrow> fw_reachable tc s"
| step: "fw_reachable tc s \<Longrightarrow> fw_step tc s s' \<Longrightarrow> fw_reachable tc s'"

section \<open>The bolt implements the actuator's contract\<close>

interpretation relay: bolt_actuator bolt_trait relay_high
  by unfold_locales (simp_all add: bolt_trait_def)

section \<open>Invariant\<close>

definition released_only_scheduled :: "firmware \<Rightarrow> bool" where
  "released_only_scheduled s \<longleftrightarrow>
     (relay_high (bolt s) \<longleftrightarrow> relock_at s \<noteq> None \<or> phase s = AtOutcome Unlocked) \<and>
     (\<forall>t. relock_at s = Some t \<longrightarrow> t \<le> now s + UNLOCK_DURATION)"

definition entry_follows_history :: "firmware \<Rightarrow> bool" where
  "entry_follows_history s \<longleftrightarrow>
     entry (controller s) = snd (run_keys push pin_entry_new (keys_of (history s))) \<and>
     secret (controller s) = SECRET \<and> skew_steps (controller s) = SKEW_STEPS"

definition fw_inv :: "firmware \<Rightarrow> bool" where
  "fw_inv s \<longleftrightarrow>
     capture_ok (now s) (capture s) \<and> entry_follows_history s \<and> released_only_scheduled s"

lemma fw_inv_init: "fw_init env_epoch t = Some s \<Longrightarrow> fw_inv s"
  by (auto simp: fw_init_def fw_inv_def install_def capture_inv_def pin_idle_def
      entry_follows_history_def released_only_scheduled_def bolt_new_def)

subsection \<open>Each phase keeps it\<close>

lemma fw_inv_later: "fw_inv s \<Longrightarrow> now s \<le> t \<Longrightarrow> fw_inv (s\<lparr>now := t\<rparr>)"
  by (auto simp: fw_inv_def entry_follows_history_def released_only_scheduled_def
      intro: wiegand_source.later_ok)

lemma fw_inv_edges:
  "fw_inv s \<Longrightarrow> now s \<le> t0 \<Longrightarrow> t0 \<le> t1 \<Longrightarrow>
     fw_inv (s\<lparr>capture := gpio_edges e0 e1 t0 t1 (capture s), now := t1\<rparr>)"
  by (auto simp: fw_inv_def entry_follows_history_def released_only_scheduled_def
      intro: wiegand_source.irq_ok)

lemma fw_inv_poll:
  assumes "fw_inv s" and "phase s = AtPoll" and "poll_phase s = Some s'"
  shows "fw_inv s'"
proof -
  from assms(1) obtain f c where "take_completed_frame (now s) (capture s) = Some (f, c)"
      and "capture_ok (now s) c"
    using wiegand_source.poll_answers [of "now s" "capture s" "now s"] by (auto simp: fw_inv_def)
  with assms show ?thesis
    by (cases f) (auto simp: fw_inv_def poll_phase_def entry_follows_history_def
        released_only_scheduled_def)
qed

lemma frame_phase_outcome:
  assumes "fw_inv s"
  shows "phase (frame_phase tc bs s) =
     AtOutcome (verdict tc SECRET SKEW_STEPS (keys_of (history s)) (decode_frame bs) (fw_unix s))"
proof -
  have "entry (controller s) = snd (run_keys push pin_entry_new (keys_of (history s)))"
    using assms by (simp add: fw_inv_def entry_follows_history_def)
  from on_frame_verdict [OF this, of tc system_clock_trait bolt_trait "decode_frame bs"
      "(clock s, now s)" "bolt s"] assms
  show ?thesis
    by (simp add: frame_phase_def Let_def split_beta fw_unix_def fw_inv_def entry_follows_history_def)
qed

lemma frame_phase_bolt:
  assumes "fw_inv s" and "phase s = AtFrame bs"
  shows "relay_high (bolt (frame_phase tc bs s)) \<longleftrightarrow>
     relock_at s \<noteq> None \<or> phase (frame_phase tc bs s) = AtOutcome Unlocked"
  using assms
  by (auto simp: frame_phase_def Let_def split_beta on_frame_actuator relay.unlock_releases
      fw_inv_def released_only_scheduled_def)

lemma fw_inv_frame:
  assumes "fw_inv s" and "phase s = AtFrame bs"
  shows "fw_inv (frame_phase tc bs s)"
proof -
  have "entry_follows_history (frame_phase tc bs s)"
    using assms(1)
    by (auto simp: fw_inv_def entry_follows_history_def frame_phase_def Let_def split_beta
        on_frame_entry frame_simps frame_keys_def run_keys_snoc split: option.splits)
  moreover have "released_only_scheduled (frame_phase tc bs s)"
    using assms frame_phase_bolt [OF assms]
    by (auto simp: fw_inv_def released_only_scheduled_def) (auto simp: frame_phase_def Let_def split_beta)
  moreover have "capture_ok (now (frame_phase tc bs s)) (capture (frame_phase tc bs s))"
    using assms(1) by (simp add: fw_inv_def frame_phase_def Let_def split_beta)
  ultimately show ?thesis by (simp add: fw_inv_def)
qed

lemma fw_inv_outcome: "fw_inv s \<Longrightarrow> phase s = AtOutcome out \<Longrightarrow> fw_inv (outcome_phase out s)"
  by (cases out) (auto simp: fw_inv_def outcome_phase_def entry_follows_history_def
      released_only_scheduled_def)

lemma fw_inv_relock: "fw_inv s \<Longrightarrow> phase s = AtRelock \<Longrightarrow> fw_inv (relock_phase s)"
  by (auto simp: fw_inv_def relock_phase_def entry_follows_history_def
      released_only_scheduled_def bolt_trait_def split: option.splits)

lemma fw_inv_delay:
  "fw_inv s \<Longrightarrow> phase s = AtDelay since \<Longrightarrow> now s \<le> t \<Longrightarrow> fw_inv (s\<lparr>now := t, phase := AtPoll\<rparr>)"
  by (auto simp: fw_inv_def entry_follows_history_def released_only_scheduled_def
      intro: wiegand_source.later_ok)

lemma fw_inv_step: "fw_step tc s s' \<Longrightarrow> fw_inv s \<Longrightarrow> fw_inv s'"
  by (induction rule: fw_step.induct)
    (auto intro: fw_inv_later fw_inv_edges fw_inv_poll fw_inv_frame fw_inv_outcome
      fw_inv_relock fw_inv_delay)

lemma fw_reachable_inv: "fw_reachable tc s \<Longrightarrow> fw_inv s"
  by (induction rule: fw_reachable.induct) (auto intro: fw_inv_init fw_inv_step)

section \<open>A pass of the loop\<close>

text \<open>One pass of the loop's body with no time passing between its phases.\<close>

definition finish_pass :: "totp_fn \<Rightarrow> firmware \<Rightarrow> firmware" where
  "finish_pass tc s =
     (case phase s of
        AtFrame bs \<Rightarrow>
          (let s = frame_phase tc bs s in
           case phase s of AtOutcome out \<Rightarrow> relock_phase (outcome_phase out s) | _ \<Rightarrow> s)
      | AtRelock \<Rightarrow> relock_phase s
      | _ \<Rightarrow> s)"

definition main_pass :: "totp_fn \<Rightarrow> firmware \<Rightarrow> firmware option" where
  "main_pass tc s = map_option (finish_pass tc) (poll_phase s)"

lemma poll_phase_answers:
  assumes "fw_inv s"
  obtains s' where "poll_phase s = Some s'" and "phase s' = AtRelock \<or> (\<exists>bs. phase s' = AtFrame bs)"
    and "now s' = now s"
proof -
  obtain f c where "take_completed_frame (now s) (capture s) = Some (f, c)"
    using assms wiegand_source.poll_answers [of "now s" "capture s" "now s"]
    by (auto simp: fw_inv_def)
  with that show thesis by (cases f) (auto simp: poll_phase_def)
qed

lemma phase_now [frame_simps]:
  "now (frame_phase tc bs s) = now s"
  "now (outcome_phase out s) = now s"
  "now (relock_phase s) = now s"
  by (simp_all add: frame_phase_def outcome_phase_def relock_phase_def Let_def split_beta
      split: outcome.splits option.splits)

lemma phase_next:
  "\<exists>out. phase (frame_phase tc bs s) = AtOutcome out"
  "phase (outcome_phase out s) = AtRelock"
  "phase (relock_phase s) = AtDelay (now s)"
  by (simp_all add: frame_phase_def outcome_phase_def relock_phase_def Let_def split_beta)

lemma relock_phase_deadline:
  "relock_at (relock_phase s) = Some t \<Longrightarrow> now s < t"
  by (auto simp: relock_phase_def split: option.splits if_splits)

lemma finish_pass_steps:
  assumes "phase s = AtRelock \<or> (\<exists>bs. phase s = AtFrame bs)"
  shows "(fw_step tc)\<^sup>*\<^sup>* s (finish_pass tc s) \<and> phase (finish_pass tc s) = AtDelay (now s) \<and>
     now (finish_pass tc s) = now s \<and>
     (\<forall>t. relock_at (finish_pass tc s) = Some t \<longrightarrow> now s < t)"
proof (cases "phase s = AtRelock")
  case True
  then show ?thesis
    using relock_phase_deadline
    by (auto simp: finish_pass_def frame_simps phase_next intro: fw_step.relock)
next
  case False
  with assms obtain bs where bs: "phase s = AtFrame bs" by blast
  obtain out where out: "phase (frame_phase tc bs s) = AtOutcome out"
    using phase_next(1) by blast
  let ?s1 = "frame_phase tc bs s"
  let ?s2 = "outcome_phase out ?s1"
  have eq: "finish_pass tc s = relock_phase ?s2"
    by (simp add: finish_pass_def bs out Let_def)
  have step1: "fw_step tc s ?s1" and step2: "fw_step tc ?s1 ?s2"
    and step3: "fw_step tc ?s2 (relock_phase ?s2)"
    using bs out phase_next(2) by (auto intro: fw_step.handle fw_step.outcome fw_step.relock)
  have "(fw_step tc)\<^sup>*\<^sup>* ?s2 (relock_phase ?s2)"
    using step3 by (rule r_into_rtranclp [where r = "fw_step tc"])
  with step2 have "(fw_step tc)\<^sup>*\<^sup>* ?s1 (relock_phase ?s2)"
    by (rule converse_rtranclp_into_rtranclp [where r = "fw_step tc"])
  with step1 have "(fw_step tc)\<^sup>*\<^sup>* s (relock_phase ?s2)"
    by (rule converse_rtranclp_into_rtranclp [where r = "fw_step tc"])
  then show ?thesis
    using relock_phase_deadline [of ?s2] by (auto simp: eq frame_simps phase_next)
qed

lemma fw_inv_steps: "(fw_step tc)\<^sup>*\<^sup>* s s' \<Longrightarrow> fw_inv s \<Longrightarrow> fw_inv s'"
  by (induction rule: rtranclp_induct) (auto intro: fw_inv_step)

section \<open>Typing on the keypad\<close>

text \<open>
  A key press as the hardware sees it: the pulses of its bits, then silence for the message
  gap, a pass of the loop and its delay.
\<close>

definition send_bits :: "bool list \<Rightarrow> firmware \<Rightarrow> firmware" where
  "send_bits bs s =
     fold (\<lambda>b s. s\<lparr>capture := gpio_edges (\<not> b) b (now s) (now s) (capture s), now := now s\<rparr>) bs s"

definition press :: "totp_fn \<Rightarrow> bool list \<Rightarrow> firmware \<Rightarrow> firmware option" where
  "press tc bs s =
     (let s = send_bits bs s; s = s\<lparr>now := now s + MESSAGE_GAP\<rparr> in
      map_option (\<lambda>s. s\<lparr>now := now s + 1000 * POLL_INTERVAL_MS, phase := AtPoll\<rparr>) (main_pass tc s))"

fun press_all :: "totp_fn \<Rightarrow> bool list list \<Rightarrow> firmware \<Rightarrow> firmware option" where
  "press_all tc [] s = Some s"
| "press_all tc (bs # bss) s = Option.bind (press tc bs s) (press_all tc bss)"

definition capture_empty :: "firmware \<Rightarrow> bool" where
  "capture_empty s \<longleftrightarrow> (\<exists>st. capture s = Some st \<and> bits st = [])"

text \<open>The main thread at the head of its loop with nothing captured.\<close>

definition idle :: "firmware \<Rightarrow> bool" where
  "idle s \<longleftrightarrow> fw_inv s \<and> phase s = AtPoll \<and> capture_empty s"

lemma send_bits_steps: "(fw_step tc)\<^sup>*\<^sup>* s (send_bits bs s)"
proof (induction bs arbitrary: s)
  case (Cons b bs)
  have "fw_step tc s (s\<lparr>capture := gpio_edges (\<not> b) b (now s) (now s) (capture s), now := now s\<rparr>)"
    by (rule fw_step.edges) simp_all
  with Cons show ?case
    by (auto simp: send_bits_def intro: converse_rtranclp_into_rtranclp)
qed (simp add: send_bits_def)

lemma send_bits_frame [frame_simps]:
  "now (send_bits bs s) = now s"
  "phase (send_bits bs s) = phase s"
  "history (send_bits bs s) = history s"
  "clock (send_bits bs s) = clock s"
  by (induction bs arbitrary: s) (simp_all add: send_bits_def)

lemma send_bits_capture:
  assumes "capture s = Some st" and "capture_inv st"
  shows "\<exists>st'. capture (send_bits bs s) = Some st' \<and> capture_inv st' \<and>
     bits st' = last_n MAX_BITS (bits st @ bs) \<and>
     last_edge st' = (if bs = [] then last_edge st else Some (now s))"
  using assms
proof (induction bs arbitrary: s st)
  case Nil
  then show ?case by (auto simp: send_bits_def capture_inv_def last_n_all)
next
  case (Cons b bs)
  obtain st1 where st1: "gpio_edges (\<not> b) b (now s) (now s) (Some st) = Some st1" "capture_inv st1"
      "bits st1 = last_n MAX_BITS (bits st @ [b])" "last_edge st1 = Some (now s)"
    using gpio_edges_Some [OF Cons.prems(2), of "\<not> b" b "now s" "now s"]
    by (auto simp: edge_bits_def split: if_splits)
  let ?s1 = "s\<lparr>capture := Some st1, now := now s\<rparr>"
  from Cons.IH [of ?s1 st1] st1 obtain st' where "capture (send_bits bs ?s1) = Some st'"
      "capture_inv st'" "bits st' = last_n MAX_BITS (bits st1 @ bs)" "last_edge st' = Some (now s)"
    by auto
  with st1 Cons.prems(1) show ?case
    by (auto simp: send_bits_def last_n_last_n_append)
qed

lemma fw_step_delay:
  "phase s = AtDelay (now s) \<Longrightarrow> (fw_step tc)\<^sup>*\<^sup>* s0 s \<Longrightarrow>
     (fw_step tc)\<^sup>*\<^sup>* s0 (s\<lparr>now := now s + 1000 * POLL_INTERVAL_MS, phase := AtPoll\<rparr>)"
  by (erule rtranclp.rtrancl_into_rtrancl) (rule fw_step.delay [where since = "now s"], simp_all)

lemma finish_pass_frame:
  assumes "fw_inv s" and "phase s = AtFrame bs"
  shows "history (finish_pass tc s) = history s @ [(decode_frame bs, fw_unix s)]"
    and "capture (finish_pass tc s) = capture s" and "clock (finish_pass tc s) = clock s"
    and "verdict tc SECRET SKEW_STEPS (keys_of (history s)) (decode_frame bs) (fw_unix s) = Unlocked \<Longrightarrow>
           relay_high (bolt (finish_pass tc s)) \<and> relock_at (finish_pass tc s) = Some (now s + UNLOCK_DURATION)"
proof -
  obtain out where out: "phase (frame_phase tc bs s) = AtOutcome out"
    using phase_next(1) by blast
  have eq: "finish_pass tc s = relock_phase (outcome_phase out (frame_phase tc bs s))"
    by (simp add: finish_pass_def assms(2) out Let_def)
  show "history (finish_pass tc s) = history s @ [(decode_frame bs, fw_unix s)]"
    and "capture (finish_pass tc s) = capture s" and "clock (finish_pass tc s) = clock s"
    by (simp_all add: eq relock_phase_def outcome_phase_def frame_phase_def Let_def split_beta
        split: option.splits outcome.splits)
  show "relay_high (bolt (finish_pass tc s)) \<and> relock_at (finish_pass tc s) = Some (now s + UNLOCK_DURATION)"
    if "verdict tc SECRET SKEW_STEPS (keys_of (history s)) (decode_frame bs) (fw_unix s) = Unlocked"
  proof -
    have "out = Unlocked" using frame_phase_outcome [OF assms(1), of tc bs] that out by simp
    moreover have "relay_high (bolt (frame_phase tc bs s))"
      using frame_phase_bolt [OF assms, of tc] out \<open>out = Unlocked\<close> by simp
    ultimately show ?thesis
      by (simp add: eq relock_phase_def outcome_phase_def UNLOCK_DURATION_def frame_simps)
  qed
qed

text \<open>What a pass leaves of the deadline when it handles a frame.\<close>

lemma finish_pass_relock:
  assumes "fw_inv s" and "phase s = AtFrame bs"
  shows "relock_at (finish_pass tc s) =
    (if verdict tc SECRET SKEW_STEPS (keys_of (history s)) (decode_frame bs) (fw_unix s) = Unlocked
     then Some (now s + UNLOCK_DURATION)
     else Option.bind (relock_at s) (\<lambda>t. if t \<le> now s then None else Some t))"
proof -
  let ?v = "verdict tc SECRET SKEW_STEPS (keys_of (history s)) (decode_frame bs) (fw_unix s)"
  have "phase (frame_phase tc bs s) = AtOutcome ?v" using frame_phase_outcome [OF assms(1)] .
  then have eq: "finish_pass tc s = relock_phase (outcome_phase ?v (frame_phase tc bs s))"
    by (simp add: finish_pass_def assms(2) Let_def)
  have "relock_at (frame_phase tc bs s) = relock_at s" by (simp add: frame_phase_def Let_def split_beta)
  then show ?thesis
    unfolding eq
    by (simp add: relock_phase_def outcome_phase_def UNLOCK_DURATION_def frame_simps split: outcome.splits option.splits)
qed

text \<open>What one key press does, and that it is a run of the system.\<close>

lemma press_works:
  assumes "idle s" and "bs \<noteq> []" and "length bs \<le> MAX_BITS"
  obtains s' where "press tc bs s = Some s'" and "(fw_step tc)\<^sup>*\<^sup>* s s'" and "idle s'"
    and "clock s' = clock s" and "now s' = now s + 30000"
    and "history s' = history s @
           [(decode_frame bs, unix_seconds system_clock_trait (clock s, now s + 25000))]"
    and "verdict tc SECRET SKEW_STEPS (keys_of (history s)) (decode_frame bs)
           (unix_seconds system_clock_trait (clock s, now s + 25000)) = Unlocked \<Longrightarrow>
         relay_high (bolt s') \<and> relock_at s' = Some (now s + 25000 + UNLOCK_DURATION)"
proof -
  obtain st where st: "capture s = Some st" "capture_inv st" "bits st = []"
    using assms(1) by (auto simp: idle_def fw_inv_def capture_empty_def)
  obtain st1 where st1: "capture (send_bits bs s) = Some st1" "capture_inv st1" "bits st1 = bs"
      "last_edge st1 = Some (now s)"
    using send_bits_capture [OF st(1,2), of bs] st(3) assms(2,3) by (auto simp: last_n_all)
  let ?s1 = "send_bits bs s"
  let ?s2 = "?s1\<lparr>now := now ?s1 + MESSAGE_GAP\<rparr>"
  let ?c = "Some (st1\<lparr>last_edge := None, bits := []\<rparr>)"
  let ?s3 = "?s2\<lparr>capture := ?c, phase := AtFrame bs\<rparr>"
  have steps2: "(fw_step tc)\<^sup>*\<^sup>* s ?s2"
    using send_bits_steps by (rule rtranclp.rtrancl_into_rtrancl) (rule fw_step.tick, simp)
  have "take_completed_frame (now ?s2) (Some st1) = Some (Some bs, ?c)"
    using take_completed_frame_cases [OF st1(2), of "now ?s2"] st1 by (simp add: frame_simps)
  then have poll: "poll_phase ?s2 = Some ?s3" by (simp add: poll_phase_def st1(1))
  have "fw_step tc ?s2 ?s3"
    by (rule fw_step.poll) (use poll assms(1) in \<open>simp_all add: idle_def frame_simps\<close>)
  with steps2 have steps3: "(fw_step tc)\<^sup>*\<^sup>* s ?s3" by (rule rtranclp.rtrancl_into_rtrancl)
  have inv3: "fw_inv ?s3" using fw_inv_steps [OF steps3] assms(1) by (simp add: idle_def)
  have ph3: "phase ?s3 = AtFrame bs" by simp
  have unix: "fw_unix ?s3 = unix_seconds system_clock_trait (clock s, now s + 25000)"
    by (simp add: fw_unix_def frame_simps MESSAGE_GAP_def)
  note fin = finish_pass_frame [OF inv3 ph3, of tc, unfolded unix]
  have pass: "(fw_step tc)\<^sup>*\<^sup>* ?s3 (finish_pass tc ?s3)" "phase (finish_pass tc ?s3) = AtDelay (now (finish_pass tc ?s3))"
      "now (finish_pass tc ?s3) = now s + 25000"
    using finish_pass_steps [of ?s3 tc] ph3 by (auto simp: frame_simps MESSAGE_GAP_def)
  let ?s' = "(finish_pass tc ?s3)\<lparr>now := now (finish_pass tc ?s3) + 1000 * POLL_INTERVAL_MS,
      phase := AtPoll\<rparr>"
  have steps: "(fw_step tc)\<^sup>*\<^sup>* s ?s'"
    by (rule fw_step_delay [OF pass(2) rtranclp_trans [OF steps3 pass(1)]])
  have "idle ?s'"
    using fw_inv_steps [OF steps] assms(1) fin(2)
    by (auto simp: idle_def capture_empty_def)
  moreover have "press tc bs s = Some ?s'"
    using poll by (simp add: press_def main_pass_def Let_def)
  ultimately show thesis
    using that [of ?s'] steps fin pass(3) by (simp add: frame_simps POLL_INTERVAL_MS_def MESSAGE_GAP_def)
qed

lemma press_all_works:
  "idle s \<Longrightarrow> \<forall>bs \<in> set bss. bs \<noteq> [] \<and> length bs \<le> MAX_BITS \<Longrightarrow>
     \<exists>s'. press_all tc bss s = Some s' \<and> (fw_step tc)\<^sup>*\<^sup>* s s' \<and> idle s' \<and> clock s' = clock s \<and>
       now s' = now s + 30000 * length bss \<and>
       keys_of (history s') = keys_of (history s) @ concat (map (\<lambda>bs. frame_keys (decode_frame bs)) bss)"
proof (induction bss arbitrary: s)
  case (Cons bs bss)
  obtain s1 where s1: "press tc bs s = Some s1" "(fw_step tc)\<^sup>*\<^sup>* s s1" "idle s1"
      "clock s1 = clock s" "now s1 = now s + 30000"
      "keys_of (history s1) = keys_of (history s) @ frame_keys (decode_frame bs)"
    using press_works [of s bs tc] Cons.prems by (metis append_Nil2 keys_of_simps list.set_intros(1))
  from Cons.IH [OF s1(3)] Cons.prems(2) obtain s' where
    "press_all tc bss s1 = Some s'" "(fw_step tc)\<^sup>*\<^sup>* s1 s'" "idle s'" "clock s' = clock s1"
    "now s' = now s1 + 30000 * length bss"
    "keys_of (history s') = keys_of (history s1) @ concat (map (\<lambda>bs. frame_keys (decode_frame bs)) bss)"
    by auto
  with s1 rtranclp_trans [OF s1(2)] show ?case by auto
qed simp

lemma decode_key_bits:
  "d \<le> 9 \<Longrightarrow> decode_frame (nibble d) = Frame_Digit d"
  "decode_frame (nibble 10) = Frame_Cancel"
  "decode_frame (nibble 11) = Frame_Enter"
  by (simp_all add: decode_frame_nibble word_le_nat_alt Let_def)

text \<open>The bits of \<open>*\<close>, a six-digit code and \<open>#\<close>.\<close>

definition code_presses :: "u32 \<Rightarrow> bool list list" where
  "code_presses code = nibble 10 # map nibble (digit_slots PIN_LEN code) @ [nibble 11]"

lemma press_all_append:
  "press_all tc (xs @ ys) s = Option.bind (press_all tc xs s) (press_all tc ys)"
proof (induction xs arbitrary: s)
  case (Cons x xs)
  then show ?case by (cases "press tc x s") simp_all
qed simp

lemma code_presses_open:
  assumes idle: "idle s"
    and ok: "matches tc SECRET (digit_slots PIN_LEN code)
           (unix_seconds system_clock_trait (clock s, now s + 235000)) SKEW_STEPS"
  shows "\<exists>s'. press_all tc (code_presses code) s = Some s' \<and> (fw_step tc)\<^sup>*\<^sup>* s s' \<and>
     relay_high (bolt s') \<and> idle s' \<and> now s' = now s + 240000 \<and>
     relock_at s' = Some (now s + 235000 + UNLOCK_DURATION)"
proof -
  let ?ds = "digit_slots PIN_LEN code"
  let ?pre = "nibble 10 # map nibble ?ds"
  have len: "length (nibble v) \<le> MAX_BITS" "nibble v \<noteq> []" for v
    by (simp_all add: MAX_BITS_def nibble_def)
  have dec: "concat (map (\<lambda>bs. frame_keys (decode_frame bs)) ?pre) = Key_Cancel # map Key_Digit ?ds"
  proof -
    have "concat (map (\<lambda>bs. frame_keys (decode_frame bs)) (map nibble ds)) = map Key_Digit ds"
      if "list_all (\<lambda>d. d \<le> 9) ds" for ds
      using that by (induction ds) (simp_all add: decode_key_bits frame_keys_def)
    from this [OF digit_slots_small] show ?thesis
      by (simp add: decode_key_bits frame_keys_def)
  qed
  obtain s1 where s1: "press_all tc ?pre s = Some s1" "(fw_step tc)\<^sup>*\<^sup>* s s1" "idle s1"
      "clock s1 = clock s" "now s1 = now s + 210000"
      "keys_of (history s1) = keys_of (history s) @ Key_Cancel # map Key_Digit ?ds"
    using press_all_works [OF idle, of ?pre tc] len unfolding dec by (auto simp: PIN_LEN_def)
  have "?ds \<noteq> []" and "length ?ds = PIN_LEN"
    by (metis PIN_LEN_def length_0_conv length_digit_slots zero_neq_numeral) simp
  with ok s1(4,5,6) have "verdict tc SECRET SKEW_STEPS (keys_of (history s1)) (decode_frame (nibble 11))
      (unix_seconds system_clock_trait (clock s1, now s1 + 25000)) = Unlocked"
    by (simp add: verdict_def attempt_digits decode_key_bits last_n_all Let_def
        add.commute)
  with press_works [OF s1(3) len(2) len(1), of tc 11] obtain s' where
    "press tc (nibble 11) s1 = Some s'" "(fw_step tc)\<^sup>*\<^sup>* s1 s'" "relay_high (bolt s')"
    "idle s'" "now s' = now s1 + 30000" "relock_at s' = Some (now s1 + 25000 + UNLOCK_DURATION)"
    by metis
  with s1(1,2,5) show ?thesis
    by (auto simp: code_presses_def press_all_append simp flip: append_Cons)
qed

text \<open>Along a run that raises the relay there is a step that does.\<close>

lemma rising_step:
  "(fw_step tc)\<^sup>*\<^sup>* s s' \<Longrightarrow> \<not> relay_high (bolt s) \<Longrightarrow> relay_high (bolt s') \<Longrightarrow>
     \<exists>u v. (fw_step tc)\<^sup>*\<^sup>* s u \<and> fw_step tc u v \<and> \<not> relay_high (bolt u) \<and> relay_high (bolt v)"
  by (induction rule: rtranclp_induct) auto

lemma rising_step_accepts:
  assumes "fw_inv s" and "fw_step tc s s'" and "\<not> relay_high (bolt s)" and "relay_high (bolt s')"
  shows "\<exists>bs. phase s = AtFrame bs \<and> s' = frame_phase tc bs s \<and> phase s' = AtOutcome Unlocked"
proof -
  have "\<exists>bs. phase s = AtFrame bs \<and> s' = frame_phase tc bs s"
    using assms(2-4)
    by (cases rule: fw_step.cases)
      (auto simp: poll_phase_def outcome_phase_def relock_phase_def bolt_trait_def
        split: outcome.splits option.splits if_splits)
  then obtain bs where bs: "phase s = AtFrame bs" "s' = frame_phase tc bs s" by blast
  then have "phase s' = AtOutcome Unlocked"
    using frame_phase_bolt [OF assms(1) bs(1), of tc] assms(1,3,4)
    by (auto simp: fw_inv_def released_only_scheduled_def)
  with bs show ?thesis by blast
qed

lemma fw_reachable_steps: "fw_reachable tc s \<Longrightarrow> (fw_step tc)\<^sup>*\<^sup>* s s' \<Longrightarrow> fw_reachable tc s'"
  by (rotate_tac 1, induction rule: rtranclp_induct) (auto intro: fw_reachable.step)

lemma idle_init: "fw_init env t = Some s \<Longrightarrow> idle s"
  using fw_inv_init [of env t s]
  by (auto simp: idle_def fw_init_def capture_empty_def install_def)

text \<open>A concrete firmware: it boots at time 0 of the epoch, and the generator is constant.\<close>

definition demo_totp :: totp_fn where
  "demo_totp step ds sec t = 7123"

lemma demo_boot:
  obtains s where "fw_init (lit ''0'') 0 = Some s" and "\<not> relay_high (bolt s)" and "now s = 0"
    and "matches demo_totp SECRET (digit_slots PIN_LEN 7123)
           (unix_seconds system_clock_trait (clock s, now s + 235000)) SKEW_STEPS"
proof -
  have "system_clock_start (lit ''0'') = Some \<lparr>boot_epoch = 0\<rparr>"
    by (simp add: system_clock_start_def lit_def parse_unsigned_def)
  moreover have "digits_to_value (digit_slots PIN_LEN 7123) = 7123" by code_simp
  then have "matches demo_totp SECRET (digit_slots PIN_LEN 7123) n SKEW_STEPS" for n
    by (simp add: matches_def matches_loop_iff demo_totp_def SKEW_STEPS_def) (rule exI [of _ 0], simp)
  ultimately show thesis using that by (simp add: fw_init_def bolt_new_def)
qed

section \<open>Properties\<close>

text \<open>
  C2. The bolt is released only by a correct code. In every reachable state of the firmware,
  whatever the interleaving of interrupts, timer and main loop, a step after which the relay
  is high and before which it was low handles an \<open>Enter\<close> frame that completes an attempt of six
  digits, and the TOTP check of the compiled-in secret accepts those digits at the clock of
  that moment.
\<close>

theorem bolt_opens_only_on_correct_code:
  assumes "fw_reachable totp_custom s" and "fw_step totp_custom s s'"
    and "\<not> relay_high (bolt s)" and "relay_high (bolt s')"
  shows "\<exists>bs. phase s = AtFrame bs \<and> decode_frame bs = Frame_Enter \<and>
     attempt (keys_of (history s)) \<noteq> [] \<and> length (attempt (keys_of (history s))) mod PIN_LEN = 0 \<and>
     matches totp_custom SECRET (last_n PIN_LEN (attempt (keys_of (history s)))) (fw_unix s) SKEW_STEPS"
proof -
  from assms(1) have inv: "fw_inv s" by (rule fw_reachable_inv)
  from rising_step_accepts [OF inv assms(2-4)] obtain bs where
    bs: "phase s = AtFrame bs" "s' = frame_phase totp_custom bs s" "phase s' = AtOutcome Unlocked" by blast
  then have "verdict totp_custom SECRET SKEW_STEPS (keys_of (history s)) (decode_frame bs) (fw_unix s) = Unlocked"
    using frame_phase_outcome [OF inv, of totp_custom bs] by simp
  with bs(1) show ?thesis by (auto simp: verdict_def Let_def split: if_splits)
qed

theorem bolt_opens_only_on_correct_code_witness:
  "\<exists>s s' bs. fw_reachable demo_totp s \<and> fw_step demo_totp s s' \<and>
     \<not> relay_high (bolt s) \<and> relay_high (bolt s') \<and>
     phase s = AtFrame bs \<and> decode_frame bs = Frame_Enter \<and>
     matches demo_totp SECRET (last_n PIN_LEN (attempt (keys_of (history s)))) (fw_unix s) SKEW_STEPS"
proof -
  obtain s0 where s0: "fw_init (lit ''0'') 0 = Some s0" "\<not> relay_high (bolt s0)" "now s0 = 0"
      "matches demo_totp SECRET (digit_slots PIN_LEN 7123)
           (unix_seconds system_clock_trait (clock s0, now s0 + 235000)) SKEW_STEPS"
    by (rule demo_boot)
  from code_presses_open [OF idle_init [OF s0(1)] s0(4)] obtain s1 where
    "(fw_step demo_totp)\<^sup>*\<^sup>* s0 s1" "relay_high (bolt s1)" by blast
  from rising_step [OF this(1) s0(2) this(2)] obtain u v where
    uv: "(fw_step demo_totp)\<^sup>*\<^sup>* s0 u" "fw_step demo_totp u v"
      "\<not> relay_high (bolt u)" "relay_high (bolt v)" by blast
  have "fw_reachable demo_totp u"
    using fw_reachable_steps [OF fw_reachable.boot [OF s0(1)] uv(1)] .
  with bolt_opens_only_on_correct_code [OF this uv(2-4)] uv(2-4) show ?thesis by blast
qed

text \<open>
  C17. The bolt never stays released unattended: in every reachable state the relay is high
  exactly when a re-lock is scheduled (or is about to be, right after the code was accepted),
  at most \<open>UNLOCK_DURATION\<close> ahead, and a step lowers the relay only once that deadline has
  passed.
\<close>

theorem released_bolt_has_deadline:
  assumes "fw_reachable totp_custom s"
  shows "(relay_high (bolt s) \<longleftrightarrow> relock_at s \<noteq> None \<or> phase s = AtOutcome Unlocked) \<and>
     (\<forall>t. relock_at s = Some t \<longrightarrow> t \<le> now s + UNLOCK_DURATION) \<and>
     (\<forall>s'. fw_step totp_custom s s' \<and> relay_high (bolt s) \<and> \<not> relay_high (bolt s') \<longrightarrow>
        (\<exists>t. relock_at s = Some t \<and> t \<le> now s \<and> relock_at s' = None))"
proof -
  from assms have inv: "fw_inv s" by (rule fw_reachable_inv)
  have "\<exists>t. relock_at s = Some t \<and> t \<le> now s \<and> relock_at s' = None"
    if st: "fw_step totp_custom s s'" and "relay_high (bolt s)" "\<not> relay_high (bolt s')" for s'
    using st
  proof (cases rule: fw_step.cases)
    case (handle bs)
    have "relay_high (bolt s')"
      using that(2) inv handle frame_phase_bolt [OF inv, of bs totp_custom]
      by (auto simp: fw_inv_def released_only_scheduled_def)
    with that(3) show ?thesis by simp
  qed (use that in \<open>auto simp: poll_phase_def outcome_phase_def relock_phase_def bolt_trait_def
        split: outcome.splits option.splits if_splits\<close>)
  with inv show ?thesis by (auto simp: fw_inv_def released_only_scheduled_def)
qed

theorem released_bolt_has_deadline_witness:
  "\<exists>s t. fw_reachable demo_totp s \<and> relay_high (bolt s) \<and> relock_at s = Some t \<and>
     t \<le> now s + UNLOCK_DURATION"
proof -
  obtain s0 where s0: "fw_init (lit ''0'') 0 = Some s0" "\<not> relay_high (bolt s0)" "now s0 = 0"
      "matches demo_totp SECRET (digit_slots PIN_LEN 7123)
           (unix_seconds system_clock_trait (clock s0, now s0 + 235000)) SKEW_STEPS"
    by (rule demo_boot)
  from code_presses_open [OF idle_init [OF s0(1)] s0(4)] obtain s1 where
    s1: "press_all demo_totp (code_presses 7123) s0 = Some s1" "(fw_step demo_totp)\<^sup>*\<^sup>* s0 s1"
      "relay_high (bolt s1)" by blast
  have reach: "fw_reachable demo_totp s1"
    using fw_reachable_steps [OF fw_reachable.boot [OF s0(1)] s1(2)] .
  have "phase s1 = AtPoll"
    using press_all_works [OF idle_init [OF s0(1)], of "code_presses 7123" demo_totp] s1(1)
    by (auto simp: code_presses_def idle_def nibble_def MAX_BITS_def)
  with released_bolt_has_deadline [OF reach] s1(3) reach show ?thesis by auto
qed

text \<open>
  C22. The main loop never gets stuck or panics and re-locks on time: from every reachable state at
  the head of the loop a pass of its body completes, by steps of the system. The pass handles the
  frame the capture hands out, if there is one. When the history of frames makes that frame an
  accepted code, the bolt is released and its deadline is \<open>UNLOCK_DURATION\<close> away; otherwise a
  deadline that has been reached is taken away and the relay is low, and one that lies ahead stays
  as it was. The relay is high after the pass exactly when a deadline is left, which is then later
  than now and at most \<open>UNLOCK_DURATION\<close> away.
\<close>

theorem main_pass_completes_and_relocks:
  assumes "fw_reachable totp_custom s" and "phase s = AtPoll"
  shows "\<exists>s' f. main_pass totp_custom s = Some s' \<and> (fw_step totp_custom)\<^sup>*\<^sup>* s s' \<and>
     phase s' = AtDelay (now s) \<and> now s' = now s \<and>
     take_completed_frame (now s) (capture s) = Some (f, capture s') \<and>
     history s' = history s @ (case f of None \<Rightarrow> [] | Some bs \<Rightarrow> [(decode_frame bs, fw_unix s)]) \<and>
     relock_at s' =
       (if \<exists>bs. f = Some bs \<and>
            verdict totp_custom SECRET SKEW_STEPS (keys_of (history s)) (decode_frame bs) (fw_unix s) = Unlocked
        then Some (now s + UNLOCK_DURATION)
        else Option.bind (relock_at s) (\<lambda>t. if t \<le> now s then None else Some t)) \<and>
     (relay_high (bolt s') \<longleftrightarrow> relock_at s' \<noteq> None) \<and>
     (\<forall>t. relock_at s' = Some t \<longrightarrow> now s < t \<and> t \<le> now s + UNLOCK_DURATION)"
proof -
  from assms(1) have inv: "fw_inv s" by (rule fw_reachable_inv)
  then obtain f c where f: "take_completed_frame (now s) (capture s) = Some (f, c)"
    using wiegand_source.poll_answers [of "now s" "capture s" "now s"] by (auto simp: fw_inv_def)
  let ?s1 = "s\<lparr>capture := c, phase := (case f of None \<Rightarrow> AtRelock | Some bs \<Rightarrow> AtFrame bs)\<rparr>"
  let ?s' = "finish_pass totp_custom ?s1"
  have poll: "poll_phase s = Some ?s1" by (simp add: poll_phase_def f)
  have first: "fw_step totp_custom s ?s1" by (rule fw_step.poll [OF assms(2) poll])
  have ph: "phase ?s1 = AtRelock \<or> (\<exists>bs. phase ?s1 = AtFrame bs)" by (cases f) simp_all
  note pass = finish_pass_steps [OF ph, of totp_custom]
  from pass first have steps: "(fw_step totp_custom)\<^sup>*\<^sup>* s ?s'"
    by (auto intro: converse_rtranclp_into_rtranclp)
  have "fw_inv ?s1" by (rule fw_inv_step [OF first inv])
  then have books: "history ?s' = history s @ (case f of None \<Rightarrow> [] | Some bs \<Rightarrow> [(decode_frame bs, fw_unix s)])"
      "capture ?s' = c"
      "relock_at ?s' = (if \<exists>bs. f = Some bs \<and>
            verdict totp_custom SECRET SKEW_STEPS (keys_of (history s)) (decode_frame bs) (fw_unix s) = Unlocked
        then Some (now s + UNLOCK_DURATION)
        else Option.bind (relock_at s) (\<lambda>t. if t \<le> now s then None else Some t))"
    using finish_pass_frame(1,2) [of ?s1 _ totp_custom] finish_pass_relock [of ?s1 _ totp_custom]
    by (cases f; simp add: finish_pass_def relock_phase_def fw_unix_def split: option.splits)+
  from fw_inv_steps [OF steps inv] have "fw_inv ?s'" .
  then have "relay_high (bolt ?s') \<longleftrightarrow> relock_at ?s' \<noteq> None"
      "\<forall>t. relock_at ?s' = Some t \<longrightarrow> now s < t \<and> t \<le> now s + UNLOCK_DURATION"
    using pass by (auto simp: fw_inv_def released_only_scheduled_def)
  with pass poll f steps books show ?thesis
    by (intro exI [of _ ?s'] exI [of _ f]) (simp add: main_pass_def)
qed

text \<open>A correct code was typed, and the deadline has come: the pass lowers the relay.\<close>

theorem main_pass_completes_and_relocks_witness:
  "\<exists>s t s'. fw_reachable demo_totp s \<and> phase s = AtPoll \<and> relay_high (bolt s) \<and> relock_at s = Some t \<and>
     t \<le> now s \<and> main_pass demo_totp s = Some s' \<and> relock_at s' = None \<and> \<not> relay_high (bolt s')"
proof -
  obtain s0 where s0: "fw_init (lit ''0'') 0 = Some s0" "\<not> relay_high (bolt s0)" "now s0 = 0"
      "matches demo_totp SECRET (digit_slots PIN_LEN 7123)
           (unix_seconds system_clock_trait (clock s0, now s0 + 235000)) SKEW_STEPS"
    by (rule demo_boot)
  from code_presses_open [OF idle_init [OF s0(1)] s0(4)] obtain s1 where s1: "(fw_step demo_totp)\<^sup>*\<^sup>* s0 s1"
      "relay_high (bolt s1)" "idle s1" "now s1 = 240000" "relock_at s1 = Some (235000 + UNLOCK_DURATION)"
    using s0(3) by auto
  let ?s = "s1\<lparr>now := 235000 + UNLOCK_DURATION\<rparr>"
  have "fw_step demo_totp s1 ?s" by (rule fw_step.tick) (simp add: s1(4) UNLOCK_DURATION_def)
  with fw_reachable_steps [OF fw_reachable.boot [OF s0(1)] s1(1)] have reach: "fw_reachable demo_totp ?s"
    by (rule fw_reachable.step)
  have "phase ?s = AtPoll" "capture_empty ?s" using s1(3) by (simp_all add: idle_def capture_empty_def)
  moreover from this(2) have "take_completed_frame (now ?s) (capture ?s) = Some (None, capture ?s)"
    by (auto simp: capture_empty_def take_completed_frame_def split: option.splits)
  ultimately obtain s' where "main_pass demo_totp ?s = Some s'" "relock_at s' = None" "\<not> relay_high (bolt s')"
    using main_pass_completes_and_relocks [OF reach] s1(5) by auto
  with reach \<open>phase ?s = AtPoll\<close> s1(2,5) show ?thesis
    by (intro exI [of _ ?s] exI [of _ "235000 + UNLOCK_DURATION"] exI [of _ s']) simp
qed

text \<open>What the values of a state range over, beyond the widths of their types.\<close>

definition decimal_keys :: "key list \<Rightarrow> bool" where
  "decimal_keys ks \<longleftrightarrow> (\<forall>d. Key_Digit d \<in> set ks \<longrightarrow> d \<le> 9)"

lemma push_decimal:
  "list_all (\<lambda>d. d \<le> 9) (buffer p) \<Longrightarrow> decimal_keys [k] \<Longrightarrow> list_all (\<lambda>d. d \<le> 9) (buffer (snd (push p k)))"
  by (cases k) (auto simp: decimal_keys_def reset_def list_all_iff dest!: set_update_subset_insert [THEN subsetD])

lemma run_keys_decimal:
  assumes "decimal_keys ks"
  shows "list_all (\<lambda>d. d \<le> 9) (buffer (snd (run_keys push pin_entry_new ks))) \<and>
    pin_inv (snd (run_keys push pin_entry_new ks))"
  using assms
proof (induction ks rule: rev_induct)
  case (snoc k ks)
  then have "decimal_keys ks" "decimal_keys [k]" by (auto simp: decimal_keys_def)
  with snoc.IH show ?case
    by (simp add: run_keys_snoc Let_def split_beta push_decimal pin_inv_push)
qed (simp add: pin_entry_new_def pin_inv_def list_all_iff)

lemma decoded_keys_decimal: "decimal_keys (frame_keys (decode_frame bs))"
proof (cases "decode_frame bs")
  case (Frame_Digit d)
  then have "unat d \<le> 9" by (simp add: decode_frame_Digit_iff)
  with Frame_Digit show ?thesis by (simp add: decimal_keys_def frame_keys_def word_le_nat_alt)
qed (simp_all add: decimal_keys_def frame_keys_def)

lemma fw_step_ranges:
  assumes "fw_step tc s s'" and "fw_inv s" and "decimal_keys (keys_of (history s))"
    and "\<forall>bs. phase s = AtFrame bs \<longrightarrow> bs \<noteq> [] \<and> length bs \<le> MAX_BITS"
  shows "decimal_keys (keys_of (history s')) \<and> (\<forall>bs. phase s' = AtFrame bs \<longrightarrow> bs \<noteq> [] \<and> length bs \<le> MAX_BITS)"
  using assms
proof cases
  case poll
  then obtain f c where f: "take_completed_frame (now s) (capture s) = Some (f, c)"
      "s' = s\<lparr>capture := c, phase := (case f of None \<Rightarrow> AtRelock | Some bs \<Rightarrow> AtFrame bs)\<rparr>"
    by (auto simp: poll_phase_def)
  moreover have "capture_ok (now s) (capture s)" using assms(2) by (simp add: fw_inv_def)
  ultimately show ?thesis
    using assms(3) wiegand_source.frame_size [of "now s" "capture s" "now s" _ c] by (cases f) auto
next
  case (handle bs)
  then show ?thesis
    using assms(3) decoded_keys_decimal [of bs]
    by (auto simp: frame_phase_def Let_def split_beta decimal_keys_def)
qed (auto simp: outcome_phase_def relock_phase_def split: outcome.splits option.splits)

text \<open>
  C32. The firmware's values stay in range in every reachable state, whatever the keypad's lines do:
  the PIN buffer has six slots of decimal digits and at most six are in use, so a code never
  overflows the 32 bits it is converted to; the capture buffer and the frame being handled have
  at most 34 bits, and a frame is never empty; secret and skew are those of the build.
\<close>

theorem firmware_values_in_range:
  assumes "fw_reachable tc s"
  shows "length (buffer (entry (controller s))) = PIN_LEN \<and> filled (entry (controller s)) \<le> PIN_LEN \<and>
    list_all (\<lambda>d. d \<le> 9) (buffer (entry (controller s))) \<and>
    unat (digits_to_value (buffer (entry (controller s)))) = decimal (buffer (entry (controller s))) \<and>
    (\<forall>st. capture s = Some st \<longrightarrow> length (bits st) \<le> MAX_BITS) \<and>
    (\<forall>bs. phase s = AtFrame bs \<longrightarrow> bs \<noteq> [] \<and> length bs \<le> MAX_BITS) \<and>
    secret (controller s) = SECRET \<and> skew_steps (controller s) = SKEW_STEPS"
proof -
  have "decimal_keys (keys_of (history s)) \<and> (\<forall>bs. phase s = AtFrame bs \<longrightarrow> bs \<noteq> [] \<and> length bs \<le> MAX_BITS)"
    using assms
  proof (induction rule: fw_reachable.induct)
    case (boot env_epoch t s)
    then show ?case by (auto simp: fw_init_def decimal_keys_def)
  next
    case (step s s')
    then show ?case using fw_step_ranges [OF step.hyps(2) fw_reachable_inv [OF step.hyps(1)]] by blast
  qed
  moreover have inv: "capture_ok (now s) (capture s)" "entry_follows_history s"
    using fw_reachable_inv [OF assms] by (simp_all add: fw_inv_def)
  ultimately show ?thesis
    using run_keys_decimal [of "keys_of (history s)"]
    by (auto simp: entry_follows_history_def pin_inv_def unat_digits_to_value capture_ok_def capture_inv_def)
qed

theorem firmware_values_in_range_witness:
  "\<exists>s. fw_init (lit ''0'') 0 = Some s \<and> list_all (\<lambda>d. d \<le> 9) (buffer (entry (controller s)))"
proof -
  have "system_clock_start (lit ''0'') = Some \<lparr>boot_epoch = 0\<rparr>"
    by (simp add: system_clock_start_def lit_def parse_unsigned_def)
  then obtain s where s: "fw_init (lit ''0'') 0 = Some s" by (simp add: fw_init_def)
  from firmware_values_in_range [OF fw_reachable.boot [OF s]] s show ?thesis by blast
qed

text \<open>
  The clock of the lock starts at the build's time stamp: the text that \<open>build.rs\<close> puts into
  the build environment is always parsed by \<open>SystemClock::start\<close>, so start-up does not panic,
  and until the 64-bit seconds wrap the clock reads the build time plus the whole seconds
  since boot.
\<close>

theorem clock_reads_build_time_plus_uptime:
  "\<exists>c. system_clock_start (build_epoch_env e) = Some c \<and> boot_epoch c = e \<and>
     (unat e + t div 1000000 < 2 ^ 64 \<longrightarrow>
        unat (unix_seconds system_clock_trait (c, t)) = unat e + t div 1000000)"
proof -
  have "parse_unsigned (2 ^ 64 - 1) (show_nat (unat e)) = Inr (unat e)"
    using unat_le_max_u64 [of e] by (intro parse_show_nat) simp
  then have "system_clock_start (build_epoch_env e) = Some \<lparr>boot_epoch = e\<rparr>"
    by (simp add: system_clock_start_def build_epoch_env_def)
  moreover have "unat (unix_seconds system_clock_trait (\<lparr>boot_epoch = e\<rparr>, t)) = unat e + t div 1000000"
    if "unat e + t div 1000000 < 2 ^ 64"
  proof -
    have "e + of_nat (t div 1000000) = of_nat (unat e + t div 1000000)" by simp
    with that show ?thesis
      by (simp only: system_clock_trait_def clock_trait.simps case_prod_conv system_clock.simps
          unsigned_of_nat) (simp add: take_bit_nat_eq_self)
  qed
  ultimately show ?thesis by auto
qed

theorem clock_reads_build_time_plus_uptime_witness:
  "\<exists>c. system_clock_start (build_epoch_env 1700000000) = Some c \<and>
     unat (unix_seconds system_clock_trait (c, 61500000)) = 1700000061"
  using clock_reads_build_time_plus_uptime [of 1700000000 61500000] by auto

end
