(* ===== verification/Relock_Timing.thy ===== *)
theory Relock_Timing
  imports Firmware
begin

text \<open>
  How long the bolt stays released (\<^verbatim>\<open>lock-client/firmware/src/main.rs\<close>): never shorter than
  \<open>UNLOCK_DURATION\<close>, under any interleaving of interrupts and time, and with a keypad that stays quiet
  until the first pass of the loop at which that time has gone by.
\<close>

section \<open>Never shorter\<close>

text \<open>What keeps the relay up from an accepted code at \<open>t0\<close> on.\<close>

definition holds_open :: "instant \<Rightarrow> firmware \<Rightarrow> bool" where
  "holds_open t0 s \<longleftrightarrow>
     t0 \<le> now s \<and>
     (t0 + UNLOCK_DURATION \<le> now s \<or> phase s = AtOutcome Unlocked \<or>
      (\<exists>t. relock_at s = Some t \<and> t0 + UNLOCK_DURATION \<le> t))"

lemma holds_open_step:
  assumes "fw_step tc s s'" and "holds_open t0 s"
  shows "holds_open t0 s'"
  using assms
proof cases
  case (outcome out)
  with assms(2) show ?thesis by (cases out) (auto simp: holds_open_def outcome_phase_def)
next
  case relock
  with assms(2) show ?thesis by (auto simp: holds_open_def relock_phase_def split: option.splits)
next
  case poll
  with assms(2) show ?thesis by (auto simp: holds_open_def poll_phase_def)
next
  case (handle bs)
  with assms(2) show ?thesis by (auto simp: holds_open_def frame_phase_def Let_def split_beta)
qed (auto simp: holds_open_def)

lemma holds_open_steps: "(fw_step tc)\<^sup>*\<^sup>* s s' \<Longrightarrow> holds_open t0 s \<Longrightarrow> holds_open t0 s'"
  by (induction rule: rtranclp_induct) (auto intro: holds_open_step)

section \<open>A quiet loop\<close>

text \<open>Passes of the loop, each with its delay, while nothing arrives on the lines.\<close>

fun quiet_passes :: "totp_fn \<Rightarrow> nat \<Rightarrow> firmware \<Rightarrow> firmware option" where
  "quiet_passes tc 0 s = Some s"
| "quiet_passes tc (Suc n) s =
     Option.bind (main_pass tc s) (\<lambda>s.
       quiet_passes tc n (s\<lparr>now := now s + 1000 * POLL_INTERVAL_MS, phase := AtPoll\<rparr>))"

text \<open>A pass with nothing captured only looks at the deadline.\<close>

lemma quiet_pass:
  assumes "idle s"
  shows "main_pass tc s = Some (relock_phase (s\<lparr>phase := AtRelock\<rparr>))"
    and "(fw_step tc)\<^sup>*\<^sup>* s (relock_phase (s\<lparr>phase := AtRelock\<rparr>))"
proof -
  obtain st where st: "capture s = Some st" "bits st = []" using assms by (auto simp: idle_def capture_empty_def)
  then have "take_completed_frame (now s) (capture s) = Some (None, capture s)"
    by (auto simp: take_completed_frame_def split: option.splits)
  then have poll: "poll_phase s = Some (s\<lparr>phase := AtRelock\<rparr>)" by (simp add: poll_phase_def)
  then show "main_pass tc s = Some (relock_phase (s\<lparr>phase := AtRelock\<rparr>))"
    by (simp add: main_pass_def finish_pass_def)
  have "fw_step tc s (s\<lparr>phase := AtRelock\<rparr>)" using assms poll by (intro fw_step.poll) (simp_all add: idle_def)
  moreover have "fw_step tc (s\<lparr>phase := AtRelock\<rparr>) (relock_phase (s\<lparr>phase := AtRelock\<rparr>))"
    by (rule fw_step.relock) simp
  ultimately show "(fw_step tc)\<^sup>*\<^sup>* s (relock_phase (s\<lparr>phase := AtRelock\<rparr>))" by simp
qed

definition after_pass :: "firmware \<Rightarrow> firmware" where
  "after_pass s = (relock_phase (s\<lparr>phase := AtRelock\<rparr>))\<lparr>now := now s + 1000 * POLL_INTERVAL_MS, phase := AtPoll\<rparr>"

lemma after_pass:
  assumes "idle s"
  shows "quiet_passes tc (Suc n) s = quiet_passes tc n (after_pass s)"
    and "(fw_step tc)\<^sup>*\<^sup>* s (after_pass s)" and "idle (after_pass s)" and "now (after_pass s) = now s + 5000"
    and "relock_at (after_pass s) = Option.bind (relock_at s) (\<lambda>t. if t \<le> now s then None else Some t)"
proof -
  let ?s = "relock_phase (s\<lparr>phase := AtRelock\<rparr>)"
  have now: "now ?s = now s" by (simp add: frame_simps)
  show "quiet_passes tc (Suc n) s = quiet_passes tc n (after_pass s)"
    using quiet_pass(1) [OF assms, of tc] by (simp add: after_pass_def now)
  show steps: "(fw_step tc)\<^sup>*\<^sup>* s (after_pass s)"
    using fw_step_delay [OF _ quiet_pass(2) [OF assms, of tc]] by (simp add: after_pass_def now phase_next)
  have "capture (after_pass s) = capture s" by (simp add: after_pass_def relock_phase_def split: option.splits)
  then show "idle (after_pass s)"
    using assms fw_inv_steps [OF steps] by (simp add: idle_def capture_empty_def) (simp add: after_pass_def)
  show "now (after_pass s) = now s + 5000" by (simp add: after_pass_def POLL_INTERVAL_MS_def)
  show "relock_at (after_pass s) = Option.bind (relock_at s) (\<lambda>t. if t \<le> now s then None else Some t)"
    by (simp add: after_pass_def relock_phase_def split: option.splits)
qed

lemma idle_relay: "idle s \<Longrightarrow> relay_high (bolt s) \<longleftrightarrow> relock_at s \<noteq> None"
  by (auto simp: idle_def fw_inv_def released_only_scheduled_def)

lemma quiet_passes_work:
  assumes "idle s"
  shows "\<exists>s'. quiet_passes tc (Suc n) s = Some s' \<and> (fw_step tc)\<^sup>*\<^sup>* s s' \<and> idle s' \<and> now s' = now s + 5000 * Suc n \<and>
     relock_at s' = Option.bind (relock_at s) (\<lambda>t. if t \<le> now s + 5000 * n then None else Some t)"
  using assms
proof (induction n arbitrary: s)
  case 0
  show ?case using after_pass(1) [OF 0, of tc 0] after_pass(2-5) [OF 0] by simp
next
  case (Suc n)
  note pass = after_pass(1) [OF Suc.prems, of tc "Suc n"] after_pass(2-5) [OF Suc.prems]
  from Suc.IH [OF pass(3)] obtain s' where s': "quiet_passes tc (Suc n) (after_pass s) = Some s'"
      "(fw_step tc)\<^sup>*\<^sup>* (after_pass s) s'" "idle s'" "now s' = now (after_pass s) + 5000 * Suc n"
      "relock_at s' = Option.bind (relock_at (after_pass s)) (\<lambda>t. if t \<le> now (after_pass s) + 5000 * n then None else Some t)"
    by blast
  have "relock_at s' = Option.bind (relock_at s) (\<lambda>t. if t \<le> now s + 5000 * Suc n then None else Some t)"
    unfolding s'(5) pass(4,5) by (cases "relock_at s") auto
  moreover have "(fw_step tc)\<^sup>*\<^sup>* s s'" by (rule rtranclp_trans [OF pass(2) s'(2)])
  moreover have "quiet_passes tc (Suc (Suc n)) s = Some s'" using pass(1) s'(1) by simp
  ultimately show ?case using s'(3,4) pass(4) by (intro exI [of _ s']) simp
qed

section \<open>Properties\<close>

text \<open>
  C18. The bolt stays released for at least \<open>UNLOCK_DURATION\<close> after every accepted code: whatever the
  keypad's lines, the interrupts and the timer do afterwards, wrong codes and further correct ones
  included, a state in which the relay is low again is at least that much later than the moment
  at which the code was handled.
\<close>

theorem bolt_held_for_unlock_duration:
  assumes "fw_reachable totp_custom s" and "phase s = AtFrame bs"
    and "phase (frame_phase totp_custom bs s) = AtOutcome Unlocked"
    and "(fw_step totp_custom)\<^sup>*\<^sup>* (frame_phase totp_custom bs s) s'" and "\<not> relay_high (bolt s')"
  shows "now s + UNLOCK_DURATION \<le> now s'"
proof -
  have "holds_open (now s) (frame_phase totp_custom bs s)" using assms(3) by (simp add: holds_open_def frame_simps)
  from holds_open_steps [OF assms(4) this] have open_s': "holds_open (now s) s'" .
  have "fw_reachable totp_custom s'"
    using fw_reachable_steps [OF fw_reachable.step [OF assms(1) fw_step.handle [OF assms(2)]] assms(4)] .
  from fw_reachable_inv [OF this] assms(5) have "relock_at s' = None" "phase s' \<noteq> AtOutcome Unlocked"
    by (auto simp: fw_inv_def released_only_scheduled_def)
  with open_s' show ?thesis by (simp add: holds_open_def)
qed

text \<open>
  C16. A correct code typed on the keypad opens the bolt for exactly \<open>UNLOCK_DURATION\<close>: from every
  reachable state in which the main loop is at its head and no pulse is pending, the pulses of \<open>*\<close>,
  the six digits of a code and \<open>#\<close>, each followed by the message gap, a pass of the loop and its
  delay, are a run of the firmware that ends with the relay high, if the check accepts the code at
  the time the \<open>#\<close> is handled. While the keypad then stays quiet, the loop makes a pass every 5 ms;
  each pass less than \<open>UNLOCK_DURATION\<close> after that moment leaves the relay high, and the pass at
  \<open>UNLOCK_DURATION\<close> and all later ones leave it low.
\<close>

theorem typed_code_opens_bolt_for_unlock_duration:
  assumes "fw_reachable totp_custom s" and "phase s = AtPoll" and "capture_empty s"
    and "handled = now s + 235000"
    and "matches totp_custom SECRET (digit_slots PIN_LEN code)
           (unix_seconds system_clock_trait (clock s, handled)) SKEW_STEPS"
  shows "\<exists>s1. press_all totp_custom (code_presses code) s = Some s1 \<and> (fw_step totp_custom)\<^sup>*\<^sup>* s s1 \<and>
     now s1 = handled + 1000 * POLL_INTERVAL_MS \<and> relay_high (bolt s1) \<and>
     (\<forall>n. \<exists>s2. quiet_passes totp_custom (Suc n) s1 = Some s2 \<and> (fw_step totp_custom)\<^sup>*\<^sup>* s1 s2 \<and>
        (relay_high (bolt s2) \<longleftrightarrow> 1000 * POLL_INTERVAL_MS * Suc n < UNLOCK_DURATION))"
proof -
  have "idle s" using assms(1-3) fw_reachable_inv by (simp add: idle_def)
  from code_presses_open [OF this assms(5) [unfolded assms(4)]] obtain s1 where s1:
    "press_all totp_custom (code_presses code) s = Some s1" "(fw_step totp_custom)\<^sup>*\<^sup>* s s1" "relay_high (bolt s1)"
    "idle s1" "now s1 = handled + 1000 * POLL_INTERVAL_MS" "relock_at s1 = Some (handled + UNLOCK_DURATION)"
    using assms(4) by (auto simp: POLL_INTERVAL_MS_def)
  have "\<exists>s2. quiet_passes totp_custom (Suc n) s1 = Some s2 \<and> (fw_step totp_custom)\<^sup>*\<^sup>* s1 s2 \<and>
      (relay_high (bolt s2) \<longleftrightarrow> 1000 * POLL_INTERVAL_MS * Suc n < UNLOCK_DURATION)" for n
  proof -
    obtain s2 where "quiet_passes totp_custom (Suc n) s1 = Some s2" "(fw_step totp_custom)\<^sup>*\<^sup>* s1 s2" "idle s2"
        "relock_at s2 = Option.bind (relock_at s1) (\<lambda>t. if t \<le> now s1 + 5000 * n then None else Some t)"
      using quiet_passes_work [OF s1(4), of totp_custom n] by blast
    then show ?thesis using s1(5,6) idle_relay [of s2] by (auto simp: POLL_INTERVAL_MS_def)
  qed
  with s1(1-3,5) show ?thesis by blast
qed

theorem typed_code_opens_bolt_for_unlock_duration_witness:
  "\<exists>s s1 s2 s3. fw_init (lit ''0'') 0 = Some s \<and> press_all demo_totp (code_presses 7123) s = Some s1 \<and>
     quiet_passes demo_totp 999 s1 = Some s2 \<and> relay_high (bolt s2) \<and>
     quiet_passes demo_totp 1000 s1 = Some s3 \<and> \<not> relay_high (bolt s3)"
proof -
  obtain s where s: "fw_init (lit ''0'') 0 = Some s" "\<not> relay_high (bolt s)" "now s = 0"
      "matches demo_totp SECRET (digit_slots PIN_LEN 7123)
           (unix_seconds system_clock_trait (clock s, now s + 235000)) SKEW_STEPS"
    by (rule demo_boot)
  have "phase s = AtPoll" "capture_empty s" using idle_init [OF s(1)] by (simp_all add: idle_def)
  from typed_code_opens_bolt_for_unlock_duration [OF fw_reachable.boot [OF s(1)] this refl s(4)]
  obtain s1 where s1: "press_all demo_totp (code_presses 7123) s = Some s1"
      "\<And>n. \<exists>s2. quiet_passes demo_totp (Suc n) s1 = Some s2 \<and>
        (relay_high (bolt s2) \<longleftrightarrow> 1000 * POLL_INTERVAL_MS * Suc n < UNLOCK_DURATION)"
    by blast
  have nums: "(999 :: nat) = Suc 998" "(1000 :: nat) = Suc 999" by simp_all
  obtain s2 s3 where "quiet_passes demo_totp 999 s1 = Some s2" "relay_high (bolt s2)"
      "quiet_passes demo_totp 1000 s1 = Some s3" "\<not> relay_high (bolt s3)"
    using s1(2) [of 998] s1(2) [of 999] unfolding nums(1) [symmetric] nums(2) [symmetric]
    by (auto simp: POLL_INTERVAL_MS_def UNLOCK_DURATION_def)
  with s(1) s1(1) show ?thesis by blast
qed

theorem bolt_held_for_unlock_duration_witness:
  "\<exists>s bs s'. fw_reachable demo_totp s \<and> phase s = AtFrame bs \<and>
     phase (frame_phase demo_totp bs s) = AtOutcome Unlocked \<and>
     (fw_step demo_totp)\<^sup>*\<^sup>* (frame_phase demo_totp bs s) s' \<and> \<not> relay_high (bolt s') \<and>
     now s + UNLOCK_DURATION \<le> now s'"
proof -
  obtain s0 where s0: "fw_init (lit ''0'') 0 = Some s0" "\<not> relay_high (bolt s0)" "now s0 = 0"
      "matches demo_totp SECRET (digit_slots PIN_LEN 7123)
           (unix_seconds system_clock_trait (clock s0, now s0 + 235000)) SKEW_STEPS"
    by (rule demo_boot)
  from code_presses_open [OF idle_init [OF s0(1)] s0(4)] obtain s1 where
    "(fw_step demo_totp)\<^sup>*\<^sup>* s0 s1" "relay_high (bolt s1)" by blast
  from rising_step [OF this(1) s0(2) this(2)] obtain u v where
    uv: "(fw_step demo_totp)\<^sup>*\<^sup>* s0 u" "fw_step demo_totp u v" "\<not> relay_high (bolt u)" "relay_high (bolt v)" by blast
  have u: "fw_reachable demo_totp u" using fw_reachable_steps [OF fw_reachable.boot [OF s0(1)] uv(1)] .
  from rising_step_accepts [OF fw_reachable_inv [OF u] uv(2-4)] obtain bs where
    bs: "phase u = AtFrame bs" "v = frame_phase demo_totp bs u" "phase v = AtOutcome Unlocked" by blast
  let ?v1 = "outcome_phase Unlocked v"
  let ?v2 = "?v1\<lparr>now := now v + UNLOCK_DURATION\<rparr>"
  have "fw_step demo_totp v ?v1" using bs(3) by (rule fw_step.outcome)
  moreover have "fw_step demo_totp ?v1 ?v2" by (rule fw_step.tick) (simp add: frame_simps)
  moreover have "fw_step demo_totp ?v2 (relock_phase ?v2)" by (rule fw_step.relock) (simp add: phase_next)
  ultimately have steps: "(fw_step demo_totp)\<^sup>*\<^sup>* (frame_phase demo_totp bs u) (relock_phase ?v2)"
    unfolding bs(2) by (meson converse_rtranclp_into_rtranclp r_into_rtranclp)
  have low: "\<not> relay_high (bolt (relock_phase ?v2))"
    by (simp add: relock_phase_def outcome_phase_def bolt_trait_def)
  from bolt_held_for_unlock_duration [OF u bs(1) bs(3) [unfolded bs(2)] steps low] u bs steps low show ?thesis by blast
qed

end
