(* ===== verification/Sha1.thy ===== *)
theory Sha1
  imports Prelude
begin

text \<open>
  SHA-1 (FIPS 180-4) and HMAC-SHA-1 (RFC 2104) on bytes. Neither is code of the repository: they
  are the functions behind the third-party code generators on both ends, written from the
  standards so that those parameters have a real instance and the repository's test vectors can
  be evaluated.
\<close>

section \<open>SHA-1\<close>

type_synonym sha1_state = "u32 \<times> u32 \<times> u32 \<times> u32 \<times> u32"

definition rotl :: "nat \<Rightarrow> u32 \<Rightarrow> u32" where
  "rotl n w = push_bit n w OR drop_bit (32 - n) w"

definition rotl1 :: "u32 \<Rightarrow> u32" where
  "rotl1 = rotl 1"

definition rotl5 :: "u32 \<Rightarrow> u32" where
  "rotl5 = rotl 5"

definition rotl30 :: "u32 \<Rightarrow> u32" where
  "rotl30 = rotl 30"

definition sha1_ch :: "u32 \<Rightarrow> u32 \<Rightarrow> u32 \<Rightarrow> u32" where
  "sha1_ch x y z = (x AND y) XOR (NOT x AND z)"

definition sha1_parity :: "u32 \<Rightarrow> u32 \<Rightarrow> u32 \<Rightarrow> u32" where
  "sha1_parity x y z = x XOR y XOR z"

definition sha1_maj :: "u32 \<Rightarrow> u32 \<Rightarrow> u32 \<Rightarrow> u32" where
  "sha1_maj x y z = (x AND y) XOR (x AND z) XOR (y AND z)"

fun sha1_step :: "(u32 \<Rightarrow> u32 \<Rightarrow> u32 \<Rightarrow> u32) \<Rightarrow> u32 \<Rightarrow> sha1_state \<Rightarrow> u32 \<Rightarrow> sha1_state" where
  "sha1_step f k (a, b, c, d, e) w = (rotl5 a + f b c d + e + k + w, a, rotl30 b, c, d)"

text \<open>The message schedule, its newest word first.\<close>

fun sha1_expand :: "nat \<Rightarrow> u32 list \<Rightarrow> u32 list" where
  "sha1_expand 0 ws = ws"
| "sha1_expand (Suc n) ws =
     sha1_expand n (rotl1 (ws ! 2 XOR ws ! 7 XOR ws ! 13 XOR ws ! 15) # ws)"

definition sha1_add :: "sha1_state \<Rightarrow> sha1_state \<Rightarrow> sha1_state" where
  "sha1_add = (\<lambda>(a, b, c, d, e) (a', b', c', d', e'). (a + a', b + b', c + c', d + d', e + e'))"

definition sha1_compress :: "sha1_state \<Rightarrow> u32 list \<Rightarrow> sha1_state" where
  "sha1_compress h block =
     (let w = rev (sha1_expand 64 (rev block));
          s1 = foldl (sha1_step sha1_ch 0x5a827999) h (take 20 w);
          s2 = foldl (sha1_step sha1_parity 0x6ed9eba1) s1 (take 20 (drop 20 w));
          s3 = foldl (sha1_step sha1_maj 0x8f1bbcdc) s2 (take 20 (drop 40 w));
          s4 = foldl (sha1_step sha1_parity 0xca62c1d6) s3 (drop 60 w)
      in sha1_add h s4)"

definition sha1_init :: sha1_state where
  "sha1_init = (0x67452301, 0xefcdab89, 0x98badcfe, 0x10325476, 0xc3d2e1f0)"

text \<open>Big-endian bytes and words.\<close>

definition to_be_bytes :: "nat \<Rightarrow> 'a::len word \<Rightarrow> bytes" where
  "to_be_bytes n w = map (\<lambda>i. ucast (drop_bit (8 * i) w)) (rev [0..<n])"

definition from_be_bytes :: "bytes \<Rightarrow> u32" where
  "from_be_bytes bs = foldl (\<lambda>acc b. acc * 256 + ucast b) 0 bs"

fun be_words :: "bytes \<Rightarrow> u32 list" where
  "be_words (a # b # c # d # bs) = from_be_bytes [a, b, c, d] # be_words bs"
| "be_words bs = []"

definition sha1_padding :: "nat \<Rightarrow> bytes" where
  "sha1_padding len =
     0x80 # replicate ((119 - len mod 64) mod 64) 0 @ to_be_bytes 8 (of_nat (8 * len) :: u64)"

function sha1_blocks :: "sha1_state \<Rightarrow> bytes \<Rightarrow> sha1_state" where
  "sha1_blocks h bs =
     (if length bs < 64 then h
      else sha1_blocks (sha1_compress h (be_words (take 64 bs))) (drop 64 bs))"
  by auto
termination by (relation "measure (length \<circ> snd)") auto

declare sha1_blocks.simps [simp del]

definition sha1_output :: "sha1_state \<Rightarrow> bytes" where
  "sha1_output = (\<lambda>(a, b, c, d, e). concat (map (to_be_bytes 4) [a, b, c, d, e]))"

definition sha1 :: "bytes \<Rightarrow> bytes" where
  "sha1 m = sha1_output (sha1_blocks sha1_init (m @ sha1_padding (length m)))"

section \<open>HMAC\<close>

definition hmac_key :: "bytes \<Rightarrow> bytes" where
  "hmac_key key =
     (let k = (if 64 < length key then sha1 key else key) in k @ replicate (64 - length k) 0)"

definition hmac_sha1 :: "bytes \<Rightarrow> bytes \<Rightarrow> bytes" where
  "hmac_sha1 key msg =
     sha1 (map (\<lambda>b. b XOR 0x5c) (hmac_key key) @
           sha1 (map (\<lambda>b. b XOR 0x36) (hmac_key key) @ msg))"

section \<open>Evaluation\<close>

text \<open>
  Code equations that evaluate faster than the standard's formulas: rotation as arithmetic, and
  one truncation to 32 bits per round.
\<close>

definition u32_of_int :: "int \<Rightarrow> u32" where
  "u32_of_int k = word_of_int k"

lemma u32_of_int_code [code abstract]: "Word.the_int (u32_of_int k) = k AND 4294967295"
proof -
  have "(4294967295 :: int) = mask 32" by (simp add: mask_eq_exp_minus_1)
  then show ?thesis by (simp only: u32_of_int_def take_bit_eq_mask [symmetric]) (transfer, simp)
qed

lemma rotl_arith:
  assumes "n \<le> 32"
  shows "rotl n w = word_of_int (uint w * 2 ^ n + uint w div 2 ^ (32 - n))"
proof -
  have "bit (push_bit n w AND drop_bit (32 - n) w) i = False" for i
    using assms by (auto simp: bit_and_iff bit_push_bit_iff bit_drop_bit_eq dest: bit_imp_le_length)
  then have "push_bit n w AND drop_bit (32 - n) w = 0" by (intro bit_eqI) simp
  then have "rotl n w = push_bit n w + drop_bit (32 - n) w"
    by (simp add: rotl_def disjunctive_add_eq_or)
  also have "drop_bit (32 - n) w = word_of_int (uint w div 2 ^ (32 - n))"
    by (rule bit_word_eqI)
      (auto simp: bit_drop_bit_eq bit_uint_iff bit_word_of_int_iff dest: bit_imp_le_length simp flip: drop_bit_eq_div)
  also have "push_bit n w + \<dots> = word_of_int (uint w * 2 ^ n + uint w div 2 ^ (32 - n))"
    by (simp add: push_bit_eq_mult)
  finally show ?thesis .
qed

lemma rotl1_code [code]: "rotl1 w = u32_of_int (uint w * 2 + uint w div 2147483648)"
  by (simp add: rotl1_def rotl_arith u32_of_int_def)

lemma rotl30_code [code]: "rotl30 w = u32_of_int (uint w * 1073741824 + uint w div 4)"
  by (simp add: rotl30_def rotl_arith u32_of_int_def)

lemma sha1_step_code [code]:
  "sha1_step f k (a, b, c, d, e) w =
     (u32_of_int (uint a * 32 + uint a div 134217728 + uint (f b c d) + uint e + uint k + uint w),
      a, rotl30 b, c, d)"
  by (simp add: rotl5_def rotl_arith u32_of_int_def)

lemma sha1_ch_code [code]: "sha1_ch x y z = z XOR (x AND (y XOR z))"
  unfolding sha1_ch_def by (rule bit_word_eqI) (auto simp: bit_xor_iff bit_and_iff bit_not_iff)

lemma sha1_maj_code [code]: "sha1_maj x y z = (x AND y) OR (z AND (x OR y))"
  unfolding sha1_maj_def by (rule bit_word_eqI) (auto simp: bit_xor_iff bit_and_iff bit_or_iff)

text \<open>The hash of a first block and a short rest, from the state after the first block.\<close>

definition sha1_second :: "sha1_state \<Rightarrow> bytes \<Rightarrow> sha1_state" where
  "sha1_second h m = sha1_compress h (be_words (m @ sha1_padding (64 + length m)))"

definition sha1_first :: "bytes \<Rightarrow> sha1_state" where
  "sha1_first block = sha1_compress sha1_init (be_words block)"

lemma length_to_be_bytes [simp]: "length (to_be_bytes n w) = n"
  by (simp add: to_be_bytes_def)

lemma length_sha1_output [simp]: "length (sha1_output s) = 20"
  by (cases s) (simp add: sha1_output_def)

lemma length_sha1 [simp]: "length (sha1 m) = 20"
  by (simp add: sha1_def)

lemma length_hmac_sha1 [simp]: "length (hmac_sha1 key msg) = 20"
  by (simp add: hmac_sha1_def)

lemma length_hmac_key [simp]: "length (hmac_key key) = 64"
  by (simp add: hmac_key_def Let_def)

lemma sha1_two_blocks:
  assumes "length block = 64" and "length m < 56"
  shows "sha1 (block @ m) = sha1_output (sha1_second (sha1_first block) m)"
proof -
  let ?rest = "m @ sha1_padding (64 + length m)"
  have "(119 - length m) mod 64 = 55 - length m"
  proof -
    have "119 - length m = 55 - length m + 64" using assms(2) by simp
    then have "(119 - length m) mod 64 = (55 - length m) mod 64" by (simp only: mod_add_self2)
    then show ?thesis using assms(2) by simp
  qed
  then have len: "length ?rest = 64" using assms(2) by (simp add: sha1_padding_def)
  then have "sha1_blocks h ?rest = sha1_compress h (be_words ?rest)" for h
    by (subst sha1_blocks.simps) (simp add: sha1_blocks.simps [of _ "[]"])
  with assms(1) show ?thesis
    unfolding sha1_def sha1_first_def sha1_second_def
    by (subst sha1_blocks.simps) simp
qed

lemma hmac_sha1_eval:
  assumes "length msg < 56"
    and "sha1_first (map (\<lambda>b. b XOR 0x36) (hmac_key key)) = inner"
    and "sha1_first (map (\<lambda>b. b XOR 0x5c) (hmac_key key)) = outer"
    and "sha1_second inner msg = h" and "sha1_second outer (sha1_output h) = h'"
  shows "hmac_sha1 key msg = sha1_output h'"
  using assms by (simp add: hmac_sha1_def sha1_two_blocks)

end
