(* ===== verification/Base_Encoding.thy ===== *)
theory Base_Encoding
  imports Rust_Text
begin

text \<open>
  Base32 and base64 (RFC 4648). The programs call libraries for both; these are the functions the
  libraries document, so that the parameters that stand for them have a real instance. Both are
  one encoding by groups of \<open>w\<close> bits over an alphabet of \<open>2 ^ w\<close> characters, whose round trip is
  proved once in the locale \<open>text_encoding\<close>.
\<close>

section \<open>Groups of bits\<close>

definition bits_nat :: "bool list \<Rightarrow> nat" where
  "bits_nat bs = foldl (\<lambda>a b. 2 * a + of_bool b) 0 bs"

fun bits_of :: "nat \<Rightarrow> nat \<Rightarrow> bool list" where
  "bits_of 0 v = []"
| "bits_of (Suc w) v = bits_of w (v div 2) @ [odd v]"

text \<open>Groups of \<open>w\<close> bits, the last one filled with zeros; and whole octets, a rest dropped.\<close>

function bit_groups :: "nat \<Rightarrow> bool list \<Rightarrow> bool list list" where
  "bit_groups w bs =
     (if w = 0 \<or> bs = [] then []
      else take w (bs @ replicate w False) # bit_groups w (drop w bs))"
  by auto
termination by (relation "measure (length \<circ> snd)") auto

declare bit_groups.simps [simp del]

fun octets :: "bool list \<Rightarrow> bool list list" where
  "octets (a # b # c # d # e # f # g # h # bs) = [a, b, c, d, e, f, g, h] # octets bs"
| "octets bs = []"

definition byte_bits :: "u8 \<Rightarrow> bool list" where
  "byte_bits b = bits_of 8 (unat b)"

section \<open>Encoding over an alphabet\<close>

definition encode_text :: "nat \<Rightarrow> ustr \<Rightarrow> bytes \<Rightarrow> ustr" where
  "encode_text w alphabet bs =
     map (\<lambda>g. alphabet ! bits_nat g) (bit_groups w (concat (map byte_bits bs)))"

fun index_of :: "nat \<Rightarrow> ustr \<Rightarrow> nat option" where
  "index_of c [] = None"
| "index_of c (x # xs) = (if c = x then Some 0 else map_option Suc (index_of c xs))"

fun text_values :: "ustr \<Rightarrow> ustr \<Rightarrow> nat list option" where
  "text_values alphabet [] = Some []"
| "text_values alphabet (c # cs) =
     (case index_of c alphabet of
        None \<Rightarrow> None
      | Some v \<Rightarrow> map_option ((#) v) (text_values alphabet cs))"

definition decode_text :: "nat \<Rightarrow> ustr \<Rightarrow> ustr \<Rightarrow> bytes option" where
  "decode_text w alphabet s =
     map_option (\<lambda>vs. map (of_nat \<circ> bits_nat) (octets (concat (map (bits_of w) vs))))
       (text_values alphabet s)"

text \<open>Base32 without padding, as \<open>totp_rs\<close> writes secrets.\<close>

definition base32_alphabet :: ustr where
  "base32_alphabet = lit ''ABCDEFGHIJKLMNOPQRSTUVWXYZ234567''"

definition base32_encode :: "bytes \<Rightarrow> ustr" where
  "base32_encode = encode_text 5 base32_alphabet"

definition base32_decode :: "ustr \<Rightarrow> bytes option" where
  "base32_decode = decode_text 5 base32_alphabet"

text \<open>
  Base64 with the standard alphabet. The decoder is strict: padding and unused bits are as the
  encoder writes them.
\<close>

definition base64_alphabet :: ustr where
  "base64_alphabet = lit ''ABCDEFGHIJKLMNOPQRSTUVWXYZabcdefghijklmnopqrstuvwxyz0123456789+/''"

definition base64_encode :: "bytes \<Rightarrow> ustr" where
  "base64_encode bs =
     (let s = encode_text 6 base64_alphabet bs in s @ replicate ((4 - length s mod 4) mod 4) 61)"

definition base64_decode :: "ustr \<Rightarrow> (ustr, bytes) result" where
  "base64_decode s =
     (case decode_text 6 base64_alphabet (trim_end_matches 61 s) of
        None \<Rightarrow> Inl (lit ''Invalid symbol'')
      | Some bs \<Rightarrow> if base64_encode bs = s then Inr bs else Inl (lit ''Invalid padding''))"

section \<open>Round trips\<close>

lemma bits_nat_snoc [simp]: "bits_nat (bs @ [b]) = 2 * bits_nat bs + of_bool b"
  by (simp add: bits_nat_def)

lemma bits_nat_Nil [simp]: "bits_nat [] = 0"
  by (simp add: bits_nat_def)

lemma bits_nat_less: "bits_nat bs < 2 ^ length bs"
  by (induction bs rule: rev_induct) auto

lemma length_bits_of [simp]: "length (bits_of w v) = w"
  by (induction w arbitrary: v) simp_all

lemma bits_of_bits_nat: "bits_of (length bs) (bits_nat bs) = bs"
  by (induction bs rule: rev_induct) simp_all

lemma bits_nat_bits_of: "v < 2 ^ w \<Longrightarrow> bits_nat (bits_of w v) = v"
  by (induction w arbitrary: v) (auto simp: less_mult_imp_div_less odd_two_times_div_two_nat)

lemma byte_bits_value [simp]: "of_nat (bits_nat (byte_bits b)) = b"
  using unsigned_less [of b, where ?'a = nat] by (simp add: byte_bits_def bits_nat_bits_of)

lemma length_byte_bits [simp]: "length (byte_bits b) = 8"
  by (simp add: byte_bits_def)

lemma octets_append: "length o8 = 8 \<Longrightarrow> octets (o8 @ bs) = o8 # octets bs"
  by (auto simp: numeral_eq_Suc length_Suc_conv)

lemma octets_short: "length bs < 8 \<Longrightarrow> octets bs = []"
  by (cases bs rule: octets.cases) auto

lemma octets_bytes: "length rest < 8 \<Longrightarrow> octets (concat (map byte_bits bs) @ rest) = map byte_bits bs"
  by (induction bs) (simp_all add: octets_append octets_short)

lemma bit_groups_length: "0 < w \<Longrightarrow> g \<in> set (bit_groups w bs) \<Longrightarrow> length g = w"
proof (induction w bs rule: bit_groups.induct)
  case (1 w bs)
  then show ?case by (subst (asm) bit_groups.simps) (auto split: if_splits)
qed

lemma concat_bit_groups: "0 < w \<Longrightarrow> \<exists>k < w. concat (bit_groups w bs) = bs @ replicate k False"
proof (induction w bs rule: bit_groups.induct)
  case (1 w bs)
  consider "bs = []" | "bs \<noteq> []" "length bs \<le> w" | "w < length bs" by linarith
  then show ?case
  proof cases
    case 1
    with "1.prems" show ?thesis by (subst bit_groups.simps) auto
  next
    case 2
    then have "concat (bit_groups w bs) = bs @ replicate (w - length bs) False"
      using "1.prems" by (subst bit_groups.simps) (simp add: bit_groups.simps [of w "[]"] take_replicate)
    with 2 show ?thesis by (intro exI [of _ "w - length bs"]) (auto simp: "1.prems")
  next
    case 3
    then obtain k where "k < w" "concat (bit_groups w (drop w bs)) = drop w bs @ replicate k False"
      using "1.IH" "1.prems" by fastforce
    with 3 "1.prems" show ?thesis
      by (subst bit_groups.simps) (auto intro!: exI [of _ k] simp flip: append_assoc)
  qed
qed

lemma index_of_nth: "distinct xs \<Longrightarrow> i < length xs \<Longrightarrow> index_of (xs ! i) xs = Some i"
  by (induction xs arbitrary: i) (auto simp: nth_Cons' split: if_splits)

locale text_encoding =
  fixes w :: nat and alphabet :: ustr
  assumes width: "0 < w" "w \<le> 8"
    and alphabet: "distinct alphabet" "length alphabet = 2 ^ w"
begin

lemma text_values_groups:
  "(\<And>g. g \<in> set gs \<Longrightarrow> length g = w) \<Longrightarrow>
     text_values alphabet (map (\<lambda>g. alphabet ! bits_nat g) gs) = Some (map bits_nat gs)"
proof (induction gs)
  case (Cons g gs)
  have "bits_nat g < length alphabet"
    using bits_nat_less [of g] Cons.prems [of g] by (simp add: alphabet)
  with Cons show ?case by (simp add: index_of_nth alphabet)
qed simp

lemma decode_encode: "decode_text w alphabet (encode_text w alphabet bs) = Some bs"
proof -
  let ?gs = "bit_groups w (concat (map byte_bits bs))"
  have len: "length g = w" if "g \<in> set ?gs" for g
    using that by (rule bit_groups_length [OF width(1)])
  then have same: "map (bits_of w \<circ> bits_nat) ?gs = ?gs"
    by (intro map_idI) (metis bits_of_bits_nat comp_apply)
  obtain k where "k < w" "concat ?gs = concat (map byte_bits bs) @ replicate k False"
    using concat_bit_groups [OF width(1)] by blast
  then have "octets (concat ?gs) = map byte_bits bs" using width(2) by (simp add: octets_bytes)
  moreover have "text_values alphabet (encode_text w alphabet bs) = Some (map bits_nat ?gs)"
    unfolding encode_text_def by (rule text_values_groups) (rule len)
  ultimately show ?thesis by (simp add: decode_text_def same map_idI)
qed

lemma encode_chars: "set (encode_text w alphabet bs) \<subseteq> set alphabet"
proof
  fix c assume "c \<in> set (encode_text w alphabet bs)"
  then obtain g where g: "g \<in> set (bit_groups w (concat (map byte_bits bs)))"
      "c = alphabet ! bits_nat g"
    by (auto simp: encode_text_def)
  have "bits_nat g < 2 ^ w" using bits_nat_less [of g] bit_groups_length [OF width(1) g(1)] by simp
  with g(2) show "c \<in> set alphabet" by (simp add: alphabet(2))
qed

end

interpretation base32: text_encoding 5 base32_alphabet
  by unfold_locales (simp_all add: base32_alphabet_def lit_def)

interpretation base64: text_encoding 6 base64_alphabet
  by unfold_locales (simp_all add: base64_alphabet_def lit_def)

lemma base32_roundtrip: "base32_decode (base32_encode bs) = Some bs"
  unfolding base32_decode_def base32_encode_def by (rule base32.decode_encode)

lemma trim_end_matches_append: "c \<notin> set s \<Longrightarrow> trim_end_matches c (s @ replicate n c) = s"
proof -
  assume "c \<notin> set s"
  then have "dropWhile (\<lambda>x. x = c) (rev s) = rev s" by (cases s rule: rev_cases) auto
  moreover have "dropWhile (\<lambda>x. x = c) (replicate n c @ xs) = dropWhile (\<lambda>x. x = c) xs" for xs
    by (induction n) simp_all
  ultimately show ?thesis by (simp add: trim_end_matches_def trim_end_by_def)
qed

lemma base64_roundtrip: "base64_decode (base64_encode bs) = Inr bs"
proof -
  have "61 \<notin> set base64_alphabet" by (simp add: base64_alphabet_def lit_def)
  then have "61 \<notin> set (encode_text 6 base64_alphabet bs)" using base64.encode_chars [of bs] by blast
  then have "trim_end_matches 61 (base64_encode bs) = encode_text 6 base64_alphabet bs"
    by (simp add: base64_encode_def Let_def trim_end_matches_append)
  then show ?thesis by (simp add: base64_decode_def base64.decode_encode)
qed

lemma base64_chars: "c \<in> set (base64_encode bs) \<Longrightarrow> c \<in> set base64_alphabet \<or> c = 61"
  using base64.encode_chars [of bs] by (auto simp: base64_encode_def Let_def)

end
