(* ===== verification/App_Error.thy ===== *)
theory App_Error
  imports Rust_Text
begin

text \<open>
  Errors and responses of the server (\<^verbatim>\<open>totp-server/src/error.rs\<close>): the \<open>AppError\<close> type, its
  conversion into an HTTP response and the log line written on the way. JSON bodies are
  values of the datatype \<open>json\<close>; a body produced by a library is an opaque text.
\<close>

section \<open>Model\<close>

subsection \<open>Errors\<close>

text \<open>
  \<open>anyhow::Error\<close>: a message, a wrapped error of another library given by its text, or an
  error with a context added.
\<close>

datatype anyhow = Msg ustr | Wrapped ustr | Context ustr anyhow

datatype app_error =
  Unauthorized
| Forbidden
| NotFound
| RateLimited
| IntrospectionUnavailable anyhow
| Internal anyhow

text \<open>\<open>and_then\<close>: the \<open>?\<close> operator of the source, for results without effects.\<close>

fun and_then :: "('e, 'a) result \<Rightarrow> ('a \<Rightarrow> ('e, 'b) result) \<Rightarrow> ('e, 'b) result" where
  "and_then (Inl e) f = Inl e"
| "and_then (Inr a) f = f a"

fun map_err :: "('e \<Rightarrow> 'f) \<Rightarrow> ('e, 'a) result \<Rightarrow> ('f, 'a) result" where
  "map_err f (Inl e) = Inl (f e)"
| "map_err f (Inr a) = Inr a"

subsection \<open>Responses and log lines\<close>

datatype json = JString ustr | JNumber nat | JObject "(ustr \<times> json) list"

datatype body = Json json | Raw ustr

record response =
  status :: nat
  body :: body

datatype level = Debug | Info | Warn | Error

datatype field = Display ustr | DebugOf anyhow

record log_line =
  level :: level
  log_fields :: "(ustr \<times> field) list"
  message :: ustr

text \<open>The \<open>Display\<close> text that \<open>thiserror\<close> derives.\<close>

fun app_error_display :: "app_error \<Rightarrow> ustr" where
  "app_error_display Unauthorized = lit ''unauthorized''"
| "app_error_display Forbidden = lit ''forbidden''"
| "app_error_display NotFound = lit ''no TOTP secret registered for this user''"
| "app_error_display RateLimited = lit ''too many requests''"
| "app_error_display (IntrospectionUnavailable _) =
     lit ''token introspection is temporarily unavailable''"
| "app_error_display (Internal _) = lit ''internal server error''"

fun error_status :: "app_error \<Rightarrow> nat" where
  "error_status Unauthorized = 401"
| "error_status Forbidden = 403"
| "error_status NotFound = 404"
| "error_status RateLimited = 429"
| "error_status (IntrospectionUnavailable _) = 503"
| "error_status (Internal _) = 500"

fun error_log :: "app_error \<Rightarrow> log_line" where
  "error_log (IntrospectionUnavailable source) =
     \<lparr>level = Error, log_fields = [(lit ''error'', DebugOf source)],
      message = lit ''token introspection failed''\<rparr>"
| "error_log (Internal source) =
     \<lparr>level = Error, log_fields = [(lit ''error'', DebugOf source)], message = lit ''internal error''\<rparr>"
| "error_log other =
     \<lparr>level = Debug, log_fields = [(lit ''error'', Display (app_error_display other))],
      message = lit ''request rejected''\<rparr>"

definition error_body :: "ustr \<Rightarrow> json" where
  "error_body error = JObject [(lit ''error'', JString error)]"

text \<open>\<open>into_response\<close>: the response, and the line it logs.\<close>

definition into_response :: "app_error \<Rightarrow> response \<times> log_line" where
  "into_response e =
     (\<lparr>status = error_status e, body = Json (error_body (app_error_display e))\<rparr>, error_log e)"

text \<open>\<open>From<sqlx::Error>\<close>: a database error is given by its text.\<close>

definition from_sqlx :: "ustr \<Rightarrow> app_error" where
  "from_sqlx err = Internal (Wrapped err)"

section \<open>Facts\<close>

lemma and_then_Inr [simp]:
  "and_then r f = Inr b \<longleftrightarrow> (\<exists>a. r = Inr a \<and> f a = Inr b)"
  by (cases r) auto

lemma map_err_Inl: "map_err f r = Inl e \<longleftrightarrow> (\<exists>e'. r = Inl e' \<and> e = f e')"
  by (cases r) auto

lemma map_err_Inr [simp]: "map_err f r = Inr a \<longleftrightarrow> r = Inr a"
  by (cases r) auto

lemma lit_eq_iff [simp]: "lit s = lit t \<longleftrightarrow> s = t"
proof
  assume "lit s = lit t"
  then show "s = t"
    unfolding lit_def by (rule map_injective) (simp add: inj_on_def)
qed simp

lemma fst_into_response [simp]:
  "fst (into_response e) =
     \<lparr>status = error_status e, body = Json (error_body (app_error_display e))\<rparr>"
  by (simp add: into_response_def)

lemma snd_into_response [simp]: "snd (into_response e) = error_log e"
  by (simp add: into_response_def)

text \<open>An error without the detail that only the log may show.\<close>

fun opaque :: "app_error \<Rightarrow> app_error" where
  "opaque (IntrospectionUnavailable _) = IntrospectionUnavailable (Msg [])"
| "opaque (Internal _) = Internal (Msg [])"
| "opaque e = e"

section \<open>Properties\<close>

text \<open>
  C36. A client learns the kind of an error and nothing else: two errors give the same response
  exactly when they are the same variant, whatever their sources, and the response of an error
  that has a source never depends on it, while the log line of such an error carries the
  source. Statuses tell the six kinds apart; those of 500 and above are the two with a source.
\<close>

theorem error_response_is_opaque:
  "(fst (into_response e) = fst (into_response e') \<longleftrightarrow> opaque e = opaque e') \<and>
   (error_status e = error_status e' \<longleftrightarrow> opaque e = opaque e') \<and>
   (500 \<le> error_status e \<longleftrightarrow> (\<exists>src. e = IntrospectionUnavailable src \<or> e = Internal src)) \<and>
   log_fields (snd (into_response (IntrospectionUnavailable src))) = [(lit ''error'', DebugOf src)] \<and>
   log_fields (snd (into_response (Internal src))) = [(lit ''error'', DebugOf src)]"
  by (cases e; cases e') (simp_all add: error_body_def)

end
