(* ===== verification/Config.thy ===== *)
theory Config
  imports App_Error Base_Encoding
begin

text \<open>
  The server's configuration (\<^verbatim>\<open>totp-server/src/config.rs\<close>). The process environment is a
  function from names to what \<open>env::var\<close> answers. Third-party code is an argument:
  \<open>dotenv\<close> is what \<open>dotenvy::dotenv()\<close> makes of the environment, \<open>decode\<close> is the base64
  decoder.
\<close>

section \<open>Model\<close>

definition ENCRYPTION_KEY_LEN :: nat where
  "ENCRYPTION_KEY_LEN = 32"

record config =
  database_url :: ustr
  host :: ustr
  port :: u16
  keycloak_issuer :: ustr
  keycloak_client_id :: ustr
  keycloak_client_secret :: ustr
  expected_audience :: ustr
  admin_role :: ustr
  encryption_key :: bytes
  totp_skew_steps :: u8
  rate_limit_max_requests :: u32
  rate_limit_window_seconds :: u64

text \<open>\<open>VarError\<close>; \<open>NotUnicode\<close> carries the rendering \<open>{:?}\<close> of the value that is not Unicode.\<close>

datatype var_error = NotPresent | NotUnicode ustr

type_synonym environ = "ustr \<Rightarrow> (var_error, ustr) result"
type_synonym decoder = "ustr \<Rightarrow> (ustr, bytes) result"

fun var_error_display :: "var_error \<Rightarrow> ustr" where
  "var_error_display NotPresent = lit ''environment variable not found''"
| "var_error_display (NotUnicode shown) = lit ''environment variable was not valid unicode: '' @ shown"

fun parse_int_error_display :: "parse_int_error \<Rightarrow> ustr" where
  "parse_int_error_display Empty = lit ''cannot parse integer from empty string''"
| "parse_int_error_display InvalidDigit = lit ''invalid digit found in string''"
| "parse_int_error_display PosOverflow = lit ''number too large to fit in target type''"

definition required :: "environ \<Rightarrow> ustr \<Rightarrow> (anyhow, ustr) result" where
  "required env k =
     map_err (\<lambda>e. Context (k @ lit '' must be set'') (Wrapped (var_error_display e))) (env k)"

text \<open>\<open>env::var(key).unwrap_or_else(|_| default)\<close>.\<close>

definition var_or :: "environ \<Rightarrow> ustr \<Rightarrow> ustr \<Rightarrow> ustr" where
  "var_or env k d = (case env k of Inl _ \<Rightarrow> d | Inr v \<Rightarrow> v)"

definition optional_parse ::
  "environ \<Rightarrow> ustr \<Rightarrow> 'a::len word \<Rightarrow> (anyhow, 'a word) result" where
  "optional_parse env k dflt =
     (case env k of
        Inl _ \<Rightarrow> Inr dflt
      | Inr raw \<Rightarrow>
          (case parse_unsigned (2 ^ LENGTH('a) - 1) (trim raw) of
             Inl e \<Rightarrow> Inl (Msg (k @ lit '' is not a valid value: '' @ parse_int_error_display e))
           | Inr v \<Rightarrow> Inr (of_nat v)))"

definition parse_encryption_key :: "decoder \<Rightarrow> ustr \<Rightarrow> (anyhow, bytes) result" where
  "parse_encryption_key decode raw0 =
     (let raw = trim raw0;
          encoded = (case strip_prefix (lit ''base64:'') raw of Some r \<Rightarrow> r | None \<Rightarrow> raw)
      in case decode encoded of
           Inl e \<Rightarrow>
             Inl (Context
               (lit ''TOTP_ENCRYPTION_KEY must be valid base64 (optionally `base64:`-prefixed)'')
               (Wrapped e))
         | Inr bs \<Rightarrow>
             if length bs = ENCRYPTION_KEY_LEN then Inr bs
             else Inl (Msg (lit ''TOTP_ENCRYPTION_KEY must decode to exactly 32 bytes, got '' @
                            show_nat (length bs))))"

definition from_env ::
  "(environ \<Rightarrow> environ) \<Rightarrow> decoder \<Rightarrow> environ \<Rightarrow> (anyhow, config) result" where
  "from_env dotenv decode env0 =
     (let env = dotenv env0 in
      and_then (required env (lit ''TOTP_ENCRYPTION_KEY'')) (\<lambda>raw_key.
      and_then (parse_encryption_key decode raw_key) (\<lambda>key.
      and_then (optional_parse env (lit ''RATE_LIMIT_MAX_REQUESTS'') 6) (\<lambda>max_requests.
      if max_requests = 0
      then Inl (Msg (lit ''RATE_LIMIT_MAX_REQUESTS must be at least 1''))
      else
      and_then (optional_parse env (lit ''RATE_LIMIT_WINDOW_SECONDS'') 300) (\<lambda>window_seconds.
      if window_seconds = 0
      then Inl (Msg (lit ''RATE_LIMIT_WINDOW_SECONDS must be at least 1''))
      else
      and_then (required env (lit ''DATABASE_URL'')) (\<lambda>url.
      and_then (optional_parse env (lit ''PORT'') 3000) (\<lambda>prt.
      and_then (required env (lit ''KEYCLOAK_ISSUER'')) (\<lambda>issuer.
      and_then (required env (lit ''TOTP_SERVER_KEYCLOAK_CLIENT_ID'')) (\<lambda>client_id.
      and_then (required env (lit ''TOTP_SERVER_KEYCLOAK_CLIENT_SECRET'')) (\<lambda>client_secret.
      and_then (optional_parse env (lit ''TOTP_SKEW_STEPS'') 1) (\<lambda>skew.
      Inr \<lparr>database_url = url,
           host = var_or env (lit ''HOST'') (lit ''0.0.0.0''),
           port = prt,
           keycloak_issuer = trim_end_matches 47 issuer,
           keycloak_client_id = client_id,
           keycloak_client_secret = client_secret,
           expected_audience = var_or env (lit ''TOTP_EXPECTED_AUDIENCE'') (lit ''totp-server''),
           admin_role = var_or env (lit ''TOTP_ADMIN_ROLE'') (lit ''totp-admin''),
           encryption_key = key,
           totp_skew_steps = skew,
           rate_limit_max_requests = max_requests,
           rate_limit_window_seconds = window_seconds\<rparr>)))))))))))"

definition server_address :: "config \<Rightarrow> ustr" where
  "server_address self = host self @ lit '':'' @ show_nat (unat (port self))"

definition introspection_url :: "config \<Rightarrow> ustr" where
  "introspection_url self =
     keycloak_issuer self @ lit ''/protocol/openid-connect/token/introspect''"

section \<open>Lemmas\<close>

text \<open>What every configuration that starts the server satisfies.\<close>

definition config_valid :: "config \<Rightarrow> bool" where
  "config_valid c \<longleftrightarrow>
     length (encryption_key c) = ENCRYPTION_KEY_LEN \<and>
     1 \<le> rate_limit_max_requests c \<and> 1 \<le> rate_limit_window_seconds c \<and>
     (keycloak_issuer c = [] \<or> last (keycloak_issuer c) \<noteq> 47)"

lemma trim_end_matches_last:
  "trim_end_matches c s = [] \<or> last (trim_end_matches c s) \<noteq> c"
  using trim_end_by_last [of "\<lambda>x. x = c" s] by (auto simp: trim_end_matches_def)

lemma trim_end_matches_id: "s = [] \<or> last s \<noteq> c \<Longrightarrow> trim_end_matches c s = s"
  unfolding trim_end_matches_def by (rule trim_end_by_id) auto

lemma parse_encryption_key_length:
  "parse_encryption_key decode raw = Inr k \<Longrightarrow> length k = ENCRYPTION_KEY_LEN"
  by (auto simp: parse_encryption_key_def Let_def split: sum.splits if_splits option.splits)

lemma word_at_least_one: "(1 :: 'a::len word) \<le> w \<longleftrightarrow> w \<noteq> 0"
  by (simp add: word_le_nat_alt Suc_le_eq unat_eq_zero flip: neq0_conv)

lemma from_env_valid: "from_env dotenv decode env0 = Inr c \<Longrightarrow> config_valid c"
  by (clarsimp simp: from_env_def Let_def config_valid_def word_at_least_one split: if_splits)
    (use trim_end_matches_last parse_encryption_key_length in metis)

text \<open>A numeric variable that is absent or holds a number from \<open>lo\<close> to \<open>hi\<close>.\<close>

definition var_in_range :: "environ \<Rightarrow> ustr \<Rightarrow> nat \<Rightarrow> nat \<Rightarrow> bool" where
  "var_in_range env k lo hi \<longleftrightarrow>
     (case env k of
        Inl _ \<Rightarrow> True
      | Inr raw \<Rightarrow> (case parse_unsigned hi (trim raw) of Inl _ \<Rightarrow> False | Inr v \<Rightarrow> lo \<le> v))"

lemma optional_parse_ok:
  "(\<exists>v. optional_parse env k (d :: 'a::len word) = Inr v) \<longleftrightarrow>
     var_in_range env k 0 (2 ^ LENGTH('a) - 1)"
  by (auto simp: optional_parse_def var_in_range_def split: sum.splits)

lemma optional_parse_nonzero:
  fixes d :: "'a::len word"
  assumes "d \<noteq> 0"
  shows "(\<exists>v. v \<noteq> 0 \<and> optional_parse env k d = Inr v) \<longleftrightarrow>
     var_in_range env k 1 (2 ^ LENGTH('a) - 1)"
proof -
  have "(of_nat v :: 'a word) = 0 \<longleftrightarrow> v = 0" if "parse_unsigned (2 ^ LENGTH('a) - 1) s = Inr v" for v s
  proof -
    have "v < 2 ^ LENGTH('a)"
      using parse_unsigned_bound [OF that] zero_less_power [of "2 :: nat" "LENGTH('a)"] by linarith
    then show ?thesis by (auto simp: word_of_nat_eq_0_iff dest: dvd_imp_le)
  qed
  with assms show ?thesis
    by (auto simp: optional_parse_def var_in_range_def Suc_le_eq split: sum.splits)
qed

lemma required_ok: "required env k = Inr v \<longleftrightarrow> env k = Inr v"
  by (simp add: required_def)

lemma optional_parse_show:
  fixes w d :: "'a::len word"
  assumes "env k = Inr (show_nat (unat w))"
  shows "optional_parse env k d = Inr w"
proof -
  have "unat w \<le> 2 ^ LENGTH('a) - 1" using unsigned_less [of w, where ?'a = nat] by linarith
  with assms show ?thesis by (simp add: optional_parse_def parse_show_nat)
qed

text \<open>A configuration written out as an environment; the key is given the prefix \<open>pre\<close>.\<close>

definition env_of :: "ustr \<Rightarrow> (bytes \<Rightarrow> ustr) \<Rightarrow> config \<Rightarrow> environ" where
  "env_of pre encode c = (\<lambda>k.
     case map_of
       [(lit ''DATABASE_URL'', database_url c),
        (lit ''HOST'', host c),
        (lit ''PORT'', show_nat (unat (port c))),
        (lit ''KEYCLOAK_ISSUER'', keycloak_issuer c),
        (lit ''TOTP_SERVER_KEYCLOAK_CLIENT_ID'', keycloak_client_id c),
        (lit ''TOTP_SERVER_KEYCLOAK_CLIENT_SECRET'', keycloak_client_secret c),
        (lit ''TOTP_EXPECTED_AUDIENCE'', expected_audience c),
        (lit ''TOTP_ADMIN_ROLE'', admin_role c),
        (lit ''TOTP_ENCRYPTION_KEY'', pre @ encode (encryption_key c)),
        (lit ''TOTP_SKEW_STEPS'', show_nat (unat (totp_skew_steps c))),
        (lit ''RATE_LIMIT_MAX_REQUESTS'', show_nat (unat (rate_limit_max_requests c))),
        (lit ''RATE_LIMIT_WINDOW_SECONDS'', show_nat (unat (rate_limit_window_seconds c)))] k of
       None \<Rightarrow> Inl NotPresent
     | Some v \<Rightarrow> Inr v)"

lemma env_of_simps:
  "env_of pre encode c (lit ''DATABASE_URL'') = Inr (database_url c)"
  "env_of pre encode c (lit ''HOST'') = Inr (host c)"
  "env_of pre encode c (lit ''PORT'') = Inr (show_nat (unat (port c)))"
  "env_of pre encode c (lit ''KEYCLOAK_ISSUER'') = Inr (keycloak_issuer c)"
  "env_of pre encode c (lit ''TOTP_SERVER_KEYCLOAK_CLIENT_ID'') = Inr (keycloak_client_id c)"
  "env_of pre encode c (lit ''TOTP_SERVER_KEYCLOAK_CLIENT_SECRET'') =
     Inr (keycloak_client_secret c)"
  "env_of pre encode c (lit ''TOTP_EXPECTED_AUDIENCE'') = Inr (expected_audience c)"
  "env_of pre encode c (lit ''TOTP_ADMIN_ROLE'') = Inr (admin_role c)"
  "env_of pre encode c (lit ''TOTP_ENCRYPTION_KEY'') = Inr (pre @ encode (encryption_key c))"
  "env_of pre encode c (lit ''TOTP_SKEW_STEPS'') = Inr (show_nat (unat (totp_skew_steps c)))"
  "env_of pre encode c (lit ''RATE_LIMIT_MAX_REQUESTS'') =
     Inr (show_nat (unat (rate_limit_max_requests c)))"
  "env_of pre encode c (lit ''RATE_LIMIT_WINDOW_SECONDS'') =
     Inr (show_nat (unat (rate_limit_window_seconds c)))"
  by (simp_all add: env_of_def)

text \<open>
  What the base64 library documents of its standard alphabet (letters, digits, plus, slash and
  the equals sign): decoding undoes encoding, and an encoded text has neither whitespace nor a
  colon.
\<close>

definition base64_laws :: "(bytes \<Rightarrow> ustr) \<Rightarrow> decoder \<Rightarrow> bool" where
  "base64_laws encode decode \<longleftrightarrow>
     (\<forall>bs. decode (encode bs) = Inr bs \<and>
           list_all (\<lambda>c. \<not> is_whitespace c \<and> c \<noteq> 58) (encode bs))"

text \<open>\<open>dotenvy::dotenv\<close> does not override variables that are set.\<close>

definition dotenv_keeps :: "(environ \<Rightarrow> environ) \<Rightarrow> bool" where
  "dotenv_keeps dotenv \<longleftrightarrow> (\<forall>env k v. env k = Inr v \<longrightarrow> dotenv env k = Inr v)"

lemma trim_no_whitespace: "list_all (\<lambda>c. \<not> is_whitespace c) s \<Longrightarrow> trim s = s"
proof -
  assume a: "list_all (\<lambda>c. \<not> is_whitespace c) s"
  then have "dropWhile is_whitespace s = s" by (cases s) auto
  moreover have "trim_end_by is_whitespace s = s"
    by (rule trim_end_by_id) (use a in \<open>auto simp: list_all_iff\<close>)
  ultimately show ?thesis by (simp add: trim_def)
qed

lemma base64_prefix_chars: "list_all (\<lambda>c. \<not> is_whitespace c) (lit ''base64:'')"
  and base64_prefix_colon: "58 \<in> set (lit ''base64:'')"
  by (simp_all add: lit_def is_whitespace_def)

lemma parse_encryption_key_encode:
  assumes "base64_laws encode decode" and "length k = ENCRYPTION_KEY_LEN"
    and "pre = [] \<or> pre = lit ''base64:''"
  shows "parse_encryption_key decode (pre @ encode k) = Inr k"
proof -
  have e: "decode (encode k) = Inr k" "list_all (\<lambda>c. \<not> is_whitespace c) (encode k)"
      "58 \<notin> set (encode k)"
    using assms(1) by (auto simp: base64_laws_def list_all_iff)
  have "trim (pre @ encode k) = pre @ encode k"
    by (rule trim_no_whitespace) (use assms(3) e(2) base64_prefix_chars in auto)
  moreover have "strip_prefix (lit ''base64:'') (encode k) = None"
    using e(3) base64_prefix_colon by (metis Un_iff not_Some_eq set_append strip_prefix_Some)
  moreover have "strip_prefix (lit ''base64:'') (lit ''base64:'' @ encode k) = Some (encode k)"
    by (simp add: strip_prefix_Some)
  ultimately show ?thesis
    using assms(2,3) e(1) by (auto simp: parse_encryption_key_def Let_def)
qed

lemma from_env_env_of:
  assumes laws: "base64_laws encode decode" "dotenv_keeps dotenv" "config_valid c"
    and pre: "pre = [] \<or> pre = lit ''base64:''"
  shows "from_env dotenv decode (env_of pre encode c) = Inr c"
proof -
  let ?env = "dotenv (env_of pre encode c)"
  have set: "?env k = Inr v" if "env_of pre encode c k = Inr v" for k v
    using laws(2) that by (simp add: dotenv_keeps_def)
  have req: "required ?env k = Inr v" "var_or ?env k d = v" if "env_of pre encode c k = Inr v" for k v d
    using set [OF that] by (simp_all add: required_def var_or_def)
  have num32: "optional_parse ?env k d = Inr w"
    if "env_of pre encode c k = Inr (show_nat (unat w))" for k and d w :: u32
    by (rule optional_parse_show) (rule set [OF that])
  have num64: "optional_parse ?env k d = Inr w"
    if "env_of pre encode c k = Inr (show_nat (unat w))" for k and d w :: u64
    by (rule optional_parse_show) (rule set [OF that])
  have num16: "optional_parse ?env k d = Inr w"
    if "env_of pre encode c k = Inr (show_nat (unat w))" for k and d w :: u16
    by (rule optional_parse_show) (rule set [OF that])
  have num8: "optional_parse ?env k d = Inr w"
    if "env_of pre encode c k = Inr (show_nat (unat w))" for k and d w :: u8
    by (rule optional_parse_show) (rule set [OF that])
  have key: "parse_encryption_key decode (pre @ encode (encryption_key c)) = Inr (encryption_key c)"
    using parse_encryption_key_encode [OF laws(1) _ pre] laws(3) by (simp add: config_valid_def)
  have "trim_end_matches 47 (keycloak_issuer c) = keycloak_issuer c"
    by (rule trim_end_matches_id) (use laws(3) in \<open>simp add: config_valid_def\<close>)
  with key laws(3) show ?thesis
    by (simp add: from_env_def Let_def req num8 num16 num32 num64 env_of_simps
        config_valid_def word_at_least_one del: and_then_Inr)
qed

section \<open>Properties\<close>

definition REQUIRED_VARS :: "ustr list" where
  "REQUIRED_VARS =
     [lit ''TOTP_ENCRYPTION_KEY'', lit ''DATABASE_URL'', lit ''KEYCLOAK_ISSUER'',
      lit ''TOTP_SERVER_KEYCLOAK_CLIENT_ID'', lit ''TOTP_SERVER_KEYCLOAK_CLIENT_SECRET'']"

text \<open>
  C34. The server starts exactly on a usable environment: \<open>from_env\<close> returns a configuration if
  and only if the five required variables are set, the key decodes to 32 bytes, and the
  numeric variables that are set hold numbers of their type, the two of the rate limit not 0;
  and the configuration it returns has a 32-byte key, a budget and a window of at least 1 and
  an issuer without a trailing slash.
\<close>

theorem from_env_accepts:
  "((\<exists>c. from_env dotenv decode env0 = Inr c) \<longleftrightarrow>
      list_all (\<lambda>k. \<exists>v. dotenv env0 k = Inr v) REQUIRED_VARS \<and>
      (\<exists>raw key. dotenv env0 (lit ''TOTP_ENCRYPTION_KEY'') = Inr raw \<and>
         parse_encryption_key decode raw = Inr key) \<and>
      var_in_range (dotenv env0) (lit ''RATE_LIMIT_MAX_REQUESTS'') 1 (2 ^ 32 - 1) \<and>
      var_in_range (dotenv env0) (lit ''RATE_LIMIT_WINDOW_SECONDS'') 1 (2 ^ 64 - 1) \<and>
      var_in_range (dotenv env0) (lit ''PORT'') 0 (2 ^ 16 - 1) \<and>
      var_in_range (dotenv env0) (lit ''TOTP_SKEW_STEPS'') 0 (2 ^ 8 - 1)) \<and>
   (\<forall>c. from_env dotenv decode env0 = Inr c \<longrightarrow> config_valid c)"
proof -
  let ?env = "dotenv env0"
  let ?usable = "list_all (\<lambda>k. \<exists>v. ?env k = Inr v) REQUIRED_VARS \<and>
      (\<exists>raw key. ?env (lit ''TOTP_ENCRYPTION_KEY'') = Inr raw \<and>
         parse_encryption_key decode raw = Inr key) \<and>
      (\<exists>v. v \<noteq> 0 \<and> optional_parse ?env (lit ''RATE_LIMIT_MAX_REQUESTS'') (6 :: u32) = Inr v) \<and>
      (\<exists>v. v \<noteq> 0 \<and> optional_parse ?env (lit ''RATE_LIMIT_WINDOW_SECONDS'') (300 :: u64) = Inr v) \<and>
      (\<exists>v. optional_parse ?env (lit ''PORT'') (3000 :: u16) = Inr v) \<and>
      (\<exists>v. optional_parse ?env (lit ''TOTP_SKEW_STEPS'') (1 :: u8) = Inr v)"
  have A: "?usable" if "from_env dotenv decode env0 = Inr c" for c
    using that by (auto simp: from_env_def Let_def REQUIRED_VARS_def required_ok split: if_splits)
  have B: "\<exists>c. from_env dotenv decode env0 = Inr c" if "?usable"
    using that
    by (auto simp: from_env_def Let_def REQUIRED_VARS_def required_def simp del: and_then_Inr map_err_Inr)
  have "(\<exists>c. from_env dotenv decode env0 = Inr c) \<longleftrightarrow> ?usable"
    by (rule iffI, erule exE, erule A, erule B)
  moreover have "(6 :: u32) \<noteq> 0" "(300 :: u64) \<noteq> 0" by simp_all
  ultimately show ?thesis
    by (simp add: optional_parse_ok optional_parse_nonzero from_env_valid)
qed

text \<open>A concrete configuration; base64 itself keeps the laws asked of it.\<close>

definition demo_config :: config where
  "demo_config =
     \<lparr>database_url = lit ''postgres://db/totp'', host = lit ''0.0.0.0'', port = 3000,
      keycloak_issuer = lit ''http://keycloak:8080/realms/lock-demo'',
      keycloak_client_id = lit ''totp-server'', keycloak_client_secret = lit ''secret'',
      expected_audience = lit ''totp-server'', admin_role = lit ''totp-admin'',
      encryption_key = replicate 32 7, totp_skew_steps = 1,
      rate_limit_max_requests = 6, rate_limit_window_seconds = 300\<rparr>"

lemma base64_encode_laws: "base64_laws base64_encode base64_decode"
proof -
  have "list_all (\<lambda>c. \<not> is_whitespace c \<and> c \<noteq> 58) (61 # base64_alphabet)"
    by (simp add: base64_alphabet_def lit_def is_whitespace_def)
  then have "\<not> is_whitespace c \<and> c \<noteq> 58" if "c \<in> set (base64_encode bs)" for c bs
    using base64_chars [OF that] by (auto simp only: list_all_iff list.set)
  then show ?thesis by (auto simp: base64_laws_def base64_roundtrip list_all_iff)
qed

lemma demo_config_valid: "config_valid demo_config"
  by (simp add: config_valid_def demo_config_def ENCRYPTION_KEY_LEN_def lit_def)

lemma dotenv_keeps_id: "dotenv_keeps id"
  by (simp add: dotenv_keeps_def)

theorem from_env_accepts_witness:
  "\<exists>c. from_env id base64_decode (env_of [] base64_encode demo_config) = Inr c \<and> config_valid c"
  using from_env_env_of [OF base64_encode_laws dotenv_keeps_id demo_config_valid, of "[]"]
    from_env_accepts [of id base64_decode "env_of [] base64_encode demo_config"]
  by blast

text \<open>
  C33. Reading a configuration undoes writing it: the environment that spells out a valid
  configuration, the numbers in decimal and the key in base64 with or without the \<open>base64:\<close>
  prefix, is read back as exactly that configuration.
\<close>

theorem config_roundtrip:
  assumes "base64_laws encode decode" and "dotenv_keeps dotenv" and "config_valid c"
  shows "from_env dotenv decode (env_of [] encode c) = Inr c \<and>
         from_env dotenv decode (env_of (lit ''base64:'') encode c) = Inr c"
  using assms by (simp add: from_env_env_of)

theorem config_roundtrip_witness:
  "from_env id base64_decode (env_of (lit ''base64:'') base64_encode demo_config) = Inr demo_config"
  using config_roundtrip [OF base64_encode_laws dotenv_keeps_id demo_config_valid] by simp

end
