(* ===== verification/Server_World.thy ===== *)
theory Server_World
  imports Config "HOL-Library.State_Monad" "HOL-Library.Sublist"
begin

text \<open>
  The state the server's handlers share, and its effects as a state monad: the two database
  tables of \<^verbatim>\<open>totp-server/migrations/0001_init.sql\<close>, the migrations that the database records as
  applied and the relations that exist in it, the introspections in flight, the checks
  made on the rate limiter and the lines logged so far. Whatever the program reads from outside
  (random numbers, clocks, network and database failures) is a function of \<open>tick\<close>, which every
  such reading advances; a claim over all such functions is a claim over all runs.
\<close>

section \<open>Model\<close>

record secret_row =
  encrypted_secret :: bytes
  nonce :: bytes
  created_at :: nat
  last_used_at :: "nat option"

record log_row =
  log_id :: nat
  log_subject :: "ustr option"
  requested_at :: nat
  log_result :: ustr

record world =
  tick :: nat
  totp_secrets :: "ustr \<rightharpoonup> secret_row"
  request_log :: "log_row list"
  inflight :: "bytes \<rightharpoonup> nat"
  limiter_log :: "(ustr \<times> nat) list"
  trace :: "log_line list"
  migrations :: "nat list"
  relations :: "ustr list"

type_synonym 'a server = "(world, 'a) state"

text \<open>The state of a first start: the migrations have created empty tables.\<close>

definition world_init :: world where
  "world_init =
     \<lparr>tick = 0, totp_secrets = Map.empty, request_log = [], inflight = Map.empty,
      limiter_log = [], trace = [], migrations = [1],
      relations = [lit ''totp_secrets'', lit ''request_log'', lit ''request_log_subject_time_idx'']\<rparr>"

definition draw :: "(nat \<Rightarrow> 'a) \<Rightarrow> 'a server" where
  "draw f = State (\<lambda>w. (f (tick w), w\<lparr>tick := Suc (tick w)\<rparr>))"

definition emit :: "log_line \<Rightarrow> unit server" where
  "emit l = State (\<lambda>w. ((), w\<lparr>trace := trace w @ [l]\<rparr>))"

definition update :: "(world \<Rightarrow> world) \<Rightarrow> unit server" where
  "update f = State (\<lambda>w. ((), f w))"

text \<open>The \<open>?\<close> operator on an effect.\<close>

definition try_then ::
  "('e, 'a) result server \<Rightarrow> ('a \<Rightarrow> ('e, 'b) result server) \<Rightarrow> ('e, 'b) result server" where
  "try_then m f = do { r \<leftarrow> m; case r of Inl e \<Rightarrow> State_Monad.return (Inl e) | Inr a \<Rightarrow> f a }"

lemma run_draw [simp]: "run_state (draw f) w = (f (tick w), w\<lparr>tick := Suc (tick w)\<rparr>)"
  by (simp add: draw_def)

lemma run_emit [simp]: "run_state (emit l) w = ((), w\<lparr>trace := trace w @ [l]\<rparr>)"
  by (simp add: emit_def)

lemma run_update [simp]: "run_state (update f) w = ((), f w)"
  by (simp add: update_def)

lemma run_try_then [simp]:
  "run_state (try_then m f) w =
     (case run_state m w of (r, w') \<Rightarrow>
        (case r of Inl e \<Rightarrow> (Inl e, w') | Inr a \<Rightarrow> run_state (f a) w'))"
  by (auto simp: try_then_def split: sum.splits prod.splits)

section \<open>What operations leave alone\<close>

text \<open>
  A relation between the state before and after an effect that holds of doing nothing and of
  doing one thing after another holds of every composition of effects for which it holds.
\<close>

locale effect_relation =
  fixes R :: "world \<Rightarrow> world \<Rightarrow> bool"
  assumes R_refl: "R w w" and R_trans: "R w w' \<Longrightarrow> R w' w'' \<Longrightarrow> R w w''"
begin

lemma keeps_return: "state_io_rel R (State_Monad.return a)"
  by (auto simp: state_io_rel_def R_refl)

lemma keeps_bind:
  "state_io_rel R m \<Longrightarrow> (\<And>a. state_io_rel R (f a)) \<Longrightarrow> state_io_rel R (State_Monad.bind m f)"
  by (auto simp: state_io_rel_def split: prod.splits) (metis R_trans snd_conv)

lemma keeps_try_then:
  "state_io_rel R m \<Longrightarrow> (\<And>a. state_io_rel R (f a)) \<Longrightarrow> state_io_rel R (try_then m f)"
  unfolding try_then_def
  by (rule keeps_bind) (auto intro: keeps_return split: sum.splits)

lemma keeps_run: "state_io_rel R m \<Longrightarrow> run_state m w = (r, w') \<Longrightarrow> R w w'"
  by (metis state_io_relD)

end

text \<open>The audit table, the log and the schema only grow, and time only passes.\<close>

definition extends :: "world \<Rightarrow> world \<Rightarrow> bool" where
  "extends w w' \<longleftrightarrow>
     prefix (request_log w) (request_log w') \<and> prefix (trace w) (trace w') \<and> tick w \<le> tick w' \<and>
     prefix (migrations w) (migrations w') \<and> prefix (relations w) (relations w')"

definition same_secrets :: "world \<Rightarrow> world \<Rightarrow> bool" where
  "same_secrets w w' \<longleftrightarrow> totp_secrets w' = totp_secrets w"

definition same_inflight :: "world \<Rightarrow> world \<Rightarrow> bool" where
  "same_inflight w w' \<longleftrightarrow> inflight w' = inflight w"

definition same_audit :: "world \<Rightarrow> world \<Rightarrow> bool" where
  "same_audit w w' \<longleftrightarrow> request_log w' = request_log w"

interpretation audit: effect_relation extends
  by unfold_locales (auto simp: extends_def)

lemma drop_prefix_mono: "prefix xs ys \<Longrightarrow> set (drop n xs) \<subseteq> set (drop n ys)"
  by (auto simp: prefix_def)

text \<open>What is new between two states is new between an earlier and a later one.\<close>

lemma extends_news:
  assumes "extends w w1" and "extends w2 w'"
  shows "set (drop (length (request_log w1)) (request_log w2)) \<subseteq> set (drop (length (request_log w)) (request_log w'))"
    and "set (drop (length (trace w1)) (trace w2)) \<subseteq> set (drop (length (trace w)) (trace w'))"
  using assms drop_prefix_mono set_drop_subset_set_drop prefix_length_le
  unfolding extends_def by (metis subset_trans)+

interpretation vault: effect_relation same_secrets
  by unfold_locales (auto simp: same_secrets_def)

interpretation flights: effect_relation same_inflight
  by unfold_locales (auto simp: same_inflight_def)

interpretation unaudited: effect_relation same_audit
  by unfold_locales (auto simp: same_audit_def)

lemma draw_effects [frame_simps]:
  "state_io_rel extends (draw f)" "state_io_rel same_secrets (draw f)"
  "state_io_rel same_inflight (draw f)" "state_io_rel same_audit (draw f)"
  by (auto simp: state_io_rel_def extends_def same_secrets_def same_inflight_def same_audit_def)

lemma emit_effects [frame_simps]:
  "state_io_rel extends (emit l)" "state_io_rel same_secrets (emit l)"
  "state_io_rel same_inflight (emit l)" "state_io_rel same_audit (emit l)"
  by (auto simp: state_io_rel_def extends_def same_secrets_def same_inflight_def same_audit_def)

lemmas effect_intros =
  audit.keeps_return audit.keeps_bind audit.keeps_try_then
  vault.keeps_return vault.keeps_bind vault.keeps_try_then
  flights.keeps_return flights.keeps_bind flights.keeps_try_then
  unaudited.keeps_return unaudited.keeps_bind unaudited.keeps_try_then

end
