(* ===== verification/Crypto.thy ===== *)
theory Crypto
  imports Server_World
begin

text \<open>
  Encryption of secrets at rest (\<^verbatim>\<open>totp-server/src/crypto.rs\<close>). AES-256-GCM is the \<open>aes_gcm\<close>
  crate, a record of two functions here; what the server relies on is \<open>aead_laws\<close>.
\<close>

section \<open>Model\<close>

text \<open>Key, nonce and text to text; \<open>None\<close> is the crate's error.\<close>

record aead =
  seal :: "bytes \<Rightarrow> bytes \<Rightarrow> bytes \<Rightarrow> bytes option"
  open_sealed :: "bytes \<Rightarrow> bytes \<Rightarrow> bytes \<Rightarrow> bytes option"
  gen_nonce :: "nat \<Rightarrow> bytes"

record crypto =
  cipher_key :: bytes

definition NONCE_LEN :: nat where
  "NONCE_LEN = 12"

definition crypto_new :: "bytes \<Rightarrow> crypto" where
  "crypto_new k = \<lparr>cipher_key = k\<rparr>"

definition crypto_debug :: "crypto \<Rightarrow> ustr" where
  "crypto_debug self = lit ''Crypto(<redacted>)''"

definition encrypt ::
  "aead \<Rightarrow> crypto \<Rightarrow> bytes \<Rightarrow> (app_error, bytes \<times> bytes) result server" where
  "encrypt A self plaintext = do {
     n \<leftarrow> draw (gen_nonce A);
     State_Monad.return
       (case seal A (cipher_key self) n plaintext of
          None \<Rightarrow> Inl (Internal (Msg (lit ''failed to encrypt secret'')))
        | Some ciphertext \<Rightarrow> Inr (ciphertext, n))
   }"

definition decrypt :: "aead \<Rightarrow> crypto \<Rightarrow> bytes \<Rightarrow> bytes \<Rightarrow> (app_error, bytes) result" where
  "decrypt A self ciphertext n =
     (if length n = NONCE_LEN
      then (case open_sealed A (cipher_key self) n ciphertext of
              None \<Rightarrow> Inl (Internal (Msg (lit ''failed to decrypt stored secret'')))
            | Some plaintext \<Rightarrow> Inr plaintext)
      else Inl (Internal (Msg (lit ''stored nonce has the wrong length: '' @ show_nat (length n)))))"

section \<open>Lemmas\<close>

text \<open>
  What AES-GCM promises: nonces have 96 bits, decryption undoes encryption, and whatever
  decrypts under a key and a nonce was encrypted under them.
\<close>

definition aead_laws :: "aead \<Rightarrow> bool" where
  "aead_laws A \<longleftrightarrow>
     (\<forall>t. length (gen_nonce A t) = NONCE_LEN) \<and>
     (\<forall>k n p c. open_sealed A k n c = Some p \<longleftrightarrow> seal A k n p = Some c)"

lemma run_encrypt:
  "run_state (encrypt A self p) w =
     ((case seal A (cipher_key self) (gen_nonce A (tick w)) p of
         None \<Rightarrow> Inl (Internal (Msg (lit ''failed to encrypt secret'')))
       | Some c \<Rightarrow> Inr (c, gen_nonce A (tick w))),
      w\<lparr>tick := Suc (tick w)\<rparr>)"
  by (simp add: encrypt_def)

lemma encrypt_effects [frame_simps]:
  "state_io_rel extends (encrypt A self p)" "state_io_rel same_secrets (encrypt A self p)"
  "state_io_rel same_inflight (encrypt A self p)" "state_io_rel same_audit (encrypt A self p)"
  unfolding encrypt_def
  by (auto intro!: effect_intros frame_simps)

lemma decrypt_ok:
  "decrypt A self c n = Inr p \<longleftrightarrow>
     length n = NONCE_LEN \<and> open_sealed A (cipher_key self) n c = Some p"
  by (auto simp: decrypt_def split: option.splits)

lemma encrypt_ok:
  "aead_laws A \<Longrightarrow> run_state (encrypt A self p) w = (Inr (c, n), w') \<Longrightarrow>
     length n = NONCE_LEN \<and> seal A (cipher_key self) n p = Some c"
  by (auto simp: run_encrypt aead_laws_def split: option.splits)

text \<open>What was encrypted can be decrypted with the nonce it was encrypted under.\<close>

lemma decrypt_encrypt:
  "aead_laws A \<Longrightarrow> run_state (encrypt A self p) w = (Inr (c, n), w') \<Longrightarrow> decrypt A self c n = Inr p"
  using encrypt_ok [of A self p w c n w'] by (auto simp: decrypt_ok aead_laws_def)

section \<open>A concrete cipher\<close>

text \<open>A cipher for examples: the nonce and the key in front of the text.\<close>

definition demo_aead :: aead where
  "demo_aead =
     \<lparr>seal = (\<lambda>k n p. Some (n @ k @ p)),
      open_sealed = (\<lambda>k n c. if take (length n + length k) c = n @ k
                             then Some (drop (length n + length k) c) else None),
      gen_nonce = (\<lambda>t. replicate 12 (of_nat t))\<rparr>"

lemma demo_aead_laws: "aead_laws demo_aead"
proof -
  have "take (length n + length k) c = n @ k \<and> drop (length n + length k) c = p \<longleftrightarrow>
      n @ k @ p = c" for n k p c :: bytes
    by (metis append_assoc append_eq_conv_conj length_append append_take_drop_id)
  then show ?thesis by (auto simp: aead_laws_def demo_aead_def NONCE_LEN_def)
qed

end
