(* ===== verification/Secret_Store.thy ===== *)
theory Secret_Store
  imports Crypto
begin

text \<open>
  The database layer (\<^verbatim>\<open>totp-server/src/totp/secret_store.rs\<close>): the encrypted secrets by
  subject and the audit table. PostgreSQL and \<open>sqlx\<close> are outside: the statements of the source
  are functions on the tables, and any statement may fail, before or after it took effect.
\<close>

section \<open>Model\<close>

datatype request_result = Issued | DeniedInactiveToken | DeniedNoSecret | RateLimitedResult | Provisioned

fun as_str :: "request_result \<Rightarrow> ustr" where
  "as_str Issued = lit ''issued''"
| "as_str DeniedInactiveToken = lit ''denied_inactive_token''"
| "as_str DeniedNoSecret = lit ''denied_no_secret''"
| "as_str RateLimitedResult = lit ''rate_limited''"
| "as_str Provisioned = lit ''provisioned''"

text \<open>
  The database at each tick: a failure of the connection with its text and whether the
  statement had been carried out by then, and the server time. \<open>new_v4\<close> is the generator of
  random row ids.
\<close>

record db =
  sqlx_fault :: "nat \<Rightarrow> (ustr \<times> bool) option"
  pg_now :: "nat \<Rightarrow> nat"
  new_v4 :: "nat \<Rightarrow> nat"

record secret_store =
  crypto_of :: crypto

definition secret_store_new :: "crypto \<Rightarrow> secret_store" where
  "secret_store_new c = \<lparr>crypto_of = c\<rparr>"

text \<open>
  A statement sees the server time and the tables; it gives an error of the database or a
  value, and the new tables.
\<close>

definition execute ::
  "db \<Rightarrow> (nat \<Rightarrow> world \<Rightarrow> (ustr, 'a) result \<times> world) \<Rightarrow> (ustr, 'a) result server" where
  "execute D stmt = do {
     t \<leftarrow> draw (\<lambda>t. t);
     w \<leftarrow> State_Monad.get;
     let (r, w') = stmt (pg_now D t) w;
     case sqlx_fault D t of
       None \<Rightarrow> do { update (\<lambda>_. w'); State_Monad.return r }
     | Some (err, carried_out) \<Rightarrow> do {
         update (\<lambda>w. if carried_out then w' else w);
         State_Monad.return (Inl err)
       }
   }"

definition select_secret ::
  "ustr \<Rightarrow> nat \<Rightarrow> world \<Rightarrow> (ustr, (bytes \<times> bytes) option) result \<times> world" where
  "select_secret subj now w =
     (Inr (map_option (\<lambda>r. (encrypted_secret r, nonce r)) (totp_secrets w subj)), w)"

definition upsert_secret ::
  "ustr \<Rightarrow> bytes \<Rightarrow> bytes \<Rightarrow> nat \<Rightarrow> world \<Rightarrow> (ustr, unit) result \<times> world" where
  "upsert_secret subj ct n now w =
     (Inr (),
      w\<lparr>totp_secrets := (totp_secrets w)(subj \<mapsto>
          (case totp_secrets w subj of
             None \<Rightarrow> \<lparr>encrypted_secret = ct, nonce = n, created_at = now, last_used_at = None\<rparr>
           | Some row \<Rightarrow>
               row\<lparr>encrypted_secret := ct, nonce := n, created_at := now, last_used_at := None\<rparr>))\<rparr>)"

definition update_last_used :: "ustr \<Rightarrow> nat \<Rightarrow> world \<Rightarrow> (ustr, unit) result \<times> world" where
  "update_last_used subj now w =
     (Inr (),
      (case totp_secrets w subj of
         None \<Rightarrow> w
       | Some row \<Rightarrow> w\<lparr>totp_secrets := (totp_secrets w)(subj \<mapsto> row\<lparr>last_used_at := Some now\<rparr>)\<rparr>))"

text \<open>\<open>id\<close> is the primary key of the audit table: a second row with it is an error.\<close>

definition insert_log ::
  "nat \<Rightarrow> ustr option \<Rightarrow> ustr \<Rightarrow> nat \<Rightarrow> world \<Rightarrow> (ustr, unit) result \<times> world" where
  "insert_log uuid subj res now w =
     (if uuid \<in> log_id ` set (request_log w)
      then (Inl (lit ''duplicate key value violates unique constraint''), w)
      else (Inr (),
            w\<lparr>request_log := request_log w @
                [\<lparr>log_id = uuid, log_subject = subj, requested_at = now, log_result = res\<rparr>]\<rparr>))"

definition secret_get ::
  "aead \<Rightarrow> db \<Rightarrow> secret_store \<Rightarrow> ustr \<Rightarrow> (app_error, bytes option) result server" where
  "secret_get A D self subj = do {
     row \<leftarrow> execute D (select_secret subj);
     State_Monad.return
       (and_then (map_err from_sqlx row) (\<lambda>row.
          case row of
            None \<Rightarrow> Inr None
          | Some (ct, n) \<Rightarrow> and_then (decrypt A (crypto_of self) ct n) (\<lambda>p. Inr (Some p))))
   }"

definition secret_upsert ::
  "aead \<Rightarrow> db \<Rightarrow> secret_store \<Rightarrow> ustr \<Rightarrow> bytes \<Rightarrow> (app_error, unit) result server" where
  "secret_upsert A D self subj secret =
     try_then (encrypt A (crypto_of self) secret) (\<lambda>(ct, n). do {
       r \<leftarrow> execute D (upsert_secret subj ct n);
       State_Monad.return (map_err from_sqlx r)
     })"

definition touch_last_used ::
  "db \<Rightarrow> secret_store \<Rightarrow> ustr \<Rightarrow> (app_error, unit) result server" where
  "touch_last_used D self subj = do {
     r \<leftarrow> execute D (update_last_used subj);
     State_Monad.return (map_err from_sqlx r)
   }"

definition log_request ::
  "db \<Rightarrow> secret_store \<Rightarrow> ustr option \<Rightarrow> request_result \<Rightarrow> unit server" where
  "log_request D self subj res = do {
     uuid \<leftarrow> draw (new_v4 D);
     outcome \<leftarrow> execute D (insert_log uuid subj (as_str res));
     case outcome of
       Inr _ \<Rightarrow> State_Monad.return ()
     | Inl err \<Rightarrow> emit
         \<lparr>level = Error,
          log_fields =
            [(lit ''subject'', Display (case subj of None \<Rightarrow> lit ''<unauthenticated>'' | Some s \<Rightarrow> s)),
             (lit ''result'', Display (as_str res)),
             (lit ''error'', DebugOf (Wrapped err))],
          message = lit ''failed to write the audit log entry''\<rparr>
   }"

section \<open>Lemmas\<close>

lemma run_execute:
  "run_state (execute D stmt) w =
     (let (r, w') = stmt (pg_now D (tick w)) (w\<lparr>tick := Suc (tick w)\<rparr>) in
      case sqlx_fault D (tick w) of
        None \<Rightarrow> (r, w')
      | Some (err, carried_out) \<Rightarrow> (Inl err, if carried_out then w' else w\<lparr>tick := Suc (tick w)\<rparr>))"
  by (simp add: execute_def Let_def split: prod.splits option.splits)

text \<open>An effect of every statement's table function is an effect of executing it.\<close>

lemma execute_effect:
  assumes "\<And>w now. R w (w\<lparr>tick := Suc (tick w)\<rparr>)" and "\<And>w w' w''. R w w' \<Longrightarrow> R w' w'' \<Longrightarrow> R w w''"
    and "\<And>w now. R w (snd (stmt now w))"
  shows "state_io_rel R (execute D stmt)"
proof -
  have "R w (snd (stmt now (w\<lparr>tick := Suc (tick w)\<rparr>)))" for w now
    using assms by blast
  with assms(1) show ?thesis
    by (auto simp: state_io_rel_def run_execute Let_def split: prod.splits option.splits) (metis snd_conv)+
qed

lemma select_secret_same [simp]: "snd (select_secret subj now w) = w"
  by (simp add: select_secret_def)

lemma statement_frames [simp]:
  "request_log (snd (upsert_secret subj ct n now w)) = request_log w"
  "trace (snd (upsert_secret subj ct n now w)) = trace w"
  "tick (snd (upsert_secret subj ct n now w)) = tick w"
  "inflight (snd (upsert_secret subj ct n now w)) = inflight w"
  "request_log (snd (update_last_used subj now w)) = request_log w"
  "trace (snd (update_last_used subj now w)) = trace w"
  "tick (snd (update_last_used subj now w)) = tick w"
  "inflight (snd (update_last_used subj now w)) = inflight w"
  "totp_secrets (snd (insert_log uuid s r now w)) = totp_secrets w"
  "inflight (snd (insert_log uuid s r now w)) = inflight w"
  "trace (snd (insert_log uuid s r now w)) = trace w"
  "tick (snd (insert_log uuid s r now w)) = tick w"
  "prefix (request_log w) (request_log (snd (insert_log uuid s r now w)))"
  "migrations (snd (upsert_secret subj ct n now w)) = migrations w"
  "relations (snd (upsert_secret subj ct n now w)) = relations w"
  "migrations (snd (update_last_used subj now w)) = migrations w"
  "relations (snd (update_last_used subj now w)) = relations w"
  "migrations (snd (insert_log uuid s r now w)) = migrations w"
  "relations (snd (insert_log uuid s r now w)) = relations w"
  by (simp_all add: upsert_secret_def update_last_used_def insert_log_def split: option.splits)

lemma store_extends [frame_simps]:
  "state_io_rel extends (execute D (select_secret subj))"
  "state_io_rel extends (execute D (upsert_secret subj ct n))"
  "state_io_rel extends (execute D (update_last_used subj))"
  "state_io_rel extends (execute D (insert_log uuid s r))"
  by (rule execute_effect; force simp: extends_def)+

lemma store_inflight [frame_simps]:
  "state_io_rel same_inflight (execute D (select_secret subj))"
  "state_io_rel same_inflight (execute D (upsert_secret subj ct n))"
  "state_io_rel same_inflight (execute D (update_last_used subj))"
  "state_io_rel same_inflight (execute D (insert_log uuid s r))"
  by (rule execute_effect; simp add: same_inflight_def)+

lemma store_secrets [frame_simps]:
  "state_io_rel same_secrets (execute D (select_secret subj))"
  "state_io_rel same_secrets (execute D (insert_log uuid s r))"
  by (rule execute_effect; simp add: same_secrets_def)+

lemma store_audit [frame_simps]:
  "state_io_rel same_audit (execute D (select_secret subj))"
  "state_io_rel same_audit (execute D (upsert_secret subj ct n))"
  "state_io_rel same_audit (execute D (update_last_used subj))"
  by (rule execute_effect; simp add: same_audit_def)+

lemma secret_get_effects [frame_simps]:
  "state_io_rel extends (secret_get A D self subj)"
  "state_io_rel same_secrets (secret_get A D self subj)"
  "state_io_rel same_inflight (secret_get A D self subj)"
  "state_io_rel same_audit (secret_get A D self subj)"
  unfolding secret_get_def by (auto intro!: effect_intros frame_simps)

lemma secret_upsert_effects [frame_simps]:
  "state_io_rel extends (secret_upsert A D self subj secret)"
  "state_io_rel same_inflight (secret_upsert A D self subj secret)"
  "state_io_rel same_audit (secret_upsert A D self subj secret)"
  unfolding secret_upsert_def by (auto intro!: effect_intros frame_simps split: prod.splits)

lemma touch_effects [frame_simps]:
  "state_io_rel extends (touch_last_used D self subj)"
  "state_io_rel same_inflight (touch_last_used D self subj)"
  "state_io_rel same_audit (touch_last_used D self subj)"
  unfolding touch_last_used_def by (auto intro!: effect_intros frame_simps)

lemma log_request_effects [frame_simps]:
  "state_io_rel extends (log_request D self subj res)"
  "state_io_rel same_secrets (log_request D self subj res)"
  "state_io_rel same_inflight (log_request D self subj res)"
  unfolding log_request_def by (auto intro!: effect_intros frame_simps split: sum.splits)

section \<open>The contract of the store\<close>

text \<open>
  What the handlers rely on: a map from subjects to secrets. An operation that fails may still
  have written, but never anything else than what it was asked to write.
\<close>

locale secret_vault =
  fixes get :: "ustr \<Rightarrow> (app_error, bytes option) result server"
    and put :: "ustr \<Rightarrow> bytes \<Rightarrow> (app_error, unit) result server"
    and contents :: "world \<Rightarrow> ustr \<Rightarrow> bytes option"
    and ok :: "world \<Rightarrow> bool"
  assumes get_returns: "ok w \<Longrightarrow> run_state (get s) w = (Inr v, w') \<Longrightarrow> v = contents w s"
    and get_keeps: "ok w \<Longrightarrow> run_state (get s) w = (r, w') \<Longrightarrow> ok w' \<and> contents w' = contents w"
    and put_stores: "ok w \<Longrightarrow> run_state (put s p) w = (Inr (), w') \<Longrightarrow>
      ok w' \<and> contents w' = (contents w)(s \<mapsto> p)"
    and put_fails: "ok w \<Longrightarrow> run_state (put s p) w = (Inl e, w') \<Longrightarrow>
      ok w' \<and> (contents w' = contents w \<or> contents w' = (contents w)(s \<mapsto> p))"
begin

lemma put_get:
  "ok w \<Longrightarrow> run_state (put s p) w = (Inr (), w1) \<Longrightarrow> run_state (get s') w1 = (Inr v, w2) \<Longrightarrow>
     v = (if s' = s then Some p else contents w s')"
  using put_stores [of w s p w1] get_returns [of w1 s' v w2] by simp

lemma put_other:
  "ok w \<Longrightarrow> run_state (put s p) w = (r, w1) \<Longrightarrow> s' \<noteq> s \<Longrightarrow> contents w1 s' = contents w s'"
  using put_stores [of w s p w1] put_fails [of w s p _ w1] by (cases r) auto

lemma put_ok: "ok w \<Longrightarrow> run_state (put s p) w = (r, w1) \<Longrightarrow> ok w1"
  using put_stores [of w s p w1] put_fails [of w s p _ w1] by (cases r) auto

end

definition row_secret :: "aead \<Rightarrow> secret_store \<Rightarrow> secret_row \<Rightarrow> bytes option" where
  "row_secret A self row =
     (case decrypt A (crypto_of self) (encrypted_secret row) (nonce row) of
        Inl _ \<Rightarrow> None | Inr p \<Rightarrow> Some p)"

text \<open>The secrets the tables hold, and that every row can be decrypted.\<close>

definition vault_of :: "aead \<Rightarrow> secret_store \<Rightarrow> world \<Rightarrow> ustr \<Rightarrow> bytes option" where
  "vault_of A self w subj = Option.bind (totp_secrets w subj) (row_secret A self)"

definition vault_ok :: "aead \<Rightarrow> secret_store \<Rightarrow> world \<Rightarrow> bool" where
  "vault_ok A self w \<longleftrightarrow>
     aead_laws A \<and> (\<forall>subj row. totp_secrets w subj = Some row \<longrightarrow> row_secret A self row \<noteq> None)"

lemma row_secret_Some:
  "row_secret A self row = Some p \<longleftrightarrow>
     decrypt A (crypto_of self) (encrypted_secret row) (nonce row) = Inr p"
  by (simp add: row_secret_def split: sum.splits)

lemma row_secret_touch [simp]: "row_secret A self (row\<lparr>last_used_at := t\<rparr>) = row_secret A self row"
  by (simp add: row_secret_def)

lemma vault_same_secrets:
  "same_secrets w w' \<Longrightarrow> vault_of A self w' = vault_of A self w \<and> (vault_ok A self w' \<longleftrightarrow> vault_ok A self w)"
  by (simp add: same_secrets_def vault_of_def vault_ok_def fun_eq_iff)

lemma vault_tick [simp]:
  "vault_of A self (w\<lparr>tick := t\<rparr>) = vault_of A self w"
  "vault_ok A self (w\<lparr>tick := t\<rparr>) \<longleftrightarrow> vault_ok A self w"
  by (simp_all add: vault_of_def vault_ok_def fun_eq_iff)

lemma vault_upsert:
  assumes "decrypt A (crypto_of self) ct n = Inr p"
  shows "vault_of A self (snd (upsert_secret subj ct n now w)) = (vault_of A self w)(subj \<mapsto> p)"
    and "vault_ok A self w \<Longrightarrow> vault_ok A self (snd (upsert_secret subj ct n now w))"
  using assms
  by (auto simp: vault_of_def vault_ok_def upsert_secret_def row_secret_def fun_eq_iff
      split: option.splits)

lemma vault_touch:
  "vault_of A self (snd (update_last_used subj now w)) = vault_of A self w"
  "vault_ok A self (snd (update_last_used subj now w)) \<longleftrightarrow> vault_ok A self w"
  by (auto simp: vault_of_def vault_ok_def update_last_used_def fun_eq_iff split: option.splits)

lemma secret_get_returns:
  assumes "vault_ok A self w" and "run_state (secret_get A D self subj) w = (Inr v, w')"
  shows "v = vault_of A self w subj"
  using assms
  by (auto simp: secret_get_def run_execute select_secret_def vault_of_def row_secret_def Let_def
      split: option.splits prod.splits sum.splits)

lemma secret_get_keeps:
  assumes "vault_ok A self w" and "run_state (secret_get A D self subj) w = (r, w')"
  shows "vault_ok A self w' \<and> vault_of A self w' = vault_of A self w"
  using vault.keeps_run [OF secret_get_effects(2) assms(2)] assms(1) vault_same_secrets by metis

text \<open>What \<open>upsert\<close> did, by its result.\<close>

lemma secret_upsert_cases:
  assumes "vault_ok A self w" and "run_state (secret_upsert A D self subj p) w = (r, w')"
  shows "vault_ok A self w' \<and>
    (vault_of A self w' = (vault_of A self w)(subj \<mapsto> p) \<or>
     r \<noteq> Inr () \<and> vault_of A self w' = vault_of A self w)"
proof -
  obtain r1 w1 where enc: "run_state (encrypt A (crypto_of self) p) w = (r1, w1)" by fastforce
  then have w1: "w1 = w\<lparr>tick := Suc (tick w)\<rparr>" by (simp add: run_encrypt)
  show ?thesis
  proof (cases r1)
    case (Inl e)
    with assms enc w1 show ?thesis by (auto simp: secret_upsert_def)
  next
    case (Inr cn)
    obtain ct n where cn: "cn = (ct, n)" by fastforce
    from assms(1) have "aead_laws A" by (simp add: vault_ok_def)
    with enc Inr cn have "decrypt A (crypto_of self) ct n = Inr p" by (auto dest: decrypt_encrypt)
    note facts = vault_upsert [OF this, where w = "w1\<lparr>tick := Suc (tick w1)\<rparr>" and subj = subj]
    have "vault_ok A self w1" "vault_of A self w1 = vault_of A self w" using w1 assms(1) by simp_all
    with facts assms(2) enc Inr cn show ?thesis
      by (auto simp: secret_upsert_def run_execute Let_def
          split: option.splits prod.splits if_splits; metis snd_conv)
  qed
qed

lemma touch_keeps:
  assumes "run_state (touch_last_used D self subj) w = (r, w')"
  shows "vault_of A st w' = vault_of A st w \<and> (vault_ok A st w' \<longleftrightarrow> vault_ok A st w)"
  using assms vault_touch [where A = A and self = st]
  by (auto simp: touch_last_used_def run_execute Let_def
      split: option.splits prod.splits if_splits; metis snd_conv vault_tick)

interpretation store: secret_vault "secret_get A D self" "secret_upsert A D self"
  "vault_of A self" "vault_ok A self"
proof unfold_locales
  show "v = vault_of A self w s"
    if "vault_ok A self w" "run_state (secret_get A D self s) w = (Inr v, w')" for w s v w'
    using that by (rule secret_get_returns)
  show "vault_ok A self w' \<and> vault_of A self w' = vault_of A self w"
    if "vault_ok A self w" "run_state (secret_get A D self s) w = (r, w')" for w s r w'
    using that by (rule secret_get_keeps)
  show "vault_ok A self w' \<and> vault_of A self w' = (vault_of A self w)(s \<mapsto> p)"
    if "vault_ok A self w" "run_state (secret_upsert A D self s p) w = (Inr (), w')" for w s p w'
    using secret_upsert_cases [OF that] by auto
  show "vault_ok A self w' \<and>
      (vault_of A self w' = vault_of A self w \<or> vault_of A self w' = (vault_of A self w)(s \<mapsto> p))"
    if "vault_ok A self w" "run_state (secret_upsert A D self s p) w = (Inl e, w')" for w s p e w'
    using secret_upsert_cases [OF that] by auto
qed

text \<open>Operations that leave the stored secrets as they are.\<close>

definition same_vault :: "aead \<Rightarrow> secret_store \<Rightarrow> world \<Rightarrow> world \<Rightarrow> bool" where
  "same_vault A self w w' \<longleftrightarrow>
     vault_of A self w' = vault_of A self w \<and> (vault_ok A self w \<longrightarrow> vault_ok A self w')"

interpretation contents: effect_relation "same_vault A self"
  by unfold_locales (auto simp: same_vault_def)

lemma same_vault_of_secrets: "state_io_rel same_secrets m \<Longrightarrow> state_io_rel (same_vault A self) m"
  unfolding state_io_rel_def same_vault_def using vault_same_secrets by metis

lemma same_vault_store [frame_simps]:
  "state_io_rel (same_vault A self) (draw f)"
  "state_io_rel (same_vault A self) (emit l)"
  "state_io_rel (same_vault A self) (secret_get A D st subj)"
  "state_io_rel (same_vault A self) (log_request D st s r)"
  by (auto intro!: same_vault_of_secrets frame_simps)

lemma same_vault_touch [frame_simps]: "state_io_rel (same_vault A self) (touch_last_used D st subj)"
  using touch_keeps [OF prod.collapse [symmetric]] by (simp add: state_io_rel_def same_vault_def)

lemmas vault_intros = contents.keeps_return contents.keeps_bind contents.keeps_try_then

section \<open>The audit table\<close>

text \<open>The row of a call of \<open>log_request\<close> in the state \<open>w\<close>, and the line of a failed one.\<close>

definition audit_row :: "db \<Rightarrow> world \<Rightarrow> ustr option \<Rightarrow> request_result \<Rightarrow> log_row" where
  "audit_row D w subj res =
     \<lparr>log_id = new_v4 D (tick w), log_subject = subj, requested_at = pg_now D (Suc (tick w)),
      log_result = as_str res\<rparr>"

definition audit_lost :: "ustr option \<Rightarrow> request_result \<Rightarrow> log_line \<Rightarrow> bool" where
  "audit_lost subj res l \<longleftrightarrow>
     level l = Error \<and> message l = lit ''failed to write the audit log entry'' \<and>
     take 2 (log_fields l) =
       [(lit ''subject'', Display (case subj of None \<Rightarrow> lit ''<unauthenticated>'' | Some s \<Rightarrow> s)),
        (lit ''result'', Display (as_str res))]"

definition audit_writes :: "db \<Rightarrow> world \<Rightarrow> bool" where
  "audit_writes D w \<longleftrightarrow>
     sqlx_fault D (Suc (tick w)) = None \<and> new_v4 D (tick w) \<notin> log_id ` set (request_log w)"

lemma run_log_request:
  assumes "run_state (log_request D self subj res) w = (u, w')"
  shows "(request_log w' = request_log w @ [audit_row D w subj res] \<or> request_log w' = request_log w) \<and>
     (trace w' = trace w \<and> request_log w' \<noteq> request_log w \<or>
      (\<exists>l. trace w' = trace w @ [l] \<and> audit_lost subj res l))"
  using assms
  by (auto simp: log_request_def run_execute insert_log_def audit_row_def audit_lost_def Let_def
      split: option.splits if_splits sum.splits prod.splits)

lemma run_log_request_writes:
  "audit_writes D w \<Longrightarrow>
     run_state (log_request D self subj res) w =
       ((), w\<lparr>tick := tick w + 2, request_log := request_log w @ [audit_row D w subj res]\<rparr>)"
  by (auto simp: log_request_def run_execute insert_log_def audit_row_def audit_writes_def)

definition distinct_ids :: "world \<Rightarrow> bool" where
  "distinct_ids w \<longleftrightarrow> distinct (map log_id (request_log w))"

lemma log_request_distinct:
  "run_state (log_request D self subj res) w = (u, w') \<Longrightarrow> distinct_ids w \<Longrightarrow> distinct_ids w'"
  by (auto simp: log_request_def run_execute insert_log_def distinct_ids_def Let_def
      split: option.splits if_splits sum.splits prod.splits)

section \<open>Properties\<close>

text \<open>
  C21. The store is a map from subjects to secrets: after a successful \<open>upsert\<close>, \<open>get\<close> returns
  the new secret for its subject and what was stored before for every other one; \<open>get\<close> changes
  nothing; a failed \<open>upsert\<close> leaves the old secret or the new one, never a row that cannot be
  decrypted, and never touches another subject.
\<close>

theorem secret_store_refines_map:
  assumes "vault_ok A self w"
  shows "(\<forall>w1 s' v w2. run_state (secret_upsert A D self s p) w = (Inr (), w1) \<longrightarrow>
        run_state (secret_get A D self s') w1 = (Inr v, w2) \<longrightarrow>
        v = (if s' = s then Some p else vault_of A self w s') \<and>
        vault_of A self w2 = (vault_of A self w)(s \<mapsto> p)) \<and>
     (\<forall>e w1. run_state (secret_upsert A D self s p) w = (Inl e, w1) \<longrightarrow>
        vault_of A self w1 = vault_of A self w \<or>
        vault_of A self w1 = (vault_of A self w)(s \<mapsto> p)) \<and>
     vault_ok A self (snd (run_state (secret_upsert A D self s p) w)) \<and>
     vault_ok A self (snd (run_state (secret_get A D self s) w)) \<and>
     vault_ok A self (snd (run_state (touch_last_used D self s) w))"
proof (intro conjI allI impI)
  fix w1 s' v w2
  assume put: "run_state (secret_upsert A D self s p) w = (Inr (), w1)"
    and get: "run_state (secret_get A D self s') w1 = (Inr v, w2)"
  show "v = (if s' = s then Some p else vault_of A self w s')"
    using store.put_get [OF assms put get] .
  show "vault_of A self w2 = (vault_of A self w)(s \<mapsto> p)"
    using store.put_stores [OF assms put] store.get_keeps [OF _ get] by simp
next
  fix e w1
  assume "run_state (secret_upsert A D self s p) w = (Inl e, w1)"
  then show "vault_of A self w1 = vault_of A self w \<or>
      vault_of A self w1 = (vault_of A self w)(s \<mapsto> p)"
    using store.put_fails [OF assms] by blast
next
  show "vault_ok A self (snd (run_state (secret_upsert A D self s p) w))"
    using store.put_ok [OF assms prod.collapse [symmetric]] .
  show "vault_ok A self (snd (run_state (secret_get A D self s) w))"
    using store.get_keeps [OF assms prod.collapse [symmetric]] by blast
  show "vault_ok A self (snd (run_state (touch_last_used D self s) w))"
    using touch_keeps [OF prod.collapse [symmetric]] assms by blast
qed

definition demo_db :: db where
  "demo_db = \<lparr>sqlx_fault = (\<lambda>_. None), pg_now = (\<lambda>t. 1000 + t), new_v4 = (\<lambda>t. t)\<rparr>"

definition demo_store :: secret_store where
  "demo_store = secret_store_new (crypto_new [1, 2])"

lemma demo_vault_ok: "vault_ok demo_aead demo_store world_init"
  by (simp add: vault_ok_def demo_aead_laws world_init_def)

theorem secret_store_refines_map_witness:
  "\<exists>w1 w2. run_state (secret_upsert demo_aead demo_db demo_store [97] [7]) world_init = (Inr (), w1) \<and>
     run_state (secret_get demo_aead demo_db demo_store [97]) w1 = (Inr (Some [7]), w2)"
proof -
  obtain w1 where put: "run_state (secret_upsert demo_aead demo_db demo_store [97] [7]) world_init = (Inr (), w1)"
    by (simp add: secret_upsert_def run_encrypt run_execute demo_aead_def demo_db_def upsert_secret_def)
  then obtain v w2 where get: "run_state (secret_get demo_aead demo_db demo_store [97]) w1 = (Inr v, w2)"
    by (auto simp: secret_upsert_def secret_get_def run_encrypt run_execute demo_aead_def demo_db_def
        upsert_secret_def select_secret_def decrypt_def NONCE_LEN_def world_init_def)
  have "v = Some [7]"
    using secret_store_refines_map [OF demo_vault_ok, of demo_db "[97]" "[7]"] put get by fastforce
  with put get show ?thesis by blast
qed

text \<open>
  Writing the audit trail is best effort and append only: \<open>log_request\<close> always returns, adds
  at most the row with the given subject and result at the end of the table, touches nothing
  else of the database, reports in the log whenever no row was added, keeps row ids distinct,
  and does add the row when the statement does not fail and the id is new.
\<close>

theorem log_request_best_effort:
  assumes "run_state (log_request D self subj res) w = (u, w')"
  shows "totp_secrets w' = totp_secrets w \<and>
    (request_log w' = request_log w @ [audit_row D w subj res] \<or>
     request_log w' = request_log w \<and> (\<exists>l. trace w' = trace w @ [l] \<and> audit_lost subj res l)) \<and>
    (distinct_ids w \<longrightarrow> distinct_ids w') \<and>
    (audit_writes D w \<longrightarrow>
       request_log w' = request_log w @ [audit_row D w subj res] \<and> trace w' = trace w)"
  using run_log_request [OF assms] log_request_distinct [OF assms] assms
    vault.keeps_run [OF log_request_effects(2) assms] run_log_request_writes [of D w self subj res]
  by (auto simp: same_secrets_def)

theorem log_request_best_effort_witness:
  "\<exists>w'. run_state (log_request demo_db demo_store None DeniedInactiveToken) world_init = ((), w') \<and>
     request_log w' = [audit_row demo_db world_init None DeniedInactiveToken]"
proof -
  have "audit_writes demo_db world_init" by (simp add: audit_writes_def demo_db_def world_init_def)
  moreover obtain w' where
    "run_state (log_request demo_db demo_store None DeniedInactiveToken) world_init = ((), w')"
    by (metis (full_types) old.unit.exhaust prod.exhaust)
  ultimately show ?thesis
    using log_request_best_effort [of demo_db demo_store None DeniedInactiveToken world_init "()" w']
    by (auto simp: world_init_def)
qed

end
