(* ===== verification/Totp_Server.thy ===== *)
theory Totp_Server
  imports Secret_Store
begin

text \<open>
  Generation of PINs and secrets (\<^verbatim>\<open>totp-server/src/totp/mod.rs\<close>). The \<open>totp_rs\<close> crate is a
  record of functions; the server relies on \<open>totp_laws\<close>.
\<close>

section \<open>Model\<close>

datatype algorithm = SHA1

definition ALGORITHM :: algorithm where
  "ALGORITHM = SHA1"

definition SERVER_DIGITS :: u8 where
  "SERVER_DIGITS = 6"

definition SERVER_STEP_SECONDS :: u64 where
  "SERVER_STEP_SECONDS = 30"

definition ISSUER :: ustr where
  "ISSUER = lit ''urheilulaatikko''"

record generated_pin =
  pin :: ustr
  valid_for_seconds :: u64

text \<open>What is set on a \<open>Builder\<close>; a \<open>Totp\<close> is a builder that \<open>build\<close> accepted.\<close>

record totp_builder =
  b_algorithm :: algorithm
  b_digits :: u8
  b_step_duration :: u64
  b_secret :: bytes
  b_issuer :: "ustr option"
  b_account_name :: ustr

record totp_rs =
  builder_build :: "totp_builder \<Rightarrow> (ustr, totp_builder) result"
  totp_generate :: "totp_builder \<Rightarrow> u64 \<Rightarrow> ustr"
  totp_to_url :: "totp_builder \<Rightarrow> (ustr, ustr) result"
  secret_to_base32 :: "bytes \<Rightarrow> ustr"
  secret_generate :: "nat \<Rightarrow> bytes"

definition generator :: "totp_rs \<Rightarrow> bytes \<Rightarrow> ustr \<Rightarrow> (app_error, totp_builder) result" where
  "generator T secret account_name =
     map_err (\<lambda>e. Internal (Msg (lit ''invalid TOTP parameters: '' @ e)))
       (builder_build T
          \<lparr>b_algorithm = ALGORITHM, b_digits = SERVER_DIGITS, b_step_duration = SERVER_STEP_SECONDS,
           b_secret = secret, b_issuer = Some ISSUER, b_account_name = account_name\<rparr>)"

definition generate_at :: "totp_rs \<Rightarrow> bytes \<Rightarrow> u64 \<Rightarrow> (app_error, generated_pin) result" where
  "generate_at T secret now =
     and_then (generator T secret (lit ''user'')) (\<lambda>totp.
       Inr \<lparr>pin = totp_generate T totp now,
            valid_for_seconds = SERVER_STEP_SECONDS - now mod SERVER_STEP_SECONDS\<rparr>)"

text \<open>
  \<open>unix_now\<close> from the seconds of the system clock since the epoch; \<open>None\<close> is the panic of a
  clock before it.
\<close>

definition unix_now :: "int \<Rightarrow> u64 option" where
  "unix_now system_time = (if system_time < 0 then None else Some (of_int system_time))"

definition generate :: "totp_rs \<Rightarrow> int \<Rightarrow> bytes \<Rightarrow> (app_error, generated_pin) result option" where
  "generate T system_time secret = map_option (generate_at T secret) (unix_now system_time)"

record provisioned_secret =
  raw :: bytes
  secret_base32 :: ustr
  otpauth_url :: ustr

definition totp_provision :: "totp_rs \<Rightarrow> ustr \<Rightarrow> (app_error, provisioned_secret) result server" where
  "totp_provision T account_name = do {
     secret \<leftarrow> draw (secret_generate T);
     State_Monad.return
       (and_then (generator T secret account_name) (\<lambda>totp.
        and_then (map_err (\<lambda>e. Internal (Msg (lit ''could not build the otpauth URL: '' @ e)))
                    (totp_to_url T totp)) (\<lambda>url.
        Inr \<lparr>raw = secret, secret_base32 = secret_to_base32 T secret, otpauth_url = url\<rparr>)))
   }"

section \<open>Lemmas\<close>

text \<open>
  A secret made at tick \<open>t\<close>, with the base32 text and the URL that stand for it.
\<close>

definition fresh_secret :: "totp_rs \<Rightarrow> ustr \<Rightarrow> nat \<Rightarrow> provisioned_secret \<Rightarrow> bool" where
  "fresh_secret T acct t p \<longleftrightarrow>
     raw p = secret_generate T t \<and> secret_base32 p = secret_to_base32 T (raw p) \<and>
     (\<exists>totp. generator T (raw p) acct = Inr totp \<and> totp_to_url T totp = Inr (otpauth_url p))"

lemma totp_provision_fresh:
  "run_state (totp_provision T acct) w = (Inr p, w') \<Longrightarrow>
     fresh_secret T acct (tick w) p \<and> w' = w\<lparr>tick := Suc (tick w)\<rparr>"
  by (auto simp: totp_provision_def fresh_secret_def)

lemma fresh_secret_raw: "fresh_secret T acct t p \<Longrightarrow> raw p = secret_generate T t"
  by (simp add: fresh_secret_def)

text \<open>
  What the crate documents: a code is determined by algorithm, digits, step, secret and the
  number of the step, so not by issuer and account name; it is padded to the number of digits.
\<close>

definition totp_laws :: "totp_rs \<Rightarrow> bool" where
  "totp_laws T \<longleftrightarrow>
     (\<forall>b b'. builder_build T b = Inr b' \<longrightarrow> b' = b) \<and>
     (\<forall>b b' t t'. b_algorithm b = b_algorithm b' \<longrightarrow> b_digits b = b_digits b' \<longrightarrow>
        b_step_duration b = b_step_duration b' \<longrightarrow> b_secret b = b_secret b' \<longrightarrow>
        t div b_step_duration b = t' div b_step_duration b \<longrightarrow>
        totp_generate T b t = totp_generate T b' t') \<and>
     (\<forall>b t. length (totp_generate T b t) = unat (b_digits b) \<and>
        list_all (\<lambda>c. 48 \<le> c \<and> c \<le> 57) (totp_generate T b t))"

definition pin_builder :: "bytes \<Rightarrow> totp_builder" where
  "pin_builder secret =
     \<lparr>b_algorithm = SHA1, b_digits = 6, b_step_duration = 30, b_secret = secret,
      b_issuer = Some ISSUER, b_account_name = lit ''user''\<rparr>"

lemma generate_at_ok:
  "generate_at T secret now = Inr g \<longleftrightarrow>
     (\<exists>b. builder_build T (pin_builder secret) = Inr b \<and>
       g = \<lparr>pin = totp_generate T b now, valid_for_seconds = 30 - now mod 30\<rparr>)"
  by (auto simp: generate_at_def generator_def pin_builder_def ALGORITHM_def SERVER_DIGITS_def
      SERVER_STEP_SECONDS_def)

lemma generate_at_pin:
  assumes "totp_laws T" and "generate_at T secret now = Inr g"
  shows "pin g = totp_generate T (pin_builder secret) now" and "length (pin g) = 6"
    and "list_all (\<lambda>c. 48 \<le> c \<and> c \<le> 57) (pin g)"
proof -
  obtain b where "builder_build T (pin_builder secret) = Inr b"
      "g = \<lparr>pin = totp_generate T b now, valid_for_seconds = 30 - now mod 30\<rparr>"
    using assms(2) by (auto simp: generate_at_ok)
  moreover have "\<forall>b b'. builder_build T b = Inr b' \<longrightarrow> b' = b"
    using assms(1) unfolding totp_laws_def by blast
  ultimately show pin: "pin g = totp_generate T (pin_builder secret) now" by auto
  have "length (totp_generate T b now) = unat (b_digits b)"
    "list_all (\<lambda>c. 48 \<le> c \<and> c \<le> 57) (totp_generate T b now)" for b
    using assms(1) unfolding totp_laws_def by blast+
  then show "length (pin g) = 6" "list_all (\<lambda>c. 48 \<le> c \<and> c \<le> 57) (pin g)"
    by (simp_all add: pin pin_builder_def)
qed

lemma unat_add_room:
  "unat (a :: u64) + d < 2 ^ 64 \<Longrightarrow> unat (a + of_nat d) = unat a + d"
  by (simp add: unat_word_ariths unsigned_of_nat take_bit_nat_eq_self)

lemma unat_remaining: "unat (30 - now mod 30 :: u64) = 30 - unat now mod 30"
proof -
  have "unat (now mod 30) = unat now mod 30" by (simp add: unat_mod_distrib)
  moreover have "now mod 30 \<le> 30"
    using calculation by (simp add: word_le_nat_alt)
  ultimately show ?thesis by (simp add: unat_sub)
qed

lemma step_same:
  fixes n d :: nat
  assumes "d < 30 - n mod 30"
  shows "(n + d) mod 30 = n mod 30 + d" and "(n + d) div 30 = n div 30"
proof -
  have "(n + d) mod 30 = (n mod 30 + d) mod 30" by (simp add: mod_simps)
  then show "(n + d) mod 30 = n mod 30 + d" using assms by simp
  have "n + d = 30 * (n div 30) + (n mod 30 + d)" by simp
  then show "(n + d) div 30 = n div 30"
    using assms by (metis div_mult_self4 div_less less_diff_conv add.commute add_0 zero_neq_numeral)
qed

lemma step_next:
  fixes n d :: nat
  assumes "d = 30 - n mod 30"
  shows "(n + d) mod 30 = 0" and "(n + d) div 30 = n div 30 + 1"
proof -
  have "n mod 30 + d = 30" using assms by simp
  then have "n + d = 30 * (n div 30 + 1)"
    by (metis add.assoc distrib_left mult.right_neutral mult_div_mod_eq)
  then show "(n + d) mod 30 = 0" "(n + d) div 30 = n div 30 + 1" by simp_all
qed

lemma totp_provision_effects [frame_simps]:
  "state_io_rel extends (totp_provision T acct)" "state_io_rel same_secrets (totp_provision T acct)"
  "state_io_rel same_inflight (totp_provision T acct)" "state_io_rel same_audit (totp_provision T acct)"
  unfolding totp_provision_def by (auto intro!: effect_intros frame_simps)

section \<open>A generator for examples\<close>

text \<open>The number of the step in decimal.\<close>

definition demo_totp_rs :: totp_rs where
  "demo_totp_rs =
     \<lparr>builder_build = Inr,
      totp_generate = (\<lambda>b t. map (\<lambda>i. 48 + unat (t div b_step_duration b) div 10 ^ i mod 10)
                                  (rev [0..<unat (b_digits b)])),
      totp_to_url = (\<lambda>b. Inr (lit ''otpauth://totp/'' @ b_account_name b)),
      secret_to_base32 = (\<lambda>bs. map unat bs),
      secret_generate = (\<lambda>t. replicate 20 (of_nat t))\<rparr>"

lemma demo_totp_laws: "totp_laws demo_totp_rs"
proof -
  have "48 + n mod 10 \<le> (57 :: nat)" for n by (simp add: less_Suc_eq_le [symmetric])
  then show ?thesis by (auto simp: totp_laws_def demo_totp_rs_def list_all_iff)
qed

end
