(* ===== verification/Rfc6238.thy ===== *)
theory Rfc6238
  imports Sha1 Base_Encoding Totp_Verify Totp_Server
begin

text \<open>
  RFC 6238 as a concrete function, written from the standard, with the test vectors the
  repository's tests use. It gives both third-party code generators, the lock's \<open>totp_embed\<close> and
  the server's \<open>totp_rs\<close>, an instance that satisfies everything the development asks of them; the
  integration tests' independent implementation \<open>expected_pin\<close>
  (\<^verbatim>\<open>totp-server/tests/e2e_integration.rs\<close>) is the reference both are compared with. The last section
  says which of these codes the server's PIN is, and until when.
\<close>

section \<open>Model\<close>

text \<open>The dynamic truncation of RFC 4226.\<close>

definition hotp_truncate :: "bytes \<Rightarrow> u32" where
  "hotp_truncate digest =
     (let offset = unat (last digest AND 0x0f) in
      from_be_bytes (take 4 (drop offset digest)) AND 0x7fffffff)"

definition rfc6238 :: "bytes \<Rightarrow> u64 \<Rightarrow> u32" where
  "rfc6238 key counter = hotp_truncate (hmac_sha1 key (to_be_bytes 8 counter))"

text \<open>The last \<open>n\<close> decimal digits of a number, padded with zeros.\<close>

definition padded :: "nat \<Rightarrow> nat \<Rightarrow> ustr" where
  "padded n v = map (\<lambda>i. 48 + v div 10 ^ i mod 10) (rev [0..<n])"

text \<open>
  \<open>expected_pin\<close> of the integration tests; HMAC and base32 decoding are third-party there.
  \<open>None\<close> is the panic on a secret that is not base32.
\<close>

definition expected_pin ::
  "(bytes \<Rightarrow> bytes \<Rightarrow> bytes) \<Rightarrow> (ustr \<Rightarrow> bytes option) \<Rightarrow> ustr \<Rightarrow> u64 \<Rightarrow> ustr option" where
  "expected_pin hmac decode32 text unix_time =
     (case decode32 text of
        None \<Rightarrow> None
      | Some key \<Rightarrow>
          let digest = hmac key (to_be_bytes 8 (unix_time div 30));
              offset = unat (last digest AND 0x0f);
              value = from_be_bytes (take 4 (drop offset digest)) AND 0x7fffffff
          in Some (padded 6 (unat (value mod 1000000))))"

text \<open>The two generators as instances of RFC 6238.\<close>

definition rfc_totp_custom :: totp_fn where
  "rfc_totp_custom step ds secret t = ucast (rfc6238 secret (t div step)) mod 10 ^ unat ds"

definition rfc_totp_rs :: totp_rs where
  "rfc_totp_rs =
     \<lparr>builder_build = Inr,
      totp_generate = (\<lambda>b t. padded (unat (b_digits b)) (unat (rfc6238 (b_secret b) (t div b_step_duration b)))),
      totp_to_url = (\<lambda>b. Inr (lit ''otpauth://totp/'' @
        (case b_issuer b of None \<Rightarrow> [] | Some i \<Rightarrow> i @ lit '':'') @ b_account_name b @
        lit ''?secret='' @ base32_encode (b_secret b) @
        (case b_issuer b of None \<Rightarrow> [] | Some i \<Rightarrow> lit ''&issuer='' @ i))),
      secret_to_base32 = base32_encode,
      secret_generate = (\<lambda>t. map (\<lambda>i. of_nat (t + i)) [0..<20])\<rparr>"

section \<open>The instances keep the laws\<close>

lemma padded_digits: "list_all (\<lambda>c. 48 \<le> c \<and> c \<le> 57) (padded n v)"
proof -
  have "48 + m mod 10 \<le> (57 :: nat)" for m by (simp add: less_Suc_eq_le [symmetric])
  then show ?thesis by (auto simp: padded_def list_all_iff)
qed

lemma length_padded [simp]: "length (padded n v) = n"
  by (simp add: padded_def)

lemma rfc_step_determined: "step_determined rfc_totp_custom"
  by (auto simp: step_determined_def rfc_totp_custom_def)

lemma rfc_totp_laws: "totp_laws rfc_totp_rs"
  by (auto simp: totp_laws_def rfc_totp_rs_def padded_digits)

lemma padded_mod: "padded n (v mod 10 ^ n) = padded n v"
proof -
  have "v mod 10 ^ n div 10 ^ i mod 10 = v div 10 ^ i mod 10" if "i < n" for i
  proof -
    have "(10 :: nat) ^ n = 10 ^ i * 10 ^ (n - i)" using that by (simp flip: power_add)
    then have "v mod 10 ^ n div 10 ^ i = v div 10 ^ i mod 10 ^ (n - i)"
      by (simp add: mod_mult2_eq)
    moreover have "(10 :: nat) dvd 10 ^ (n - i)" using that by (simp add: dvd_power)
    ultimately show ?thesis by (simp add: mod_mod_cancel)
  qed
  then show ?thesis by (simp add: padded_def)
qed

text \<open>The server's generator is the tests' independent implementation.\<close>

lemma rfc_generate_expected:
  assumes "decode s = Some secret"
  shows "expected_pin hmac_sha1 decode s t = Some (totp_generate rfc_totp_rs (pin_builder secret) t)"
proof -
  have "unat (rfc6238 secret (t div 30) mod 1000000) = unat (rfc6238 secret (t div 30)) mod 10 ^ 6"
    by (simp add: unat_mod_distrib)
  then have "padded 6 (unat (rfc6238 secret (t div 30) mod 1000000)) =
      padded 6 (unat (rfc6238 secret (t div 30)))"
    by (simp only: padded_mod)
  then show ?thesis
    using assms by (simp add: expected_pin_def rfc_totp_rs_def pin_builder_def rfc6238_def
        hotp_truncate_def Let_def)
qed

section \<open>Test vectors\<close>

definition rfc_secret :: bytes where
  "rfc_secret = map of_char ''12345678901234567890''"

definition other_secret :: bytes where
  "other_secret = map of_char ''09876543210987654321''"

lemma rfc6238_eval:
  assumes "sha1_first (map (\<lambda>b. b XOR 0x36) (hmac_key key)) = inner"
    and "sha1_first (map (\<lambda>b. b XOR 0x5c) (hmac_key key)) = outer"
    and "sha1_second inner (to_be_bytes 8 counter) = h" and "sha1_second outer (sha1_output h) = h'"
    and "hotp_truncate (sha1_output h') = v"
  shows "rfc6238 key counter = v"
  using hmac_sha1_eval [OF _ assms(1-4)] assms(5) by (simp add: rfc6238_def)

lemma rfc_pads:
  "sha1_first (map (\<lambda>b. b XOR 0x36) (hmac_key rfc_secret)) =
     (0xcbc80c8c, 0xf599e2ac, 0xbdb8c832, 0xda95c1c3, 0xf8683025)"
  "sha1_first (map (\<lambda>b. b XOR 0x5c) (hmac_key rfc_secret)) =
     (0x98bdbdcd, 0x58e07bfe, 0xad5cddea, 0x3ac0430b, 0xfe106825)"
  by code_simp+

lemma rfc6238_step_0_hash:
  "sha1_second (0xcbc80c8c, 0xf599e2ac, 0xbdb8c832, 0xda95c1c3, 0xf8683025) (to_be_bytes 8 (0 :: u64)) =
     (0x0891d9be, 0x09bb16c7, 0xc8722df3, 0x68d86350, 0x667e499e)"
  "sha1_second (0x98bdbdcd, 0x58e07bfe, 0xad5cddea, 0x3ac0430b, 0xfe106825) (sha1_output (0x0891d9be, 0x09bb16c7, 0xc8722df3, 0x68d86350, 0x667e499e)) =
     (0xcc93cf18, 0x508d9493, 0x4c64b65d, 0x8ba7667f, 0xb7cde4b0)"
  by code_simp+

lemma rfc6238_step_0: "rfc6238 rfc_secret 0 = 1284755224"
  by (rule rfc6238_eval [OF rfc_pads rfc6238_step_0_hash]) code_simp

lemma rfc6238_step_1_hash:
  "sha1_second (0xcbc80c8c, 0xf599e2ac, 0xbdb8c832, 0xda95c1c3, 0xf8683025) (to_be_bytes 8 (1 :: u64)) =
     (0xae398ad2, 0xe539d65c, 0x5da2da9c, 0x8a613441, 0x97393a8c)"
  "sha1_second (0x98bdbdcd, 0x58e07bfe, 0xad5cddea, 0x3ac0430b, 0xfe106825) (sha1_output (0xae398ad2, 0xe539d65c, 0x5da2da9c, 0x8a613441, 0x97393a8c)) =
     (0x75a48a19, 0xd4cbe100, 0x644e8ac1, 0x397eea74, 0x7a2d33ab)"
  by code_simp+

lemma rfc6238_step_1: "rfc6238 rfc_secret 1 = 1094287082"
  by (rule rfc6238_eval [OF rfc_pads rfc6238_step_1_hash]) code_simp

lemma rfc6238_step_2_hash:
  "sha1_second (0xcbc80c8c, 0xf599e2ac, 0xbdb8c832, 0xda95c1c3, 0xf8683025) (to_be_bytes 8 (2 :: u64)) =
     (0xde041357, 0xfcaff991, 0x834f634e, 0x5d2fd13d, 0x8119640b)"
  "sha1_second (0x98bdbdcd, 0x58e07bfe, 0xad5cddea, 0x3ac0430b, 0xfe106825) (sha1_output (0xde041357, 0xfcaff991, 0x834f634e, 0x5d2fd13d, 0x8119640b)) =
     (0x0bacb7fa, 0x082fef30, 0x78221193, 0x8bc1c5e7, 0x0416ff44)"
  by code_simp+

lemma rfc6238_step_2: "rfc6238 rfc_secret 2 = 137359152"
  by (rule rfc6238_eval [OF rfc_pads rfc6238_step_2_hash]) code_simp

lemma rfc6238_step_3_hash:
  "sha1_second (0xcbc80c8c, 0xf599e2ac, 0xbdb8c832, 0xda95c1c3, 0xf8683025) (to_be_bytes 8 (3 :: u64)) =
     (0xc35cbeea, 0x1366cd62, 0x5e901635, 0x7317e7dc, 0x5a53abfa)"
  "sha1_second (0x98bdbdcd, 0x58e07bfe, 0xad5cddea, 0x3ac0430b, 0xfe106825) (sha1_output (0xc35cbeea, 0x1366cd62, 0x5e901635, 0x7317e7dc, 0x5a53abfa)) =
     (0x66c28227, 0xd03a2d55, 0x29262ff0, 0x16a1e6ef, 0x76557ece)"
  by code_simp+

lemma rfc6238_step_3: "rfc6238 rfc_secret 3 = 1726969429"
  by (rule rfc6238_eval [OF rfc_pads rfc6238_step_3_hash]) code_simp

lemma rfc6238_step_37037036_hash:
  "sha1_second (0xcbc80c8c, 0xf599e2ac, 0xbdb8c832, 0xda95c1c3, 0xf8683025) (to_be_bytes 8 (37037036 :: u64)) =
     (0xa6c6e82d, 0x15751dca, 0xc1c6ba17, 0x1fc4b1f3, 0xd10baf9a)"
  "sha1_second (0x98bdbdcd, 0x58e07bfe, 0xad5cddea, 0x3ac0430b, 0xfe106825) (sha1_output (0xa6c6e82d, 0x15751dca, 0xc1c6ba17, 0x1fc4b1f3, 0xd10baf9a)) =
     (0x278c02e5, 0x3610f84c, 0x40bd9135, 0xacd41010, 0x12410a14)"
  by code_simp+

lemma rfc6238_step_37037036: "rfc6238 rfc_secret 37037036 = 907081804"
  by (rule rfc6238_eval [OF rfc_pads rfc6238_step_37037036_hash]) code_simp

lemma other_pads:
  "sha1_first (map (\<lambda>b. b XOR 0x36) (hmac_key other_secret)) =
     (0x965e46ac, 0xc3c0f630, 0xe743fd35, 0xb8f2c09b, 0x24e08bc9)"
  "sha1_first (map (\<lambda>b. b XOR 0x5c) (hmac_key other_secret)) =
     (0x7f4d0161, 0x6b6491ad, 0xba622b64, 0xe58a0e77, 0x26df0fb3)"
  by code_simp+

lemma rfc6238_other_hash:
  "sha1_second (0x965e46ac, 0xc3c0f630, 0xe743fd35, 0xb8f2c09b, 0x24e08bc9) (to_be_bytes 8 (1 :: u64)) =
     (0x35ad180c, 0x3a7af20f, 0xe1ecd24c, 0x418b9320, 0xa1aef3e7)"
  "sha1_second (0x7f4d0161, 0x6b6491ad, 0xba622b64, 0xe58a0e77, 0x26df0fb3) (sha1_output (0x35ad180c, 0x3a7af20f, 0xe1ecd24c, 0x418b9320, 0xa1aef3e7)) =
     (0x8a4e8924, 0x03b4c34e, 0xfe69b32f, 0x7117e923, 0x815f7cb9)"
  by code_simp+

lemma rfc6238_other: "rfc6238 other_secret 1 = 1773350769"
  by (rule rfc6238_eval [OF other_pads rfc6238_other_hash]) code_simp

section \<open>Properties\<close>

text \<open>
  What the crate \<open>totp_rs\<close> documents: \<open>build\<close> keeps the parameters or refuses them, and a code is
  that of RFC 6238 for the secret and the number of the step, padded to the number of digits.
\<close>

definition generates_rfc6238 :: "totp_rs \<Rightarrow> bool" where
  "generates_rfc6238 T \<longleftrightarrow>
     (\<forall>b b'. builder_build T b = Inr b' \<longrightarrow> b' = b) \<and>
     (\<forall>b t. b_algorithm b = SHA1 \<longrightarrow> totp_generate T b t =
        padded (unat (b_digits b)) (unat (rfc6238 (b_secret b) (t div b_step_duration b))))"

lemma rfc_generates: "generates_rfc6238 rfc_totp_rs"
  by (simp add: generates_rfc6238_def rfc_totp_rs_def)

lemma generate_at_rfc:
  assumes "generates_rfc6238 T" and "generate_at T secret now = Inr g"
  shows "generate_at T secret t =
    Inr \<lparr>pin = padded 6 (unat (rfc6238 secret (t div 30))), valid_for_seconds = 30 - t mod 30\<rparr>"
proof -
  obtain b where "builder_build T (pin_builder secret) = Inr b" using assms(2) by (auto simp: generate_at_ok)
  moreover from this have "b = pin_builder secret" using assms(1) by (auto simp: generates_rfc6238_def)
  ultimately show ?thesis
    using assms(1) by (auto simp: generate_at_ok generates_rfc6238_def pin_builder_def)
qed

text \<open>
  C29. A PIN is the six-digit RFC 6238 code of the current step of 30 seconds, and the server says
  how long that step lasts: the remaining time is between 1 and 30 seconds; at every earlier
  moment the server gives the same PIN with the time left reduced accordingly; and at the moment
  the time has run out it gives the code of the next step, good for 30 seconds.
\<close>

theorem pin_good_until_expiry:
  assumes "generates_rfc6238 T" and "generate_at T secret now = Inr g"
    and "d \<le> unat (valid_for_seconds g)" and "unat now + d < 2 ^ 64"
  shows "pin g = padded 6 (unat (rfc6238 secret (now div 30))) \<and>
    1 \<le> unat (valid_for_seconds g) \<and> unat (valid_for_seconds g) \<le> 30 \<and>
    (\<exists>g'. generate_at T secret (now + of_nat d) = Inr g' \<and>
      (if d < unat (valid_for_seconds g)
       then pin g' = pin g \<and> unat (valid_for_seconds g') = unat (valid_for_seconds g) - d
       else pin g' = padded 6 (unat (rfc6238 secret (now div 30 + 1))) \<and> unat (valid_for_seconds g') = 30))"
proof -
  let ?m = "unat now mod 30" and ?then = "now + of_nat d"
  note at = generate_at_rfc [OF assms(1,2)]
  have g: "pin g = padded 6 (unat (rfc6238 secret (now div 30)))" "unat (valid_for_seconds g) = 30 - ?m"
    using assms(2) at [of now] by (auto simp: unat_remaining)
  have later: "unat ?then = unat now + d" using unat_add_room [OF assms(4)] .
  then have rem: "unat (30 - ?then mod 30) = 30 - (unat now + d) mod 30" by (simp only: unat_remaining)
  have step: "unat (?then div 30) = (unat now + d) div 30" by (simp add: unat_div_distrib later)
  have "?m < 30" by simp
  then have m: "Suc 0 \<le> 30 - ?m" "30 - ?m \<le> 30" by linarith+
  show ?thesis
  proof (cases "d < 30 - ?m")
    case True
    have "?then div 30 = now div 30"
      using step step_same(2) [OF True] by (simp add: word_unat_eq_iff unat_div_distrib)
    then show ?thesis using at [of ?then] g rem step_same(1) [OF True] m True by simp
  next
    case False
    then have d: "d = 30 - ?m" using assms(3) g(2) by simp
    have "unat (now div 30 + 1) = unat now div 30 + 1"
      using unat_add_room [of "now div 30" 1] assms(4) by (simp add: unat_div_distrib)
    then have "?then div 30 = now div 30 + 1"
      using step step_next(2) [OF d] by (simp add: word_unat_eq_iff)
    then show ?thesis using at [of ?then] g rem step_next(1) [OF d] m d by simp
  qed
qed

text \<open>The RFC's secret at 59 seconds, one second before the third step.\<close>

theorem pin_good_until_expiry_witness:
  "\<exists>g g'. generate_at rfc_totp_rs rfc_secret 59 = Inr g \<and> pin g = lit ''287082'' \<and> unat (valid_for_seconds g) = 1 \<and>
     generate_at rfc_totp_rs rfc_secret 60 = Inr g' \<and> pin g' = lit ''359152'' \<and> unat (valid_for_seconds g') = 30"
proof -
  obtain g where g: "generate_at rfc_totp_rs rfc_secret 59 = Inr g"
    by (auto simp: generate_at_ok rfc_totp_rs_def)
  have codes: "padded 6 (unat (rfc6238 rfc_secret 1)) = lit ''287082''" "padded 6 (unat (rfc6238 rfc_secret 2)) = lit ''359152''"
    by (simp_all add: rfc6238_step_1 rfc6238_step_2 padded_def lit_def upt_rec)
  have v: "unat (valid_for_seconds g) = 1"
    using g generate_at_rfc [OF rfc_generates g, of 59] by (auto simp: unat_remaining)
  from pin_good_until_expiry [OF rfc_generates g, of 1] g v codes show ?thesis by simp
qed

end
