(* ===== verification/Sim_Tests.thy ===== *)
theory Sim_Tests
  imports Relock_Timing Rfc6238
begin

text \<open>
  The simulated integration tests of the firmware (\<^verbatim>\<open>lock-client/firmware/sim\<close>): the generator of
  scripts that play a keypad on the two data lines (\<open>wiegand_script.py\<close>) and the two scenarios that
  are run with them (\<open>run_sim_tests.py\<close>). The emulator is third-party. What is used of it is that it
  runs the firmware and drives the lines at the times of the script: a run is given by the times
  of the loop's passes, which are arbitrary up to the pace stated in \<open>paced\<close>, and is a run of the step
  relation of \<open>Firmware\<close>. Times are microseconds.
\<close>

section \<open>The script\<close>

definition D0_PIN :: nat where
  "D0_PIN = 2"

definition D1_PIN :: nat where
  "D1_PIN = 3"

definition PULSE_WIDTH :: duration where
  "PULSE_WIDTH = 50"

definition BIT_INTERVAL :: duration where
  "BIT_INTERVAL = 2000"

definition INTER_NIBBLE_GAP :: duration where
  "INTER_NIBBLE_GAP = 40000"

definition ENTER :: nat where
  "ENTER = 11"

text \<open>A line of a script: a pin is driven low or high, or the run ends.\<close>

datatype action = Gpio nat bool | Stop

type_synonym script = "(instant \<times> action) list"

definition nibble_bits :: "nat \<Rightarrow> bool list" where
  "nibble_bits v = [v div 8 mod 2 = 1, v div 4 mod 2 = 1, v div 2 mod 2 = 1, v mod 2 = 1]"

text \<open>\<open>None\<close> is the failed assertion.\<close>

definition keys_for_code :: "ustr \<Rightarrow> nat list option" where
  "keys_for_code code =
     (if length code = 6 \<and> list_all (\<lambda>c. 48 \<le> c \<and> c \<le> 57) code
      then Some (map (\<lambda>c. c - 48) code @ [ENTER]) else None)"

fun bit_lines :: "instant \<Rightarrow> bool list \<Rightarrow> script \<times> instant" where
  "bit_lines t [] = ([], t)"
| "bit_lines t (b # bs) =
     (let line = (if b then D1_PIN else D0_PIN);
          (lines, t') = bit_lines (t + BIT_INTERVAL) bs
      in ((t, Gpio line False) # (t + PULSE_WIDTH, Gpio line True) # lines, t'))"

fun key_lines :: "instant \<Rightarrow> nat list \<Rightarrow> script \<times> instant" where
  "key_lines t [] = ([], t)"
| "key_lines t (v # vs) =
     (let (lines, t1) = bit_lines t (nibble_bits v);
          (more, t2) = key_lines (t1 + INTER_NIBBLE_GAP) vs
      in (lines @ more, t2))"

definition generate_script :: "ustr \<Rightarrow> instant \<Rightarrow> (script \<times> instant) option" where
  "generate_script code start_at = map_option (key_lines start_at) (keys_for_code code)"

definition write_script :: "ustr \<Rightarrow> instant \<Rightarrow> instant \<Rightarrow> (script \<times> instant) option" where
  "write_script code start_at stop_at =
     map_option (\<lambda>(lines, end_at). (lines @ [(stop_at, Stop)], end_at)) (generate_script code start_at)"

section \<open>A run\<close>

text \<open>A pin driven low is a falling edge on its line, for which the firmware listens.\<close>

definition drive :: "nat \<Rightarrow> bool \<Rightarrow> instant \<Rightarrow> firmware \<Rightarrow> firmware" where
  "drive line high t s =
     (if high then s\<lparr>now := t\<rparr>
      else s\<lparr>capture := gpio_edges (line = D0_PIN) (line = D1_PIN) t t (capture s), now := t\<rparr>)"

definition pass_at :: "totp_fn \<Rightarrow> instant \<Rightarrow> firmware \<Rightarrow> firmware option" where
  "pass_at tc p s = main_pass tc (s\<lparr>now := p, phase := AtPoll\<rparr>)"

text \<open>
  The script played against the firmware whose loop passes at the times given, with the changes
  of the relay's pin that the waveform shows. \<open>None\<close> is a panic of the firmware or a list of passes
  that ends before the run.
\<close>

fun play :: "totp_fn \<Rightarrow> instant list \<Rightarrow> script \<Rightarrow> firmware \<Rightarrow> (firmware \<times> (instant \<times> bool) list) option" where
  "play tc (p # ps) ((t, a) # acts) s =
     (if t \<le> p
      then (case a of Stop \<Rightarrow> Some (s, []) | Gpio line high \<Rightarrow> play tc (p # ps) acts (drive line high t s))
      else Option.bind (pass_at tc p s) (\<lambda>s'.
             map_option (map_prod id (\<lambda>tr.
               if relay_high (bolt s') = relay_high (bolt s) then tr else (p, relay_high (bolt s')) # tr))
             (play tc ps ((t, a) # acts) s')))"
| "play tc [] acts s = None"
| "play tc ps [] s = None"

definition run_emulator ::
  "totp_fn \<Rightarrow> instant list \<Rightarrow> script \<Rightarrow> instant \<Rightarrow> firmware \<Rightarrow> (firmware \<times> (instant \<times> bool) list) option" where
  "run_emulator tc passes script max_time s =
     play tc passes (takeWhile (\<lambda>(t, _). t < max_time) script @ [(max_time, Stop)]) s"

text \<open>
  The pace of the loop: after the delay of 5 ms a pass comes at most 12 ms late, which is what
  the script's 40 ms of silence leave room for beside the message gap of 25 ms.
\<close>

fun paced :: "instant list \<Rightarrow> bool" where
  "paced (p # q # ps) = (p + 5000 \<le> q \<and> q \<le> p + 17000 \<and> paced (q # ps))"
| "paced _ = True"

section \<open>The two scenarios\<close>

definition sim_totp :: "bytes \<Rightarrow> nat \<Rightarrow> ustr" where
  "sim_totp sec unix_time = padded 6 (unat (rfc6238 sec (of_nat (unix_time div 30))) mod 10 ^ 6)"

definition code_value :: "ustr \<Rightarrow> nat" where
  "code_value p = foldl (\<lambda>a c. 10 * a + (c - 48)) 0 p"

definition correct_code :: "nat \<Rightarrow> ustr" where
  "correct_code build_epoch = sim_totp SECRET (build_epoch + 1)"

definition wrong_code :: "nat \<Rightarrow> ustr" where
  "wrong_code build_epoch = padded 6 ((code_value (correct_code build_epoch) + 1) mod 10 ^ 6)"

definition unlocked_on_schedule :: "string list \<Rightarrow> (instant \<times> bool) list \<Rightarrow> bool" where
  "unlocked_on_schedule output transitions \<longleftrightarrow>
     ''access granted'' \<in> set output \<and>
     (case transitions of
        [(a, True), (b, False)] \<Rightarrow> \<bar>int b - int a - 5000000\<bar> \<le> 50000
      | _ \<Rightarrow> False)"

definition never_unlocked :: "string list \<Rightarrow> (instant \<times> bool) list \<Rightarrow> bool" where
  "never_unlocked output transitions \<longleftrightarrow>
     ''access denied'' \<in> set output \<and> ''access granted'' \<notin> set output \<and> transitions = []"

definition correct_code_scenario :: "totp_fn \<Rightarrow> instant list \<Rightarrow> nat \<Rightarrow> firmware \<Rightarrow> bool" where
  "correct_code_scenario tc passes build_epoch s =
     (case write_script (correct_code build_epoch) 500000 7500000 of
        None \<Rightarrow> False
      | Some (script, entry_end) \<Rightarrow>
          (case run_emulator tc passes script (entry_end + 6500000) s of
             None \<Rightarrow> False
           | Some (s', transitions) \<Rightarrow> unlocked_on_schedule (console s') transitions))"

definition wrong_code_scenario :: "totp_fn \<Rightarrow> instant list \<Rightarrow> nat \<Rightarrow> firmware \<Rightarrow> bool" where
  "wrong_code_scenario tc passes build_epoch s =
     (case write_script (wrong_code build_epoch) 500000 3000000 of
        None \<Rightarrow> False
      | Some (script, entry_end) \<Rightarrow>
          (case run_emulator tc passes script 3000000 s of
             None \<Rightarrow> False
           | Some (s', transitions) \<Rightarrow> never_unlocked (console s') transitions))"

section \<open>A run is a run of the firmware\<close>

text \<open>Between two events of a run the main thread is at the head of its loop or in its delay.\<close>

definition resting :: "firmware \<Rightarrow> bool" where
  "resting s \<longleftrightarrow> phase s = AtPoll \<or> (\<exists>since. phase s = AtDelay since)"

text \<open>The next pass comes when the delay is over, not before now and at most 17 ms from now.\<close>

definition timely :: "instant list \<Rightarrow> firmware \<Rightarrow> bool" where
  "timely ps s \<longleftrightarrow> fw_inv s \<and> resting s \<and> paced ps \<and>
     (\<exists>p ps'. ps = p # ps' \<and> now s \<le> p \<and> p \<le> now s + 17000 \<and> (\<forall>since. phase s = AtDelay since \<longrightarrow> since + 5000 \<le> p))"

lemma drive_step:
  assumes "now s \<le> t"
  shows "fw_step tc s (drive line high t s)"
proof (cases high)
  case True
  with fw_step.tick [OF assms, of tc] show ?thesis by (simp add: drive_def)
next
  case False
  with fw_step.edges [OF assms order_refl, of tc "line = D0_PIN" "line = D1_PIN"] show ?thesis by (simp add: drive_def)
qed

lemma timely_drive:
  assumes "timely (p # ps) s" and "now s \<le> t" and "t \<le> p"
  shows "timely (p # ps) (drive line high t s)"
  using assms fw_inv_step [OF drive_step [OF assms(2)]] by (auto simp: timely_def resting_def drive_def)

lemma timely_head: "timely (p # ps) s \<Longrightarrow> now s \<le> p" "timely (p # ps) s \<Longrightarrow> p \<le> now s + 17000"
  "timely (p # ps) s \<Longrightarrow> fw_inv s"
  by (auto simp: timely_def)

lemma wake_steps:
  assumes "timely (p # ps) s"
  shows "(fw_step tc)\<^sup>*\<^sup>* s (s\<lparr>now := p, phase := AtPoll\<rparr>)"
proof (cases "phase s = AtPoll")
  case True
  then have "s\<lparr>now := p, phase := AtPoll\<rparr> = s\<lparr>now := p\<rparr>" by simp
  with fw_step.tick [OF timely_head(1) [OF assms], of tc] show ?thesis by auto
next
  case False
  with assms obtain since where "phase s = AtDelay since" "since + 5000 \<le> p" by (auto simp: timely_def resting_def)
  with fw_step.delay [of s since p tc] timely_head(1) [OF assms] show ?thesis by (auto simp: POLL_INTERVAL_MS_def)
qed

lemma pass_at_works:
  assumes "timely (p # ps) s"
  obtains s' where "pass_at tc p s = Some s'" and "(fw_step tc)\<^sup>*\<^sup>* s s'" and "ps \<noteq> [] \<Longrightarrow> timely ps s'" and "now s' = p"
    and "resting s'" and "fw_inv s'"
proof -
  let ?s = "s\<lparr>now := p, phase := AtPoll\<rparr>"
  note wake = wake_steps [OF assms, of tc]
  have inv: "fw_inv ?s" by (rule fw_inv_steps [OF wake timely_head(3) [OF assms]])
  obtain s1 where s1: "poll_phase ?s = Some s1" "phase s1 = AtRelock \<or> (\<exists>bs. phase s1 = AtFrame bs)" "now s1 = p"
    using poll_phase_answers [OF inv] by auto
  let ?s' = "finish_pass tc s1"
  have pass: "pass_at tc p s = Some ?s'" using s1(1) by (simp add: pass_at_def main_pass_def)
  have "fw_step tc ?s s1" using s1(1) by (intro fw_step.poll) simp_all
  with wake finish_pass_steps [OF s1(2), of tc] have steps: "(fw_step tc)\<^sup>*\<^sup>* s ?s'"
    by (meson rtranclp.rtrancl_into_rtrancl rtranclp_trans)
  have at_end: "phase ?s' = AtDelay p" "now ?s' = p" using finish_pass_steps [OF s1(2), of tc] s1(3) by simp_all
  have inv': "fw_inv ?s'" by (rule fw_inv_steps [OF steps timely_head(3) [OF assms]])
  have "timely ps ?s'" if "ps \<noteq> []"
    using that assms at_end inv' by (cases ps) (auto simp: timely_def resting_def)
  with that [OF pass steps _ at_end(2) _ inv'] at_end(1) show thesis by (simp add: resting_def)
qed

text \<open>Lines of a script in the order of time, none before \<open>t\<close>.\<close>

definition script_from :: "instant \<Rightarrow> script \<Rightarrow> bool" where
  "script_from t acts \<longleftrightarrow> sorted (t # map fst acts)"

lemma script_from_Cons [simp]: "script_from t ((u, a) # acts) \<longleftrightarrow> t \<le> u \<and> script_from u acts"
  by (auto simp: script_from_def)

lemma play_is_run:
  "play tc ps acts s = Some (s', tr) \<Longrightarrow> timely ps s \<Longrightarrow> script_from (now s) acts \<Longrightarrow> (fw_step tc)\<^sup>*\<^sup>* s s'"
proof (induction tc ps acts s arbitrary: tr rule: play.induct)
  case (1 tc p ps t a acts s)
  show ?case
  proof (cases "t \<le> p")
    case True
    show ?thesis
    proof (cases a)
      case (Gpio line high)
      have "now s \<le> t" "script_from t acts" using "1.prems"(3) by simp_all
      moreover have "now (drive line high t s) = t" by (simp add: drive_def)
      moreover have "play tc (p # ps) acts (drive line high t s) = Some (s', tr)" using "1.prems"(1) True Gpio by simp
      ultimately have "(fw_step tc)\<^sup>*\<^sup>* (drive line high t s) s'"
        using "1.IH"(1) [OF True Gpio] timely_drive [OF "1.prems"(2) _ True] by metis
      with drive_step [OF \<open>now s \<le> t\<close>] show ?thesis by (rule converse_rtranclp_into_rtranclp [where r = "fw_step tc"])
    qed (use "1.prems"(1) True in simp)
  next
    case False
    obtain s1 where s1: "pass_at tc p s = Some s1" "(fw_step tc)\<^sup>*\<^sup>* s s1" "ps \<noteq> [] \<Longrightarrow> timely ps s1" "now s1 = p"
      using pass_at_works [OF "1.prems"(2), of tc] by metis
    obtain tr' where rest: "play tc ps ((t, a) # acts) s1 = Some (s', tr')"
      using "1.prems"(1) False s1(1) by auto
    then have "ps \<noteq> []" by (cases ps) auto
    with "1.IH"(2) [OF False s1(1) rest] s1 False "1.prems"(3) show ?thesis by (auto intro: rtranclp_trans)
  qed
qed simp_all

section \<open>While the code is entered\<close>

text \<open>
  Locked, with the keys \<open>ks\<close> handled, the lines \<open>con\<close> printed and the bits \<open>bs\<close> of the next key captured,
  the last of them at \<open>l\<close>.
\<close>

definition catching :: "system_clock \<Rightarrow> key list \<Rightarrow> string list \<Rightarrow> bool list \<Rightarrow> instant \<Rightarrow> firmware \<Rightarrow> bool" where
  "catching clk ks con bs l s \<longleftrightarrow>
     clock s = clk \<and> keys_of (history s) = ks \<and> console s = con \<and> relock_at s = None \<and>
     (\<exists>st. capture s = Some st \<and> bits st = bs \<and> (bs \<noteq> [] \<longrightarrow> last_edge st = Some l))"

lemma resting_relay: "fw_inv s \<Longrightarrow> resting s \<Longrightarrow> relay_high (bolt s) \<longleftrightarrow> relock_at s \<noteq> None"
  by (auto simp: fw_inv_def released_only_scheduled_def resting_def)

lemma catching_edge:
  assumes "catching clk ks con bs l s" and "fw_inv s" and "length bs < MAX_BITS"
  shows "catching clk ks con (bs @ [b]) t (drive (if b then D1_PIN else D0_PIN) False t s)"
proof -
  obtain st where st: "capture s = Some st" "bits st = bs" "capture_inv st"
    using assms(1,2) by (auto simp: catching_def fw_inv_def)
  then show ?thesis
    using gpio_edges_Some [OF st(3), of "\<not> b" b t t] assms(1,3)
    by (auto simp: catching_def drive_def D0_PIN_def D1_PIN_def edge_bits_def last_n_all split: if_splits)
qed

lemma catching_high: "catching clk ks con bs l s \<Longrightarrow> catching clk ks con bs l (drive line True t s)"
  by (auto simp: catching_def drive_def)

text \<open>A pass that finds no complete message, and one that does.\<close>

lemma pass_quiet:
  assumes "fw_inv s" and "now s \<le> p" and "capture s = Some st" and "bits st = [] \<or> last_edge st = Some l \<and> p < l + 25000"
  shows "pass_at tc p s = Some (relock_phase (s\<lparr>now := p, phase := AtRelock\<rparr>))"
proof -
  have "capture_inv st" "\<And>e. last_edge st = Some e \<Longrightarrow> e \<le> p"
    using assms(1-3) by (auto simp: fw_inv_def intro: le_trans)
  from take_completed_frame_cases [OF this] assms(4) \<open>capture_inv st\<close>
  have "take_completed_frame p (Some st) = Some (None, Some st)"
    by (auto simp: capture_inv_def MESSAGE_GAP_def split: option.splits)
  then have "poll_phase (s\<lparr>now := p, phase := AtPoll\<rparr>) = Some (s\<lparr>now := p, phase := AtRelock\<rparr>)"
    using assms(3) by (cases s) (simp add: poll_phase_def)
  then show ?thesis by (simp add: pass_at_def main_pass_def finish_pass_def)
qed

lemma poll_message:
  assumes "fw_inv s" and "now s \<le> p" and "capture s = Some st" and "bits st \<noteq> []"
    and "last_edge st = Some l" and "l + 25000 \<le> p"
  shows "poll_phase (s\<lparr>now := p, phase := AtPoll\<rparr>) =
     Some (s\<lparr>now := p, capture := Some (st\<lparr>last_edge := None, bits := []\<rparr>), phase := AtFrame (bits st)\<rparr>)"
proof -
  have "capture_inv st" "\<And>e. last_edge st = Some e \<Longrightarrow> e \<le> p"
    using assms(1-3) by (auto simp: fw_inv_def intro: le_trans)
  from take_completed_frame_cases [OF this] assms(5,6)
  have "take_completed_frame p (Some st) = Some (Some (bits st), Some (st\<lparr>last_edge := None, bits := []\<rparr>))"
    by (simp add: MESSAGE_GAP_def)
  with assms(3) show ?thesis by (simp add: poll_phase_def)
qed

lemma finish_pass_verdict:
  assumes "fw_inv s" and "phase s = AtFrame bs" and "relock_at s = None"
    and "v = verdict tc SECRET SKEW_STEPS (keys_of (history s)) (decode_frame bs) (fw_unix s)"
  shows "console (finish_pass tc s) = console s @
      (case v of Unlocked \<Rightarrow> [''access granted''] | Rejected \<Rightarrow> [''access denied''] | Waiting \<Rightarrow> [])"
    and "relock_at (finish_pass tc s) = (if v = Unlocked then Some (now s + UNLOCK_DURATION) else None)"
proof -
  have eq: "finish_pass tc s = relock_phase (outcome_phase v (frame_phase tc bs s))"
    using frame_phase_outcome [OF assms(1), of tc bs] assms(4) by (simp add: finish_pass_def assms(2) Let_def)
  have frame: "relock_at (frame_phase tc bs s) = None" "console (frame_phase tc bs s) = console s"
    using assms(3) by (simp_all add: frame_phase_def Let_def split_beta)
  show "console (finish_pass tc s) = console s @
      (case v of Unlocked \<Rightarrow> [''access granted''] | Rejected \<Rightarrow> [''access denied''] | Waiting \<Rightarrow> [])"
    and "relock_at (finish_pass tc s) = (if v = Unlocked then Some (now s + UNLOCK_DURATION) else None)"
    by (simp_all add: eq relock_phase_def outcome_phase_def frame frame_simps UNLOCK_DURATION_def split: outcome.splits)
qed

lemma catching_quiet_pass:
  assumes "timely (p # ps) s" and "catching clk ks con bs l s" and "bs = [] \<or> p < l + 25000"
  obtains s' where "pass_at tc p s = Some s'" and "catching clk ks con bs l s'" and "now s' = p"
    and "ps \<noteq> [] \<Longrightarrow> timely ps s'" and "relay_high (bolt s') = relay_high (bolt s)"
proof -
  obtain st where st: "capture s = Some st" "bits st = bs" "bs \<noteq> [] \<longrightarrow> last_edge st = Some l"
    using assms(2) by (auto simp: catching_def)
  obtain s' where s': "pass_at tc p s = Some s'" "ps \<noteq> [] \<Longrightarrow> timely ps s'" "now s' = p" "resting s'" "fw_inv s'"
    using pass_at_works [OF assms(1), of tc] by metis
  have "pass_at tc p s = Some (relock_phase (s\<lparr>now := p, phase := AtRelock\<rparr>))"
    using pass_quiet [OF timely_head(3,1) [OF assms(1)] st(1)] st(2,3) assms(3) by blast
  then have "s' = relock_phase (s\<lparr>now := p, phase := AtRelock\<rparr>)" using s'(1) by simp
  with assms(2) have "catching clk ks con bs l s'" "bolt s' = bolt s" by (auto simp: catching_def relock_phase_def)
  with that s' show thesis by metis
qed

text \<open>A key is handled: the verdict decides what is printed and whether the bolt is released.\<close>

lemma catching_message_pass:
  assumes "timely (p # ps) s" and "catching clk ks con bs l s" and "bs \<noteq> []" and "l + 25000 \<le> p"
    and "v = verdict tc SECRET SKEW_STEPS ks (decode_frame bs) (unix_seconds system_clock_trait (clk, p))"
  obtains s' where "pass_at tc p s = Some s'" and "now s' = p" and "ps \<noteq> [] \<Longrightarrow> timely ps s'"
    and "\<not> relay_high (bolt s)" and "relay_high (bolt s') \<longleftrightarrow> v = Unlocked"
    and "capture_empty s'" and "relock_at s' = (if v = Unlocked then Some (p + UNLOCK_DURATION) else None)"
    and "console s' = con @ (case v of Unlocked \<Rightarrow> [''access granted''] | Rejected \<Rightarrow> [''access denied''] | Waiting \<Rightarrow> [])"
    and "v \<noteq> Unlocked \<Longrightarrow> catching clk (ks @ frame_keys (decode_frame bs)) (console s') [] l s'"
proof -
  obtain st where st: "capture s = Some st" "bits st = bs" "last_edge st = Some l"
    using assms(2,3) by (auto simp: catching_def)
  obtain s' where s': "pass_at tc p s = Some s'" "ps \<noteq> [] \<Longrightarrow> timely ps s'" "now s' = p" "resting s'" "fw_inv s'"
    using pass_at_works [OF assms(1), of tc] by metis
  let ?s = "s\<lparr>now := p, capture := Some (st\<lparr>last_edge := None, bits := []\<rparr>), phase := AtFrame bs\<rparr>"
  have poll: "poll_phase (s\<lparr>now := p, phase := AtPoll\<rparr>) = Some ?s"
    using poll_message [OF timely_head(3,1) [OF assms(1)] st(1) _ st(3) assms(4)] st(2) assms(3) by simp
  then have eq: "s' = finish_pass tc ?s" using s'(1) by (simp add: pass_at_def main_pass_def)
  have inv: "fw_inv ?s"
    using fw_inv_poll [OF fw_inv_steps [OF wake_steps [OF assms(1), of tc] timely_head(3) [OF assms(1)]] _ poll] by simp
  have v: "v = verdict tc SECRET SKEW_STEPS (keys_of (history ?s)) (decode_frame bs) (fw_unix ?s)"
    and none: "relock_at ?s = None"
    using assms(2,5) by (simp_all add: catching_def fw_unix_def)
  note verdict = finish_pass_verdict [OF inv _ none v, folded eq] and frame = finish_pass_frame(1-3) [OF inv, of bs tc, folded eq]
  have "\<not> relay_high (bolt s)" using assms(1,2) resting_relay by (auto simp: timely_def catching_def)
  moreover have "relay_high (bolt s') \<longleftrightarrow> v = Unlocked" using resting_relay [OF s'(5,4)] verdict(2) by simp
  moreover have "capture_empty s'" using frame(2) by (simp add: capture_empty_def)
  moreover have "catching clk (ks @ frame_keys (decode_frame bs)) (console s') [] l s'" if "v \<noteq> Unlocked"
    using that verdict(2) frame assms(2) by (simp add: catching_def)
  ultimately show thesis using that [OF s'(1,3,2)] verdict assms(2) by (simp add: catching_def)
qed

section \<open>Playing a script\<close>

text \<open>The passes go on at least until \<open>T\<close>.\<close>

definition covers :: "instant \<Rightarrow> instant list \<Rightarrow> bool" where
  "covers T ps \<longleftrightarrow> (\<exists>p \<in> set ps. T \<le> p)"

lemma covers_Cons: "covers T (p # ps) \<Longrightarrow> p < T \<Longrightarrow> covers T ps \<and> ps \<noteq> []"
  by (auto simp: covers_def)

lemma no_transition [simp]: "map_option (map_prod id (\<lambda>tr. tr)) r = r"
  by (cases r) auto

lemma play_wait:
  assumes "timely ps s" and "catching clk ks con bs l s" and "now s \<le> t" and "bs = [] \<or> t \<le> l + 25000"
    and "covers T ps" and "t \<le> T"
  shows "\<exists>p ps' s'. play tc ps ((t, a) # acts) s = play tc (p # ps') ((t, a) # acts) s' \<and> timely (p # ps') s' \<and>
     catching clk ks con bs l s' \<and> now s' \<le> t \<and> t \<le> p \<and> covers T (p # ps')"
  using assms
proof (induction ps arbitrary: s)
  case (Cons p ps)
  show ?case
  proof (cases "t \<le> p")
    case False
    with Cons.prems(4) have "bs = [] \<or> p < l + 25000" by auto
    then obtain s1 where s1: "pass_at tc p s = Some s1" "catching clk ks con bs l s1" "now s1 = p"
        "ps \<noteq> [] \<Longrightarrow> timely ps s1" "relay_high (bolt s1) = relay_high (bolt s)"
      using catching_quiet_pass [OF Cons.prems(1,2), of tc] by metis
    have more: "covers T ps" "ps \<noteq> []" using covers_Cons [OF Cons.prems(5)] False Cons.prems(6) by simp_all
    have "play tc (p # ps) ((t, a) # acts) s = play tc ps ((t, a) # acts) s1" using False s1(1,5) by simp
    with Cons.IH [OF s1(4) [OF more(2)] s1(2) _ Cons.prems(4) more(1) Cons.prems(6)] s1(3) False show ?thesis by simp
  qed (use Cons.prems in blast)
qed (simp add: timely_def)

lemma play_gpio:
  assumes "timely ps s" and "catching clk ks con bs l s" and "now s \<le> t" and "bs = [] \<or> t \<le> l + 25000"
    and "covers T ps" and "t \<le> T"
  shows "\<exists>ps' s'. play tc ps ((t, Gpio line high) # acts) s = play tc ps' acts (drive line high t s') \<and>
     timely ps' (drive line high t s') \<and> catching clk ks con bs l s' \<and> fw_inv s' \<and> covers T ps'"
proof -
  obtain p ps' s' where "play tc ps ((t, Gpio line high) # acts) s = play tc (p # ps') ((t, Gpio line high) # acts) s'"
      "timely (p # ps') s'" "catching clk ks con bs l s'" "now s' \<le> t" "t \<le> p" "covers T (p # ps')"
    using play_wait [OF assms, of tc "Gpio line high" acts] by blast
  then show ?thesis using timely_drive timely_head(3) by (intro exI [of _ "p # ps'"] exI [of _ s']) simp
qed

text \<open>A pulse on a line captures its bit.\<close>

lemma play_bit:
  assumes "timely ps s" and "catching clk ks con bs l s" and "now s \<le> t" and "bs = [] \<or> t \<le> l + 25000"
    and "covers T ps" and "t + 50 \<le> T" and "length bs < MAX_BITS" and line: "line = (if b then D1_PIN else D0_PIN)"
  shows "\<exists>ps' s'. play tc ps ((t, Gpio line False) # (t + 50, Gpio line True) # acts) s = play tc ps' acts s' \<and>
     timely ps' s' \<and> catching clk ks con (bs @ [b]) t s' \<and> now s' = t + 50 \<and> covers T ps'"
proof -
  obtain ps1 s1 where s1: "play tc ps ((t, Gpio line False) # (t + 50, Gpio line True) # acts) s =
        play tc ps1 ((t + 50, Gpio line True) # acts) (drive line False t s1)"
      "timely ps1 (drive line False t s1)" "catching clk ks con bs l s1" "fw_inv s1" "covers T ps1"
    using play_gpio [OF assms(1-5), of tc line False "(t + 50, Gpio line True) # acts"] assms(6) by auto
  have bit: "catching clk ks con (bs @ [b]) t (drive line False t s1)"
    unfolding line by (rule catching_edge [OF s1(3,4) assms(7)])
  have "now (drive line False t s1) \<le> t + 50" by (simp add: drive_def)
  from play_gpio [OF s1(2) bit this _ s1(5) assms(6), of tc line True acts]
  obtain ps2 s2 where s2: "play tc ps1 ((t + 50, Gpio line True) # acts) (drive line False t s1) =
        play tc ps2 acts (drive line True (t + 50) s2)"
      "timely ps2 (drive line True (t + 50) s2)" "catching clk ks con (bs @ [b]) t s2" "covers T ps2"
    by auto
  with s1(1) catching_high show ?thesis
    by (intro exI [of _ ps2] exI [of _ "drive line True (t + 50) s2"]) (simp add: drive_def)
qed

lemma play_bits:
  assumes "timely ps s" and "catching clk ks con bs l s" and "now s \<le> t" and "bs = [] \<or> t \<le> l + 25000"
    and "covers T ps" and "t + 2000 * length new \<le> T" and "length bs + length new \<le> MAX_BITS" and "new \<noteq> []"
  shows "\<exists>ps' s'. play tc ps (fst (bit_lines t new) @ acts) s = play tc ps' acts s' \<and> timely ps' s' \<and>
     catching clk ks con (bs @ new) (t + 2000 * (length new - 1)) s' \<and> now s' = t + 2000 * (length new - 1) + 50 \<and>
     covers T ps'"
  using assms
proof (induction new arbitrary: bs l t ps s)
  case (Cons b new)
  let ?line = "if b then D1_PIN else D0_PIN"
  let ?acts = "fst (bit_lines (t + 2000) new) @ acts"
  have lines: "fst (bit_lines t (b # new)) @ acts = (t, Gpio ?line False) # (t + 50, Gpio ?line True) # ?acts"
    by (simp add: split_beta Let_def PULSE_WIDTH_def BIT_INTERVAL_def)
  obtain ps1 s1 where s1: "play tc ps (fst (bit_lines t (b # new)) @ acts) s = play tc ps1 ?acts s1"
      "timely ps1 s1" "catching clk ks con (bs @ [b]) t s1" "now s1 = t + 50" "covers T ps1"
    using play_bit [where b = b and tc = tc and acts = ?acts, OF Cons.prems(1-5) _ _ refl] Cons.prems(6,7) unfolding lines by auto
  show ?case
  proof (cases "new = []")
    case False
    then have len: "2000 + 2000 * (length new - 1) = 2000 * length new" by (cases new) simp_all
    from Cons.IH [OF s1(2,3) _ _ s1(5), of "t + 2000"] False Cons.prems(6,7) s1(4)
    have "\<exists>ps' s'. play tc ps1 ?acts s1 = play tc ps' acts s' \<and> timely ps' s' \<and>
       catching clk ks con ((bs @ [b]) @ new) (t + 2000 + 2000 * (length new - 1)) s' \<and>
       now s' = t + 2000 + 2000 * (length new - 1) + 50 \<and> covers T ps'" by simp
    then show ?thesis unfolding s1(1) add.assoc len by simp
  qed (use s1 in auto)
qed simp

text \<open>After its bits a key is handled by a pass within the silence that follows.\<close>

lemma play_message:
  assumes "timely ps s" and "catching clk ks con bs l s" and "now s < l + 25000" and "l + 42000 \<le> u"
    and "covers T ps" and "u \<le> T"
  shows "\<exists>p ps' s'. play tc ps ((u, a) # acts) s = play tc (p # ps') ((u, a) # acts) s' \<and> timely (p # ps') s' \<and>
     catching clk ks con bs l s' \<and> l + 25000 \<le> p \<and> p < l + 42000 \<and> covers T ps' \<and> ps' \<noteq> []"
  using assms
proof (induction ps arbitrary: s)
  case (Cons p ps)
  have p: "p < l + 42000" using timely_head(2) [OF Cons.prems(1)] Cons.prems(3) by simp
  then have more: "covers T ps" "ps \<noteq> []" using covers_Cons [OF Cons.prems(5)] Cons.prems(4,6) by simp_all
  show ?case
  proof (cases "l + 25000 \<le> p")
    case False
    then obtain s1 where s1: "pass_at tc p s = Some s1" "catching clk ks con bs l s1" "now s1 = p"
        "ps \<noteq> [] \<Longrightarrow> timely ps s1" "relay_high (bolt s1) = relay_high (bolt s)"
      using catching_quiet_pass [OF Cons.prems(1,2), of tc] by (metis not_le)
    have "play tc (p # ps) ((u, a) # acts) s = play tc ps ((u, a) # acts) s1" using p Cons.prems(4) s1(1,5) by simp
    with Cons.IH [OF s1(4) [OF more(2)] s1(2) _ Cons.prems(4) more(1) Cons.prems(6)] s1(3) False show ?thesis by simp
  qed (use Cons.prems p more in blast)
qed (simp add: timely_def)

lemma length_nibble_bits [simp]: "length (nibble_bits v) = 4"
  by (simp add: nibble_bits_def)

lemma nibble_bits_some: "nibble_bits v \<noteq> []"
  by (simp add: nibble_bits_def)

lemma play_nibble:
  assumes "timely ps s" and "catching clk ks con [] l s" and "now s \<le> t" and "covers T ps" and "t + 48000 \<le> u" and "u \<le> T"
  shows "\<exists>p ps' s'. play tc ps (fst (bit_lines t (nibble_bits v)) @ (u, a) # acts) s =
       play tc (p # ps') ((u, a) # acts) s' \<and> timely (p # ps') s' \<and> catching clk ks con (nibble_bits v) (t + 6000) s' \<and>
     t + 31000 \<le> p \<and> p < t + 48000 \<and> covers T ps' \<and> ps' \<noteq> []"
proof -
  obtain ps1 s1 where s1: "play tc ps (fst (bit_lines t (nibble_bits v)) @ (u, a) # acts) s = play tc ps1 ((u, a) # acts) s1"
      "timely ps1 s1" "catching clk ks con (nibble_bits v) (t + 6000) s1" "now s1 = t + 6050" "covers T ps1"
    using play_bits [OF assms(1-3) _ assms(4) _ _ nibble_bits_some, of v tc "(u, a) # acts"] assms(5,6)
    by (auto simp: MAX_BITS_def)
  from play_message [OF s1(2,3) _ _ s1(5) assms(6), of tc a acts] s1(1,4) assms(5) show ?thesis by (simp add: add.assoc)
qed

lemma play_key:
  assumes "timely ps s" and "catching clk ks con [] l s" and "now s \<le> t" and "covers T ps" and "t + 48000 \<le> u" and "u \<le> T"
    and "decode_frame (nibble_bits v) = f" and "f \<noteq> Frame_Enter"
  shows "\<exists>ps' s'. play tc ps (fst (bit_lines t (nibble_bits v)) @ (u, a) # acts) s = play tc ps' ((u, a) # acts) s' \<and>
     timely ps' s' \<and> catching clk (ks @ frame_keys f) con [] (t + 6000) s' \<and> now s' < t + 48000 \<and> covers T ps'"
proof -
  obtain p ps' s1 where s1: "play tc ps (fst (bit_lines t (nibble_bits v)) @ (u, a) # acts) s = play tc (p # ps') ((u, a) # acts) s1"
      "timely (p # ps') s1" "catching clk ks con (nibble_bits v) (t + 6000) s1" "t + 31000 \<le> p" "p < t + 48000"
      "covers T ps'" "ps' \<noteq> []"
    using play_nibble [OF assms(1-6), of tc v a acts] by blast
  have waiting: "Waiting = verdict tc SECRET SKEW_STEPS ks (decode_frame (nibble_bits v)) (unix_seconds system_clock_trait (clk, p))"
    using assms(7,8) by (simp add: verdict_def Let_def)
  have gap: "t + 6000 + 25000 \<le> p" using s1(4) by simp
  obtain s2 where s2: "pass_at tc p s1 = Some s2" "now s2 = p" "ps' \<noteq> [] \<Longrightarrow> timely ps' s2" "\<not> relay_high (bolt s1)"
      "\<not> relay_high (bolt s2)" "console s2 = con" "catching clk (ks @ frame_keys f) (console s2) [] (t + 6000) s2"
    by (rule catching_message_pass [OF s1(2,3) nibble_bits_some gap waiting]) (use assms(7) in auto)
  then show ?thesis using s1 assms(5) by (intro exI [of _ ps'] exI [of _ s2]) simp
qed

lemma key_lines_head:
  assumes "t + 48000 * length vs \<le> u"
  shows "\<exists>u' a' acts'. fst (key_lines t vs) @ (u, a) # acts = (u', a') # acts' \<and> t \<le> u' \<and> u' \<le> u"
  using assms by (cases vs) (auto simp: nibble_bits_def split_beta Let_def)

lemma bit_lines_end: "snd (bit_lines t bs) = t + 2000 * length bs"
  by (induction bs arbitrary: t) (simp_all add: split_beta Let_def BIT_INTERVAL_def)

lemma key_lines_Cons:
  "fst (key_lines t (v # vs)) = fst (bit_lines t (nibble_bits v)) @ fst (key_lines (t + 48000) vs)"
  "snd (key_lines t vs) = t + 48000 * length vs"
proof -
  have step: "snd (bit_lines t (nibble_bits v)) + INTER_NIBBLE_GAP = t + 48000" for t v
    by (simp add: bit_lines_end INTER_NIBBLE_GAP_def)
  show "fst (key_lines t (v # vs)) = fst (bit_lines t (nibble_bits v)) @ fst (key_lines (t + 48000) vs)"
    using step [of t v] by (simp add: split_beta Let_def)
  show "snd (key_lines t vs) = t + 48000 * length vs"
    by (induction vs arbitrary: t) (simp_all add: split_beta Let_def step)
qed

lemma play_digits:
  assumes "timely ps s" and "catching clk ks con [] l s" and "now s \<le> t" and "covers T ps"
    and "t + 48000 * length ds \<le> u" and "u \<le> T"
    and "\<forall>d \<in> set ds. decode_frame (nibble_bits d) = Frame_Digit (of_nat d)"
  shows "\<exists>ps' s' l'. play tc ps (fst (key_lines t ds) @ (u, a) # acts) s = play tc ps' ((u, a) # acts) s' \<and> timely ps' s' \<and>
     catching clk (ks @ map (\<lambda>d. Key_Digit (of_nat d)) ds) con [] l' s' \<and> now s' \<le> t + 48000 * length ds \<and> covers T ps'"
  using assms
proof (induction ds arbitrary: ps s ks l t)
  case (Cons d ds)
  obtain u' a' acts' where head: "fst (key_lines (t + 48000) ds) @ (u, a) # acts = (u', a') # acts'" "t + 48000 \<le> u'" "u' \<le> u"
    using key_lines_head [of "t + 48000" ds u a acts] Cons.prems(5) by auto
  have T: "u' \<le> T" using head(3) Cons.prems(6) by simp
  have f: "decode_frame (nibble_bits d) = Frame_Digit (of_nat d)" using Cons.prems(7) by simp
  from play_key [OF Cons.prems(1-4) head(2) T f, of tc a' acts']
  obtain ps1 s1 where s1: "play tc ps (fst (key_lines t (d # ds)) @ (u, a) # acts) s =
        play tc ps1 (fst (key_lines (t + 48000) ds) @ (u, a) # acts) s1"
      "timely ps1 s1" "catching clk (ks @ [Key_Digit (of_nat d)]) con [] (t + 6000) s1" "now s1 < t + 48000" "covers T ps1"
    by (auto simp: key_lines_Cons(1) head(1) frame_keys_def simp del: key_lines.simps)
  from Cons.IH [OF s1(2,3) _ s1(5) _ Cons.prems(6), of "t + 48000"] s1(4) Cons.prems(5,7)
  have "\<exists>ps' s' l'. play tc ps1 (fst (key_lines (t + 48000) ds) @ (u, a) # acts) s1 = play tc ps' ((u, a) # acts) s' \<and>
     timely ps' s' \<and> catching clk ((ks @ [Key_Digit (of_nat d)]) @ map (\<lambda>d. Key_Digit (of_nat d)) ds) con [] l' s' \<and>
     now s' \<le> t + 48000 + 48000 * length ds \<and> covers T ps'" by simp
  then show ?case unfolding s1(1) by (simp add: add.assoc)
qed auto

text \<open>The rest of a run: nothing happens at a lock that is locked, and an open one is locked in time.\<close>

lemma play_locked:
  assumes "timely ps s" and "catching clk ks con [] l s" and "now s \<le> u" and "covers u ps"
  shows "\<exists>s'. play tc ps [(u, Stop)] s = Some (s', []) \<and> console s' = con"
  using play_wait [OF assms(1-3) _ assms(4) order_refl, of tc Stop "[]"] by (auto simp: catching_def)

lemma play_open:
  assumes "timely ps s" and "capture_empty s" and "relock_at s = Some D" and "now s < D" and "D + 17000 \<le> u" and "covers u ps"
  shows "\<exists>q s'. play tc ps [(u, Stop)] s = Some (s', [(q, False)]) \<and> D \<le> q \<and> q < D + 17000 \<and>
     console s' = console s @ [''re-locked'']"
  using assms
proof (induction ps arbitrary: s)
  case (Cons p ps)
  obtain st where st: "capture s = Some st" "bits st = []" using Cons.prems(2) by (auto simp: capture_empty_def)
  have high: "relay_high (bolt s)" using Cons.prems(1,3) resting_relay by (auto simp: timely_def)
  have p: "p < D + 17000" using timely_head(2) [OF Cons.prems(1)] Cons.prems(4) by simp
  then have more: "covers u ps" "ps \<noteq> []" using covers_Cons [OF Cons.prems(6)] Cons.prems(5) by simp_all
  obtain s1 where s1: "pass_at tc p s = Some s1" "timely ps s1" "now s1 = p"
    using pass_at_works [OF Cons.prems(1), of tc] more(2) by metis
  have eq: "s1 = relock_phase (s\<lparr>now := p, phase := AtRelock\<rparr>)"
    using pass_quiet [OF timely_head(3,1) [OF Cons.prems(1)] st(1), of undefined tc] st(2) s1(1) by simp
  have before: "p < u" using p Cons.prems(5) by simp
  show ?case
  proof (cases "D \<le> p")
    case True
    then have "catching (clock s) (keys_of (history s)) (console s @ [''re-locked'']) [] 0 s1" "\<not> relay_high (bolt s1)"
      using eq Cons.prems(3) st by (simp_all add: catching_def relock_phase_def bolt_trait_def)
    moreover from play_locked [OF s1(2) this(1) _ more(1), of tc] before s1(3) obtain s' where
      "play tc ps [(u, Stop)] s1 = Some (s', [])" "console s' = console s @ [''re-locked'']" by auto
    ultimately show ?thesis using True p before s1(1) high by (intro exI [of _ p] exI [of _ s']) simp
  next
    case False
    then have same: "capture_empty s1" "relock_at s1 = Some D" "relay_high (bolt s1)" "console s1 = console s"
      using eq Cons.prems(2,3) high by (simp_all add: relock_phase_def capture_empty_def)
    from Cons.IH [OF s1(2) same(1,2) _ Cons.prems(5) more(1)] False s1(1,3) same(3,4) high before show ?thesis by simp
  qed
qed (simp add: timely_def)

lemma nibble_bits_decode:
  "d < 10 \<Longrightarrow> decode_frame (nibble_bits d) = Frame_Digit (of_nat d)"
  "decode_frame (nibble_bits ENTER) = Frame_Enter"
proof -
  have bits: "nibble_bits d = nibble (of_nat d)" if "d < 12" for d
  proof -
    have "list_all (\<lambda>d. nibble_bits d = nibble (of_nat d)) [0..<12]" by code_simp
    with that show ?thesis by (simp add: list_all_iff)
  qed
  show "decode_frame (nibble_bits ENTER) = Frame_Enter" using decode_key_bits(3) bits [of 11] by (simp add: ENTER_def)
  show "decode_frame (nibble_bits d) = Frame_Digit (of_nat d)" if "d < 10"
  proof -
    have "(of_nat d :: u8) \<le> 9" using that by (simp add: word_le_nat_alt unsigned_of_nat take_bit_nat_eq_self)
    with bits [of d] that show ?thesis by (simp add: decode_key_bits(1))
  qed
qed

lemma attempt_only_digits: "attempt (map Key_Digit ds) = ds"
  by (induction ds rule: rev_induct) (simp_all add: attempt_def)

text \<open>A code of six digits and \<open>#\<close> at a lock that has just booted, up to the pass that handles the \<open>#\<close>.\<close>

lemma play_entry:
  assumes "timely ps s" and "catching clk [] con [] l s" and "now s \<le> t" and "covers u ps" and "t + 336000 \<le> u"
    and "length ds = 6" and "\<forall>d \<in> set ds. d < 10"
  shows "\<exists>p ps' s' l'. play tc ps (fst (key_lines t (ds @ [ENTER])) @ [(u, Stop)]) s = play tc (p # ps') [(u, Stop)] s' \<and>
     timely (p # ps') s' \<and> catching clk (map (\<lambda>d. Key_Digit (of_nat d)) ds) con (nibble_bits ENTER) l' s' \<and>
     l' + 25000 \<le> p \<and> p < t + 336000 \<and> covers u ps' \<and> ps' \<noteq> []"
proof -
  have append: "fst (key_lines t (vs @ ws)) = fst (key_lines t vs) @ fst (key_lines (t + 48000 * length vs) ws)" for t vs ws
    by (induction vs arbitrary: t) (simp_all add: key_lines_Cons(1) add.assoc del: key_lines.simps(2))
  let ?enter = "fst (bit_lines (t + 288000) (nibble_bits ENTER)) @ [(u, Stop)]"
  have script: "fst (key_lines t (ds @ [ENTER])) @ [(u, Stop)] = fst (key_lines t ds) @ ?enter"
    using assms(6) by (simp add: append key_lines_Cons(1) del: key_lines.simps(2))
  obtain a acts where head: "?enter = (t + 288000, a) # acts"
    by (simp add: nibble_bits_def split_beta Let_def)
  have digits: "\<forall>d \<in> set ds. decode_frame (nibble_bits d) = Frame_Digit (of_nat d)"
    using assms(7) nibble_bits_decode(1) by blast
  obtain ps1 s1 l1 where s1: "play tc ps (fst (key_lines t (ds @ [ENTER])) @ [(u, Stop)]) s = play tc ps1 ?enter s1"
      "timely ps1 s1" "catching clk (map (\<lambda>d. Key_Digit (of_nat d)) ds) con [] l1 s1" "now s1 \<le> t + 288000" "covers u ps1"
    using play_digits [OF assms(1-4) _ _ digits, of "t + 288000" tc a acts] assms(5,6) unfolding script head by auto
  have "t + 288000 + 48000 \<le> u" using assms(5) by simp
  from play_nibble [OF s1(2-5) this order_refl, of tc ENTER Stop "[]"]
  obtain p ps' s' where "play tc ps1 ?enter s1 = play tc (p # ps') [(u, Stop)] s'" "timely (p # ps') s'"
      "catching clk (map (\<lambda>d. Key_Digit (of_nat d)) ds) con (nibble_bits ENTER) (t + 294000) s'"
      "t + 319000 \<le> p" "p < t + 336000" "covers u ps'" "ps' \<noteq> []"
    by (simp only: add.assoc) auto
  with s1(1) show ?thesis by (intro exI [of _ p] exI [of _ ps'] exI [of _ s'] exI [of _ "t + 294000"]) simp
qed

lemma enter_verdict:
  assumes "length ds = 6" and "p < 1000000"
  shows "verdict tc SECRET SKEW_STEPS (map (\<lambda>d. Key_Digit (of_nat d)) ds) (decode_frame (nibble_bits ENTER))
      (unix_seconds system_clock_trait (clk, p)) =
    (if matches tc SECRET (map of_nat ds) (boot_epoch clk) SKEW_STEPS then Unlocked else Rejected)"
proof -
  have "attempt (map (\<lambda>d. Key_Digit (of_nat d)) ds) = map of_nat ds"
    using attempt_only_digits [of "map of_nat ds"] by (simp add: o_def)
  moreover have "ds \<noteq> []" using assms(1) by auto
  ultimately show ?thesis
    using assms by (simp add: verdict_def nibble_bits_decode(2) Let_def PIN_LEN_def last_n_all system_clock_trait_def)
qed

lemma play_code:
  assumes "timely ps s" and "catching clk [] con [] l s" and "now s \<le> t" and "covers u ps" and "t + 336000 \<le> u"
    and "length ds = 6" and "\<forall>d \<in> set ds. d < 10" and "t + 336000 \<le> 1000000"
    and script: "script = fst (key_lines t (ds @ [ENTER])) @ [(u, Stop)]"
  shows "\<not> matches tc SECRET (map of_nat ds) (boot_epoch clk) SKEW_STEPS \<Longrightarrow>
      \<exists>s'. play tc ps script s = Some (s', []) \<and> console s' = con @ [''access denied'']"
    and "matches tc SECRET (map of_nat ds) (boot_epoch clk) SKEW_STEPS \<Longrightarrow> t + 5353000 \<le> u \<Longrightarrow>
      \<exists>p q s'. play tc ps script s = Some (s', [(p, True), (q, False)]) \<and> p + UNLOCK_DURATION \<le> q \<and>
        q < p + UNLOCK_DURATION + 17000 \<and> console s' = con @ [''access granted'', ''re-locked'']"
    and "matches tc SECRET (map of_nat ds) (boot_epoch clk) SKEW_STEPS \<Longrightarrow> \<not> (\<exists>s'. play tc ps script s = Some (s', []))"
proof -
  obtain p ps' s1 l1 where s1: "play tc ps script s = play tc (p # ps') [(u, Stop)] s1" "timely (p # ps') s1"
      "catching clk (map (\<lambda>d. Key_Digit (of_nat d)) ds) con (nibble_bits ENTER) l1 s1"
      "l1 + 25000 \<le> p" "p < t + 336000" "covers u ps'" "ps' \<noteq> []"
    using play_entry [OF assms(1-7), of tc] unfolding script by blast
  define v where "v = (if matches tc SECRET (map of_nat ds) (boot_epoch clk) SKEW_STEPS then Unlocked else Rejected)"
  have "p < 1000000" using s1(5) assms(8) by simp
  note v = v_def [folded enter_verdict [OF assms(6) this, of tc clk]]
  obtain s2 where s2: "pass_at tc p s1 = Some s2" "now s2 = p" "ps' \<noteq> [] \<Longrightarrow> timely ps' s2" "\<not> relay_high (bolt s1)"
      "relay_high (bolt s2) \<longleftrightarrow> v = Unlocked" "capture_empty s2"
      "relock_at s2 = (if v = Unlocked then Some (p + UNLOCK_DURATION) else None)"
      "console s2 = con @ (case v of Unlocked \<Rightarrow> [''access granted''] | Rejected \<Rightarrow> [''access denied''] | Waiting \<Rightarrow> [])"
      "v \<noteq> Unlocked \<Longrightarrow> \<exists>ks. catching clk ks (console s2) [] l1 s2"
    by (rule catching_message_pass [OF s1(2,3) nibble_bits_some s1(4) v]) blast
  have before: "p < u" using s1(5) assms(5) by simp
  have play: "play tc ps script s = map_option (map_prod id (\<lambda>tr. if v = Unlocked then (p, True) # tr else tr))
      (play tc ps' [(u, Stop)] s2)"
    using s1(1) s2(1,4,5) before by (cases "v = Unlocked") simp_all
  have timely2: "timely ps' s2" using s1(7) s2(3) by simp
  show "\<exists>s'. play tc ps script s = Some (s', []) \<and> console s' = con @ [''access denied'']"
    if "\<not> matches tc SECRET (map of_nat ds) (boot_epoch clk) SKEW_STEPS"
  proof -
    have "v = Rejected" using that by (simp add: v_def)
    with s2(8,9) obtain ks where "catching clk ks (con @ [''access denied'']) [] l1 s2" by auto
    from play_locked [OF timely2 this _ s1(6), of tc] before s2(2) play \<open>v = Rejected\<close> show ?thesis by auto
  qed
  assume "matches tc SECRET (map of_nat ds) (boot_epoch clk) SKEW_STEPS"
  then have opens: "v = Unlocked" by (simp add: v_def)
  then show "\<not> (\<exists>s'. play tc ps script s = Some (s', []))" using play by auto
  assume u: "t + 5353000 \<le> u"
  have "now s2 < p + UNLOCK_DURATION" "p + UNLOCK_DURATION + 17000 \<le> u" using s1(5) s2(2) u by (simp_all add: UNLOCK_DURATION_def)
  from play_open [OF timely2 s2(6) _ this s1(6), of tc] s2(7,8) opens play
  show "\<exists>p q s'. play tc ps script s = Some (s', [(p, True), (q, False)]) \<and> p + UNLOCK_DURATION \<le> q \<and>
      q < p + UNLOCK_DURATION + 17000 \<and> console s' = con @ [''access granted'', ''re-locked'']"
    by auto
qed

section \<open>The codes of the scenarios\<close>

lemma code_value_snoc [simp]: "code_value [] = 0" "code_value (p @ [c]) = 10 * code_value p + (c - 48)"
  by (simp_all add: code_value_def)

lemma padded_Suc: "padded (Suc n) v = padded n (v div 10) @ [48 + v mod 10]"
proof -
  have "rev [0..<Suc n] = map Suc (rev [0..<n]) @ [0]"
    by (simp add: upt_conv_Cons map_Suc_upt [symmetric] rev_map del: upt_Suc)
  then show ?thesis by (simp add: padded_def o_def div_mult2_eq)
qed

lemma code_value_padded: "code_value (padded n v) = v mod 10 ^ n"
proof (induction n arbitrary: v)
  case 0
  show ?case by (simp add: padded_def)
next
  case (Suc n)
  then show ?case by (simp add: padded_Suc mod_mult2_eq)
qed

lemma padded_digit: "c \<in> set (padded n v) \<Longrightarrow> 48 \<le> c \<and> c \<le> 57"
  using padded_digits [of n v] by (auto simp: list_all_iff)

lemma keys_for_padded: "keys_for_code (padded 6 v) = Some (map (\<lambda>c. c - 48) (padded 6 v) @ [ENTER])"
  by (simp add: keys_for_code_def padded_digits)

text \<open>What the lock reads from the keys of a code is the code's value.\<close>

lemma digits_to_value_padded: "digits_to_value (map (\<lambda>c. of_nat (c - 48)) (padded n v)) = of_nat (v mod 10 ^ n)"
proof -
  have "decimal (map (\<lambda>c. of_nat (c - 48)) p) = code_value p" if "\<forall>c \<in> set p. 48 \<le> c \<and> c \<le> 57" for p
    using that
  proof (induction p rule: rev_induct)
    case (snoc c p)
    then obtain d where "c = 48 + d" "d \<le> 9" by (auto dest: le_Suc_ex)
    with snoc show ?case by (simp add: unsigned_of_nat take_bit_nat_eq_self)
  qed simp
  then show ?thesis using padded_digit by (simp add: digits_to_value_of_nat code_value_padded)
qed

text \<open>The firmware's code generator computes RFC 6238 for the compiled-in secret.\<close>

definition implements_rfc :: "totp_fn \<Rightarrow> bool" where
  "implements_rfc tc \<longleftrightarrow>
     (\<forall>t. tc STEP_SECONDS DIGITS SECRET t = rfc_totp_custom STEP_SECONDS DIGITS SECRET t)"

lemma sim_totp_window:
  assumes "implements_rfc tc" and "t < 2 ^ 64"
  shows "ucast (tc STEP_SECONDS DIGITS SECRET (of_nat t)) = (of_nat (code_value (sim_totp SECRET t)) :: u32)"
proof -
  have "(of_nat t :: u64) div 30 = of_nat (t div 30)"
    using assms(2) div_le_dividend [of t 30]
    by (simp add: word_unat_eq_iff unat_div unsigned_of_nat take_bit_nat_eq_self del: div_le_dividend)
  moreover have "ucast (ucast r mod 10 ^ 6 :: u64) = (of_nat (unat r mod 10 ^ 6) :: u32)" for r :: u32
  proof -
    have "unat r < 2 ^ 64" using unsigned_less [of r, where ?'a = nat] by simp
    then show ?thesis by (simp add: word_unat_eq_iff unsigned_ucast_eq unat_mod unsigned_of_nat take_bit_nat_eq_self)
  qed
  ultimately show ?thesis
    using assms(1) by (simp add: implements_rfc_def rfc_totp_custom_def STEP_SECONDS_def DIGITS_def sim_totp_def code_value_padded)
qed

lemma code_value_inj:
  assumes "p = padded 6 v" and "q = padded 6 w"
  shows "(of_nat (code_value p) :: u32) = of_nat (code_value q) \<longleftrightarrow> p = q"
proof -
  have small: "code_value (padded 6 x) < 1000000" for x by (simp add: code_value_padded)
  have "padded 6 x = padded 6 (code_value (padded 6 x))" for x using padded_mod [of 6 x] by (simp add: code_value_padded)
  then have inj: "code_value p = code_value q \<Longrightarrow> p = q" using assms by metis
  have "(of_nat (code_value p) :: u32) = of_nat (code_value q) \<longleftrightarrow> code_value p = code_value q"
    using small [of v] small [of w] assms by (simp add: word_unat_eq_iff unsigned_of_nat take_bit_nat_eq_self)
  with inj show ?thesis by blast
qed

lemma accepted_codes:
  assumes "implements_rfc tc" and "30 \<le> epoch" and "epoch + 30 < 2 ^ 64"
  shows "matches tc SECRET (map (\<lambda>c. of_nat (c - 48)) (padded 6 v)) (of_nat epoch) SKEW_STEPS \<longleftrightarrow>
    padded 6 v \<in> {sim_totp SECRET (epoch - 30), sim_totp SECRET epoch, sim_totp SECRET (epoch + 30)}"
proof -
  have range: "[- uint SKEW_STEPS .. uint SKEW_STEPS] = [-1, 0, 1]" by (simp add: SKEW_STEPS_def upto.simps)
  have now: "uint (of_nat epoch :: u64) = int epoch" using assms(3) by (simp add: unsigned_of_nat take_bit_nat_eq_self)
  have times: "saturating_add_signed (of_nat epoch) (-30) = of_nat (epoch - 30)"
      "saturating_add_signed (of_nat epoch) 0 = of_nat epoch"
      "saturating_add_signed (of_nat epoch) 30 = of_nat (epoch + 30)"
    using assms(2,3) by (simp_all add: saturating_add_signed_def now Let_def)
  have eq: "ucast (tc STEP_SECONDS DIGITS SECRET (of_nat t)) = (of_nat (v mod 10 ^ 6) :: u32) \<longleftrightarrow> padded 6 v = sim_totp SECRET t"
    if "t < 2 ^ 64" for t
    unfolding sim_totp_window [OF assms(1) that] code_value_padded [symmetric]
    using code_value_inj [OF sim_totp_def refl] by auto
  show ?thesis
    using assms(2,3) eq [of "epoch - 30"] eq [of epoch] eq [of "epoch + 30"]
    unfolding matches_def range digits_to_value_padded by (simp add: STEP_SECONDS_def times)
qed

section \<open>The scenarios\<close>

lemma bit_lines_times: "(u, a) \<in> set (fst (bit_lines t bs)) \<Longrightarrow> u < t + 2000 * length bs"
  by (induction bs arbitrary: t) (auto simp: split_beta Let_def BIT_INTERVAL_def PULSE_WIDTH_def, fastforce)

lemma key_lines_times: "(u, a) \<in> set (fst (key_lines t vs)) \<Longrightarrow> u < t + 48000 * length vs"
proof (induction vs arbitrary: t)
  case (Cons v vs)
  then consider "(u, a) \<in> set (fst (bit_lines t (nibble_bits v)))" | "(u, a) \<in> set (fst (key_lines (t + 48000) vs))"
    unfolding key_lines_Cons(1) by auto
  then show ?case using bit_lines_times [of u a t "nibble_bits v"] Cons.IH [of "t + 48000"] by cases simp_all
qed simp

lemma run_emulator_script:
  assumes "write_script (padded 6 v) 500000 stop_at = Some (script, entry_end)" and "836000 \<le> max_time" and "max_time \<le> stop_at"
    and "ds = map (\<lambda>c. c - 48) (padded 6 v)"
  shows "run_emulator tc passes script max_time s = play tc passes (fst (key_lines 500000 (ds @ [ENTER])) @ [(max_time, Stop)]) s"
    and "entry_end = 836000"
proof -
  let ?lines = "fst (key_lines 500000 (ds @ [ENTER]))"
  have script: "script = ?lines @ [(stop_at, Stop)]" and entry_end: "entry_end = snd (key_lines 500000 (ds @ [ENTER]))"
    using assms(1,4) by (auto simp: write_script_def generate_script_def keys_for_padded split_beta)
  show "entry_end = 836000" using entry_end assms(4) by (simp add: key_lines_Cons(2))
  have "\<forall>x \<in> set ?lines. case x of (t, _) \<Rightarrow> t < max_time"
    using key_lines_times [where t = 500000 and vs = "ds @ [ENTER]"] assms(2,4) by fastforce
  then have "takeWhile (\<lambda>(t, _). t < max_time) script = ?lines"
    using assms(3) unfolding script by (subst takeWhile_append2) auto
  then show "run_emulator tc passes script max_time s = play tc passes (?lines @ [(max_time, Stop)]) s"
    by (simp add: run_emulator_def)
qed

text \<open>The passes of a loop that is entered at \<open>t0\<close>, up to the end of the longer run.\<close>

definition loop_passes :: "instant \<Rightarrow> instant list \<Rightarrow> bool" where
  "loop_passes t0 passes \<longleftrightarrow>
     paced passes \<and> covers 7336000 passes \<and> (\<exists>p ps. passes = p # ps \<and> t0 \<le> p \<and> p \<le> t0 + 17000)"

lemma boot_catching:
  assumes "fw_init (build_epoch_env (of_nat epoch)) t0 = Some s" and "epoch < 2 ^ 64" and "loop_passes t0 passes"
  shows "timely passes s" and "catching \<lparr>boot_epoch = of_nat epoch\<rparr> [] [''lock-client ready''] [] 0 s" and "now s = t0"
proof -
  have "unat (of_nat epoch :: u64) = epoch" using assms(2) by (simp add: unsigned_of_nat take_bit_nat_eq_self)
  then have "system_clock_start (build_epoch_env (of_nat epoch)) = Some \<lparr>boot_epoch = of_nat epoch\<rparr>"
    using parse_show_nat [of epoch "2 ^ 64 - 1"] assms(2) by (simp add: system_clock_start_def build_epoch_env_def)
  with assms(1) show "catching \<lparr>boot_epoch = of_nat epoch\<rparr> [] [''lock-client ready''] [] 0 s" and now: "now s = t0"
    by (auto simp: fw_init_def catching_def install_def)
  have "phase s = AtPoll" using idle_init [OF assms(1)] by (simp add: idle_def)
  with assms(3) now fw_inv_init [OF assms(1)] show "timely passes s" by (auto simp: timely_def loop_passes_def resting_def)
qed

lemma covers_less: "covers T ps \<Longrightarrow> u \<le> T \<Longrightarrow> covers u ps"
  unfolding covers_def by (meson le_trans)

lemma scenario_play:
  assumes "fw_init (build_epoch_env (of_nat epoch)) t0 = Some s" and "t0 \<le> 500000" and "implements_rfc tc"
    and "30 \<le> epoch" and "epoch + 30 < 2 ^ 64" and "loop_passes t0 passes" and "836000 \<le> u" and "u \<le> 7336000"
    and "script = fst (key_lines 500000 (map (\<lambda>c. c - 48) (padded 6 v) @ [ENTER])) @ [(u, Stop)]"
    and "accepted \<longleftrightarrow> padded 6 v \<in> {sim_totp SECRET (epoch - 30), sim_totp SECRET epoch, sim_totp SECRET (epoch + 30)}"
  shows "\<not> accepted \<Longrightarrow> \<exists>s'. play tc passes script s = Some (s', []) \<and> console s' = [''lock-client ready'', ''access denied'']"
    and "accepted \<Longrightarrow> 5853000 \<le> u \<Longrightarrow> \<exists>p q s'. play tc passes script s = Some (s', [(p, True), (q, False)]) \<and>
      p + UNLOCK_DURATION \<le> q \<and> q < p + UNLOCK_DURATION + 17000 \<and> console s' = [''lock-client ready'', ''access granted'', ''re-locked'']"
    and "accepted \<Longrightarrow> \<not> (\<exists>s'. play tc passes script s = Some (s', []))"
proof -
  have "epoch < 2 ^ 64" using assms(5) by simp
  note boot = boot_catching [OF assms(1) this assms(6)]
  let ?ds = "map (\<lambda>c. c - 48) (padded 6 v)"
  have ds: "length ?ds = 6" "\<forall>d \<in> set ?ds. d < 10" by (auto dest!: padded_digit)
  have "covers u passes" using assms(6,8) covers_less by (auto simp: loop_passes_def)
  from play_code [OF boot(1,2) _ this _ ds _ assms(9), of tc] boot(3) assms(2,7)
    accepted_codes [OF assms(3-5), of v] assms(10)
  show "\<not> accepted \<Longrightarrow> \<exists>s'. play tc passes script s = Some (s', []) \<and> console s' = [''lock-client ready'', ''access denied'']"
    and "accepted \<Longrightarrow> 5853000 \<le> u \<Longrightarrow> \<exists>p q s'. play tc passes script s = Some (s', [(p, True), (q, False)]) \<and>
      p + UNLOCK_DURATION \<le> q \<and> q < p + UNLOCK_DURATION + 17000 \<and> console s' = [''lock-client ready'', ''access granted'', ''re-locked'']"
    and "accepted \<Longrightarrow> \<not> (\<exists>s'. play tc passes script s = Some (s', []))"
    by (simp_all add: o_def)
qed

section \<open>Properties\<close>

text \<open>
  C10. The simulated integration tests: however late the loop's passes are, as long as they are at most
  17 ms apart, the run of the script with the code of the second after the build prints
  \<open>access granted\<close>, drives the relay's pin high once and low once, and holds it for the five seconds
  within the test's tolerance. The run of the script with that code plus one is refused with the pin
  left alone if and only if the code plus one is not the code of the window at the build or of one of
  the two next to it, which the lock accepts as well. Every such run is a run of the firmware's step
  relation.
\<close>

theorem simulated_tests:
  assumes "fw_init (build_epoch_env (of_nat epoch)) t0 = Some s" and "t0 \<le> 500000" and "implements_rfc totp_custom"
    and "30 \<le> epoch" and "epoch + 30 < 2 ^ 64" and "loop_passes t0 passes"
  shows "correct_code_scenario totp_custom passes epoch s \<and>
    (wrong_code_scenario totp_custom passes epoch s \<longleftrightarrow>
       wrong_code epoch \<notin> {sim_totp SECRET (epoch - 30), sim_totp SECRET epoch, sim_totp SECRET (epoch + 30)}) \<and>
    (\<forall>script s' tr. script_from t0 script \<longrightarrow> play totp_custom passes script s = Some (s', tr) \<longrightarrow>
       (fw_step totp_custom)\<^sup>*\<^sup>* s s')"
proof (intro conjI)
  have "(epoch + 1) div 30 = epoch div 30 \<or> (epoch + 1) div 30 = (epoch + 30) div 30"
    using div_add_self2 [of 30 epoch] by (simp add: div_Suc)
  then have near: "correct_code epoch \<in> {sim_totp SECRET (epoch - 30), sim_totp SECRET epoch, sim_totp SECRET (epoch + 30)}"
    by (auto simp: correct_code_def sim_totp_def)
  obtain v where v: "correct_code epoch = padded 6 v" by (simp add: correct_code_def sim_totp_def)
  obtain script e where w: "write_script (padded 6 v) 500000 7500000 = Some (script, e)"
    by (simp add: write_script_def generate_script_def keys_for_padded split_beta)
  have max: "836000 \<le> e + 6500000" "e + 6500000 \<le> 7500000" and e: "e = 836000"
    using run_emulator_script(2) [OF w _ order_refl refl] by simp_all
  from scenario_play(2) [OF assms _ _ refl refl, of 7336000 v] near [unfolded v]
  show "correct_code_scenario totp_custom passes epoch s"
    using run_emulator_script(1) [OF w max refl, of totp_custom passes s] e w
    by (auto simp: correct_code_scenario_def v unlocked_on_schedule_def UNLOCK_DURATION_def)
next
  let ?near = "{sim_totp SECRET (epoch - 30), sim_totp SECRET epoch, sim_totp SECRET (epoch + 30)}"
  obtain v where v: "wrong_code epoch = padded 6 v" by (simp add: wrong_code_def)
  obtain script e where w: "write_script (padded 6 v) 500000 3000000 = Some (script, e)"
    by (simp add: write_script_def generate_script_def keys_for_padded split_beta)
  note run = run_emulator_script(1) [OF w _ order_refl refl, of totp_custom passes s]
  from scenario_play(1,3) [OF assms _ _ refl refl, of 3000000 v] run w
  show "wrong_code_scenario totp_custom passes epoch s \<longleftrightarrow> wrong_code epoch \<notin> ?near"
    unfolding v by (cases "padded 6 v \<in> ?near") (auto simp: wrong_code_scenario_def v never_unlocked_def split: option.splits)
next
  have "timely passes s" "now s = t0" using boot_catching [OF assms(1) _ assms(6)] assms(5) by simp_all
  then show "\<forall>script s' tr. script_from t0 script \<longrightarrow> play totp_custom passes script s = Some (s', tr) \<longrightarrow>
      (fw_step totp_custom)\<^sup>*\<^sup>* s s'"
    using play_is_run by blast
qed

lemma paced_regular: "paced (map (\<lambda>i. 5000 * i) [m..<m + n])"
proof (induction n arbitrary: m)
  case (Suc n)
  have "paced (5000 * m # map (\<lambda>i. 5000 * i) [Suc m..<Suc m + n])"
    using Suc.IH [of "Suc m"] by (cases n) (simp_all add: upt_conv_Cons del: upt_Suc)
  then show ?case by (simp add: upt_conv_Cons del: upt_Suc)
qed simp

theorem simulated_tests_witness:
  "\<exists>s. fw_init (build_epoch_env (of_nat 1767225600)) 0 = Some s \<and>
     correct_code_scenario rfc_totp_custom (map (\<lambda>i. 5000 * i) [0..<1500]) 1767225600 s"
proof -
  have "system_clock_start (build_epoch_env (of_nat 1767225600)) \<noteq> None"
    using parse_show_nat [of 1767225600 "2 ^ 64 - 1"] by (simp add: system_clock_start_def build_epoch_env_def)
  then obtain s where s: "fw_init (build_epoch_env (of_nat 1767225600)) 0 = Some s" by (auto simp: fw_init_def)
  have "loop_passes 0 (map (\<lambda>i. 5000 * i) [0..<1500])"
    using paced_regular [of 0 1500] upt_rec [of 0 1500] by (auto simp: loop_passes_def covers_def intro!: bexI [of _ 1499])
  from simulated_tests [OF s _ _ _ _ this, of rfc_totp_custom] s show ?thesis by (auto simp: implements_rfc_def)
qed

end
