(* ===== verification/Introspection.thy ===== *)
theory Introspection
  imports Totp_Server
begin

text \<open>
  Token introspection against Keycloak (\<^verbatim>\<open>totp-server/src/auth/mod.rs\<close> and
  \<^verbatim>\<open>totp-server/src/auth/introspection.rs\<close>): the decision on an introspection response and one
  request's way through \<open>introspect\<close>. Concurrent requests for one token are the subject of the
  theory \<open>Single_Flight\<close>. The HTTP client with its JSON decoding, SHA-256, the clock and the
  broadcast channel are the record \<open>keycloak\<close>.
\<close>

section \<open>Model\<close>

record authenticated_user =
  subject :: ustr
  realm_roles :: "ustr list"

definition has_role :: "authenticated_user \<Rightarrow> ustr \<Rightarrow> bool" where
  "has_role self role = list_ex (\<lambda>r. r = role) (realm_roles self)"

datatype introspection_outcome =
  Active authenticated_user
| Inactive
| WrongAudience
| Unavailable ustr

fun outcome_result :: "introspection_outcome \<Rightarrow> (app_error, authenticated_user) result" where
  "outcome_result (Active user) = Inr user"
| "outcome_result Inactive = Inl Unauthorized"
| "outcome_result WrongAudience = Inl Forbidden"
| "outcome_result (Unavailable reason) = Inl (IntrospectionUnavailable (Msg reason))"

datatype audience = One ustr | Many "ustr list"

fun audience_contains :: "audience \<Rightarrow> ustr \<Rightarrow> bool" where
  "audience_contains (One v) expected = (v = expected)"
| "audience_contains (Many vs) expected = list_ex (\<lambda>v. v = expected) vs"

text \<open>\<open>roles\<close> defaults to the empty list when it is missing.\<close>

record realm_access =
  roles :: "ustr list"

record introspection_response =
  active :: bool
  sub :: "ustr option"
  aud :: "audience option"
  expires :: "int option"
  realm :: "realm_access option"

text \<open>The client; its map of introspections in flight is part of the server's state.\<close>

record introspection_client =
  client_url :: ustr
  client_id :: ustr
  client_secret :: ustr
  client_audience :: ustr

definition introspection_client_new :: "config \<Rightarrow> introspection_client" where
  "introspection_client_new c =
     \<lparr>client_url = introspection_url c, client_id = keycloak_client_id c,
      client_secret = keycloak_client_secret c, client_audience = expected_audience c\<rparr>"

record http_request =
  post_url :: ustr
  basic_auth :: "ustr \<times> ustr"
  form :: "(ustr \<times> ustr) list"

text \<open>A reply: its status as number and text, and what parsing its body as JSON gives.\<close>

record http_reply =
  reply_status :: nat
  reply_status_text :: ustr
  reply_json :: "(ustr, introspection_response) result"

record keycloak =
  http_send :: "nat \<Rightarrow> http_request \<Rightarrow> (ustr, http_reply) result"
  utc_timestamp :: "nat \<Rightarrow> int"
  sha256 :: "ustr \<Rightarrow> bytes"
  recv :: "nat \<Rightarrow> nat \<Rightarrow> introspection_outcome option"

definition is_success :: "nat \<Rightarrow> bool" where
  "is_success s \<longleftrightarrow> 200 \<le> s \<and> s < 300"

definition evaluate ::
  "introspection_client \<Rightarrow> int \<Rightarrow> introspection_response \<Rightarrow> introspection_outcome" where
  "evaluate self now response =
     (if \<not> active response then Inactive
      else if (case expires response of Some e \<Rightarrow> e \<le> now | None \<Rightarrow> False) then Inactive
      else if \<not> (case aud response of
                   Some a \<Rightarrow> audience_contains a (client_audience self) | None \<Rightarrow> False)
      then WrongAudience
      else (case sub response of
              None \<Rightarrow> Unavailable (lit ''introspection response omitted the `sub` claim'')
            | Some s \<Rightarrow>
                Active \<lparr>subject = s,
                        realm_roles = (case realm response of Some r \<Rightarrow> roles r | None \<Rightarrow> [])\<rparr>))"

definition introspection_request :: "introspection_client \<Rightarrow> ustr \<Rightarrow> http_request" where
  "introspection_request self token =
     \<lparr>post_url = client_url self, basic_auth = (client_id self, client_secret self),
      form = [(lit ''token'', token)]\<rparr>"

definition call ::
  "keycloak \<Rightarrow> introspection_client \<Rightarrow> ustr \<Rightarrow> introspection_outcome server" where
  "call K self token = do {
     response \<leftarrow> draw (\<lambda>t. http_send K t (introspection_request self token));
     case response of
       Inl err \<Rightarrow> State_Monad.return
         (Unavailable (lit ''could not reach the introspection endpoint: '' @ err))
     | Inr response \<Rightarrow>
         if \<not> is_success (reply_status response)
         then State_Monad.return
           (Unavailable (lit ''introspection endpoint returned HTTP '' @ reply_status_text response))
         else (case reply_json response of
                 Inl err \<Rightarrow> State_Monad.return
                   (Unavailable (lit ''could not parse the introspection response: '' @ err))
               | Inr response_body \<Rightarrow> do {
                   now \<leftarrow> draw (utc_timestamp K);
                   State_Monad.return (evaluate self now response_body)
                 })
   }"

text \<open>
  One request's \<open>introspect\<close>. A channel is named by the tick of its creation. The leader's
  \<open>send\<close> has no effect on its own state; \<open>InflightGuard::drop\<close> is the removal of the key.
\<close>

definition join_or_lead :: "bytes \<Rightarrow> nat option server" where
  "join_or_lead key = do {
     tx \<leftarrow> draw (\<lambda>t. t);
     State (\<lambda>w. case inflight w key of
        Some rx \<Rightarrow> (Some rx, w)
      | None \<Rightarrow> (None, w\<lparr>inflight := (inflight w)(key \<mapsto> tx)\<rparr>))
   }"

definition drop_guard :: "bytes \<Rightarrow> unit server" where
  "drop_guard key = update (\<lambda>w. w\<lparr>inflight := (inflight w)(key := None)\<rparr>)"

definition introspect ::
  "keycloak \<Rightarrow> introspection_client \<Rightarrow> ustr \<Rightarrow> introspection_outcome server" where
  "introspect K self token = do {
     let key = sha256 K token;
     follower \<leftarrow> join_or_lead key;
     case follower of
       Some rx \<Rightarrow> do {
         received \<leftarrow> draw (\<lambda>t. recv K t rx);
         case received of
           Some outcome \<Rightarrow> State_Monad.return outcome
         | None \<Rightarrow> call K self token
       }
     | None \<Rightarrow> do {
         outcome \<leftarrow> call K self token;
         drop_guard key;
         State_Monad.return outcome
       }
   }"

definition authenticate ::
  "keycloak \<Rightarrow> introspection_client \<Rightarrow> ustr \<Rightarrow> (app_error, authenticated_user) result server" where
  "authenticate K self token = do {
     outcome \<leftarrow> introspect K self token;
     State_Monad.return (outcome_result outcome)
   }"

section \<open>Lemmas\<close>

text \<open>
  The outcome of a call whose reply Keycloak decides at tick \<open>d\<close> and whose expiry is checked
  with the clock of tick \<open>t\<close>.
\<close>

definition call_outcome ::
  "keycloak \<Rightarrow> introspection_client \<Rightarrow> ustr \<Rightarrow> nat \<Rightarrow> nat \<Rightarrow> introspection_outcome" where
  "call_outcome K self token d t =
     (case http_send K d (introspection_request self token) of
        Inl err \<Rightarrow> Unavailable (lit ''could not reach the introspection endpoint: '' @ err)
      | Inr r \<Rightarrow>
          if \<not> is_success (reply_status r)
          then Unavailable (lit ''introspection endpoint returned HTTP '' @ reply_status_text r)
          else (case reply_json r of
                  Inl err \<Rightarrow> Unavailable (lit ''could not parse the introspection response: '' @ err)
                | Inr b \<Rightarrow> evaluate self (utc_timestamp K t) b))"

lemma run_call:
  "\<exists>n. run_state (call K self token) w =
     (call_outcome K self token (tick w) (Suc (tick w)), w\<lparr>tick := n\<rparr>) \<and> tick w < n"
  by (auto simp: call_def call_outcome_def split: sum.splits)

text \<open>A request that finds nothing in flight for its token asks Keycloak itself.\<close>

lemma run_introspect_alone:
  assumes "inflight w (sha256 K token) = None"
  shows "\<exists>n. run_state (introspect K self token) w =
     (call_outcome K self token (Suc (tick w)) (Suc (Suc (tick w))), w\<lparr>tick := n\<rparr>) \<and> tick w < n"
proof -
  let ?w = "w\<lparr>tick := Suc (tick w), inflight := (inflight w)(sha256 K token \<mapsto> tick w)\<rparr>"
  obtain n where n: "run_state (call K self token) ?w =
      (call_outcome K self token (tick ?w) (Suc (tick ?w)), ?w\<lparr>tick := n\<rparr>)" "tick ?w < n"
    using run_call [of K self token ?w] by blast
  have "(inflight w)(sha256 K token := None) = inflight w" using assms by auto
  with assms n show ?thesis
    by (intro exI [of _ n]) (simp add: introspect_def join_or_lead_def drop_guard_def Let_def)
qed

lemma call_effects [frame_simps]:
  "state_io_rel extends (call K self token)" "state_io_rel same_secrets (call K self token)"
  "state_io_rel same_inflight (call K self token)" "state_io_rel same_audit (call K self token)"
  unfolding call_def by (auto intro!: effect_intros frame_simps split: sum.splits)

lemma flight_effects [frame_simps]:
  "state_io_rel extends (join_or_lead k)" "state_io_rel same_secrets (join_or_lead k)"
  "state_io_rel same_audit (join_or_lead k)"
  "state_io_rel extends (drop_guard k)" "state_io_rel same_secrets (drop_guard k)"
  "state_io_rel same_audit (drop_guard k)"
  by (auto simp: state_io_rel_def join_or_lead_def drop_guard_def extends_def same_secrets_def
      same_audit_def split: option.splits)

lemma introspect_effects [frame_simps]:
  "state_io_rel extends (introspect K self token)"
  "state_io_rel same_secrets (introspect K self token)"
  "state_io_rel same_audit (introspect K self token)"
  unfolding introspect_def Let_def
  by (auto intro!: effect_intros frame_simps split: option.splits)

lemma authenticate_effects [frame_simps]:
  "state_io_rel extends (authenticate K self token)"
  "state_io_rel same_secrets (authenticate K self token)"
  "state_io_rel same_audit (authenticate K self token)"
  unfolding authenticate_def by (auto intro!: effect_intros frame_simps)

lemma run_authenticate_alone:
  assumes "inflight w (sha256 K token) = None"
  shows "\<exists>n. run_state (authenticate K self token) w =
     (outcome_result (call_outcome K self token (Suc (tick w)) (Suc (Suc (tick w)))), w\<lparr>tick := n\<rparr>) \<and>
     tick w < n"
  using run_introspect_alone [OF assms, of self] by (auto simp: authenticate_def)

text \<open>When an answer of Keycloak vouches for a user.\<close>

definition vouches :: "ustr \<Rightarrow> int \<Rightarrow> introspection_response \<Rightarrow> authenticated_user \<Rightarrow> bool" where
  "vouches audience now r user \<longleftrightarrow>
     active r \<and> (case expires r of Some e \<Rightarrow> now < e | None \<Rightarrow> True) \<and>
     (aud r = Some (One audience) \<or> (\<exists>vs. aud r = Some (Many vs) \<and> audience \<in> set vs)) \<and>
     sub r = Some (subject user) \<and>
     realm_roles user = (case realm r of Some a \<Rightarrow> roles a | None \<Rightarrow> [])"

lemma audience_contains_iff:
  "audience_contains a x \<longleftrightarrow> a = One x \<or> (\<exists>vs. a = Many vs \<and> x \<in> set vs)"
  by (cases a) (auto simp: list_ex_iff)

lemma evaluate_Active: "evaluate self now r = Active u \<longleftrightarrow> vouches (client_audience self) now r u"
  by (cases u)
    (auto simp: evaluate_def vouches_def audience_contains_iff not_le split: option.splits if_splits)

lemma outcome_result_Inr: "outcome_result out = Inr u \<longleftrightarrow> out = Active u"
  by (cases out) auto

lemma call_outcome_Active:
  "call_outcome K self token d t = Active u \<longleftrightarrow>
     (\<exists>r b. http_send K d (introspection_request self token) = Inr r \<and>
        200 \<le> reply_status r \<and> reply_status r < 300 \<and> reply_json r = Inr b \<and>
        vouches (client_audience self) (utc_timestamp K t) b u)"
  by (auto simp: call_outcome_def is_success_def evaluate_Active split: sum.splits)

section \<open>Properties\<close>

text \<open>
  C8. Introspection never fails open: with no call in flight for its token, a request is
  authenticated as a user exactly when Keycloak answers its call with a success status and
  a well-formed body that is active, not expired by the server's clock, meant for this
  server and names that user's subject and roles. Every other answer is an error: 401 when
  the body is inactive or expired, 403 when its audience is wrong, and otherwise, the network
  and parse errors included, 503.
\<close>

theorem authentication_never_fails_open:
  assumes "inflight w (sha256 K token) = None"
    and "run_state (authenticate K self token) w = (res, w')"
    and "reply = http_send K (Suc (tick w)) (introspection_request self token)"
    and "now = utc_timestamp K (Suc (Suc (tick w)))"
  shows "(res = Inr u \<longleftrightarrow>
      (\<exists>r b. reply = Inr r \<and> 200 \<le> reply_status r \<and> reply_status r < 300 \<and> reply_json r = Inr b \<and>
         vouches (client_audience self) now b u)) \<and>
    (res = Inl Unauthorized \<longleftrightarrow>
      (\<exists>r b. reply = Inr r \<and> is_success (reply_status r) \<and> reply_json r = Inr b \<and>
         (\<not> active b \<or> (\<exists>e. expires b = Some e \<and> e \<le> now)))) \<and>
    (res = Inl Forbidden \<longleftrightarrow>
      (\<exists>r b. reply = Inr r \<and> is_success (reply_status r) \<and> reply_json r = Inr b \<and>
         active b \<and> (\<forall>e. expires b = Some e \<longrightarrow> now < e) \<and>
         (\<forall>a. aud b = Some a \<longrightarrow> \<not> audience_contains a (client_audience self)))) \<and>
    (\<forall>e. res = Inl e \<longrightarrow> e = Unauthorized \<or> e = Forbidden \<or> (\<exists>src. e = IntrospectionUnavailable src)) \<and>
    inflight w' = inflight w"
proof -
  let ?out = "call_outcome K self token (Suc (tick w)) (Suc (Suc (tick w)))"
  from run_authenticate_alone [OF assms(1), of self] assms(2)
  have res: "res = outcome_result ?out" and w': "inflight w' = inflight w" by auto
  have U: "res = Inl Unauthorized \<longleftrightarrow> ?out = Inactive" and F: "res = Inl Forbidden \<longleftrightarrow> ?out = WrongAudience"
    unfolding res by (cases ?out; simp)+
  have A: "res = Inr u \<longleftrightarrow> ?out = Active u" unfolding res by (rule outcome_result_Inr)
  have E: "\<forall>e. res = Inl e \<longrightarrow> e = Unauthorized \<or> e = Forbidden \<or> (\<exists>src. e = IntrospectionUnavailable src)"
    unfolding res by (cases ?out) auto
  have U': "?out = Inactive \<longleftrightarrow>
      (\<exists>r b. reply = Inr r \<and> is_success (reply_status r) \<and> reply_json r = Inr b \<and>
         (\<not> active b \<or> (\<exists>e. expires b = Some e \<and> e \<le> now)))"
    using assms(3,4) by (auto simp: call_outcome_def evaluate_def split: sum.splits option.splits)
  have F': "?out = WrongAudience \<longleftrightarrow>
      (\<exists>r b. reply = Inr r \<and> is_success (reply_status r) \<and> reply_json r = Inr b \<and>
         active b \<and> (\<forall>e. expires b = Some e \<longrightarrow> now < e) \<and>
         (\<forall>a. aud b = Some a \<longrightarrow> \<not> audience_contains a (client_audience self)))"
    using assms(3,4)
    by (auto simp: call_outcome_def evaluate_def not_le split: sum.splits option.splits)
  from A U F U' F' E w' show ?thesis by (simp add: call_outcome_Active assms(3,4))
qed

text \<open>A Keycloak for examples: it vouches for user \<open>u\<close> with the admin role.\<close>

definition demo_reply :: http_reply where
  "demo_reply =
     \<lparr>reply_status = 200, reply_status_text = lit ''200 OK'',
      reply_json = Inr \<lparr>active = True, sub = Some (lit ''u''), aud = Some (One (lit ''totp-server'')),
        expires = Some 1000, realm = Some \<lparr>roles = [lit ''totp-admin'']\<rparr>\<rparr>\<rparr>"

definition demo_keycloak :: keycloak where
  "demo_keycloak =
     \<lparr>http_send = (\<lambda>t req. Inr demo_reply), utc_timestamp = (\<lambda>t. int t),
      sha256 = (\<lambda>s. map of_nat s), recv = (\<lambda>t rx. None)\<rparr>"

theorem authentication_never_fails_open_witness:
  "\<exists>w'. run_state (authenticate demo_keycloak (introspection_client_new demo_config) [116]) world_init =
     (Inr \<lparr>subject = lit ''u'', realm_roles = [lit ''totp-admin'']\<rparr>, w')"
proof -
  let ?self = "introspection_client_new demo_config"
  obtain res w' where run: "run_state (authenticate demo_keycloak ?self [116]) world_init = (res, w')"
    by fastforce
  have none: "inflight world_init (sha256 demo_keycloak [116]) = None" by (simp add: world_init_def)
  have "res = Inr \<lparr>subject = lit ''u'', realm_roles = [lit ''totp-admin'']\<rparr>"
    using authentication_never_fails_open [OF none run refl refl,
        of "\<lparr>subject = lit ''u'', realm_roles = [lit ''totp-admin'']\<rparr>"]
    by (simp add: demo_keycloak_def demo_reply_def vouches_def introspection_client_new_def
        demo_config_def world_init_def)
  with run show ?thesis by blast
qed

end
