(* ===== verification/Rate_Limit.thy ===== *)
theory Rate_Limit
  imports Introspection
begin

text \<open>
  Rate limiting per subject (\<^verbatim>\<open>totp-server/src/rate_limit.rs\<close>). The limiter itself is the
  \<open>tower_governor\<close> crate: a record of functions, of which the configuration built here and the
  history of checks decide whether a check passes. What the crate documents, the generic cell
  rate algorithm, is the hypothesis \<open>token_bucket\<close>. Times of the limiter are in milliseconds.
\<close>

section \<open>Model\<close>

text \<open>
  A request as the layers see it: the \<open>Authorization\<close> header if there is one, with the result
  of \<open>to_str\<close>; the user among the request's extensions; and the payload of a provisioning
  request, or the response with which the \<open>Json\<close> extractor rejects it.
\<close>

record provision_request =
  for_subject :: ustr

record server_request =
  authorization :: "(unit, ustr) result option"
  extension_user :: "authenticated_user option"
  provision_payload :: "(response, provision_request) result"

datatype governor_error = TooManyRequests | UnableToExtractKey

record governor_config =
  period :: nat
  burst_size :: u32

record governor =
  builder_finish :: "governor_config \<Rightarrow> governor_config option"
  admits :: "governor_config \<Rightarrow> (ustr \<times> nat) list \<Rightarrow> ustr \<Rightarrow> nat \<Rightarrow> bool"
  limiter_now :: "nat \<Rightarrow> nat"
  error_response :: "governor_error \<Rightarrow> response"

definition extractor_name :: ustr where
  "extractor_name = lit ''authenticated subject''"

definition extract_key :: "server_request \<Rightarrow> (governor_error, ustr) result" where
  "extract_key req =
     (case map_option subject (extension_user req) of
        None \<Rightarrow> Inl UnableToExtractKey
      | Some key \<Rightarrow> Inr key)"

definition key_name :: "ustr \<Rightarrow> ustr option" where
  "key_name key = Some key"

text \<open>The multiplication wraps around at 64 bits, as in a release build.\<close>

definition refill_millis :: "config \<Rightarrow> u64" where
  "refill_millis c = rate_limit_window_seconds c * 1000 div ucast (rate_limit_max_requests c)"

definition rate_limit_config :: "governor \<Rightarrow> config \<Rightarrow> (anyhow, governor_config) result" where
  "rate_limit_config G c =
     (case builder_finish G \<lparr>period = unat (refill_millis c), burst_size = rate_limit_max_requests c\<rparr> of
        None \<Rightarrow> Inl (Msg (lit ''invalid rate limit configuration''))
      | Some g \<Rightarrow> Inr g)"

section \<open>The token bucket\<close>

text \<open>
  The generic cell rate algorithm for one key: the theoretical arrival time after a list of
  checks, and the times of the checks that pass.
\<close>

definition conforms :: "nat \<Rightarrow> nat \<Rightarrow> nat \<Rightarrow> nat \<Rightarrow> bool" where
  "conforms p b tat t \<longleftrightarrow> tat \<le> t + (b - 1) * p"

fun arrival_time :: "nat \<Rightarrow> nat \<Rightarrow> nat \<Rightarrow> nat list \<Rightarrow> nat" where
  "arrival_time p b tat [] = tat"
| "arrival_time p b tat (t # ts) =
     arrival_time p b (if conforms p b tat t then max tat t + p else tat) ts"

fun passing :: "nat \<Rightarrow> nat \<Rightarrow> nat \<Rightarrow> nat list \<Rightarrow> nat list" where
  "passing p b tat [] = []"
| "passing p b tat (t # ts) =
     (if conforms p b tat t then t # passing p b (max tat t + p) ts else passing p b tat ts)"

definition times_of :: "ustr \<Rightarrow> (ustr \<times> nat) list \<Rightarrow> nat list" where
  "times_of k h = map snd (filter (\<lambda>x. fst x = k) h)"

text \<open>
  What the crate documents: a configuration with a zero period or burst is refused, any other
  is taken as it is; each key has a bucket of its own, of the burst size, that gets one cell
  back per period; and a refused request is answered with status 429.
\<close>

definition token_bucket :: "governor \<Rightarrow> bool" where
  "token_bucket G \<longleftrightarrow>
     (\<forall>g. builder_finish G g = (if period g = 0 \<or> burst_size g = 0 then None else Some g)) \<and>
     (\<forall>g h k t. admits G g h k t \<longleftrightarrow>
        conforms (period g) (unat (burst_size g))
          (arrival_time (period g) (unat (burst_size g)) 0 (times_of k h)) t) \<and>
     status (error_response G TooManyRequests) = 429"

text \<open>The times at which a key's checks passed, over a history of checks.\<close>

fun granted :: "governor \<Rightarrow> governor_config \<Rightarrow> ustr \<Rightarrow> (ustr \<times> nat) list \<Rightarrow> (ustr \<times> nat) list \<Rightarrow> nat list" where
  "granted G g k past [] = []"
| "granted G g k past ((k', t) # h) =
     (if k' = k \<and> admits G g past k t then [t] else []) @ granted G g k (past @ [(k', t)]) h"

lemma times_of_simps [simp]:
  "times_of k [] = []" "times_of k (h @ h') = times_of k h @ times_of k h'"
  "times_of k ((k', t) # h) = (if k' = k then t # times_of k h else times_of k h)"
  by (simp_all add: times_of_def)

lemma arrival_time_snoc [simp]:
  "arrival_time p b tat (ts @ [t]) =
     (let a = arrival_time p b tat ts in if conforms p b a t then max a t + p else a)"
  by (induction ts arbitrary: tat) (auto simp: Let_def)

lemma granted_passing:
  assumes "token_bucket G"
  shows "granted G g k past h =
     passing (period g) (unat (burst_size g))
       (arrival_time (period g) (unat (burst_size g)) 0 (times_of k past)) (times_of k h)"
  using assms
  by (induction h arbitrary: past) (auto simp: token_bucket_def Let_def)

text \<open>The bound of the algorithm: within \<open>[a, e]\<close>, the bucket and what comes back in between.\<close>

lemma passing_bound:
  assumes "0 < b"
  shows "passing_in = filter (\<lambda>t. a \<le> t \<and> t \<le> e) (passing p b tat ts) \<Longrightarrow>
     passing_in = [] \<or> length passing_in * p + max tat a \<le> e + b * p"
proof (induction ts arbitrary: tat passing_in)
  case (Cons t ts)
  have b: "(b - 1) * p + p = b * p" using assms by (cases b) simp_all
  let ?rest = "filter (\<lambda>t. a \<le> t \<and> t \<le> e) (passing p b (max tat t + p) ts)"
  note IH = Cons.IH [of ?rest "max tat t + p", OF refl]
  show ?case
  proof (cases "conforms p b tat t")
    case False
    with Cons show ?thesis by simp
  next
    case True
    then have tat: "tat \<le> t + (b - 1) * p" by (simp add: conforms_def)
    show ?thesis
    proof (cases "a \<le> t \<and> t \<le> e")
      case True
      then have "passing_in = t # ?rest" using Cons.prems \<open>conforms p b tat t\<close> by simp
      moreover have "p + max tat a \<le> e + b * p" using tat True b by linarith
      moreover have "max tat a + p \<le> max (max tat t + p) a" using True by linarith
      ultimately show ?thesis using IH by (auto simp: algebra_simps)
    next
      case False
      then have "passing_in = ?rest" using Cons.prems \<open>conforms p b tat t\<close> by auto
      with IH show ?thesis by auto
    qed
  qed
qed simp

lemma refill_unwrapped:
  assumes "unat (rate_limit_window_seconds c) * 1000 < 2 ^ 64"
  shows "unat (refill_millis c) =
     unat (rate_limit_window_seconds c) * 1000 div unat (rate_limit_max_requests c)"
proof -
  have "unat (rate_limit_window_seconds c * 1000) = unat (rate_limit_window_seconds c) * 1000"
    using assms by (simp add: unat_word_ariths)
  then show ?thesis
    by (simp add: refill_millis_def unat_div_distrib unat_ucast_up)
qed

lemma config_positive:
  "config_valid c \<Longrightarrow> 0 < unat (rate_limit_max_requests c) \<and> 0 < unat (rate_limit_window_seconds c)"
  by (auto simp: config_valid_def word_at_least_one unat_eq_zero intro!: gr0I)

lemma rate_limit_config_ok:
  "token_bucket G \<Longrightarrow> rate_limit_config G c = Inr g \<longleftrightarrow>
     g = \<lparr>period = unat (refill_millis c), burst_size = rate_limit_max_requests c\<rparr> \<and>
     0 < unat (refill_millis c) \<and> rate_limit_max_requests c \<noteq> 0"
  by (auto simp: token_bucket_def rate_limit_config_def)

text \<open>A limiter for examples: the documented algorithm itself.\<close>

definition demo_governor :: governor where
  "demo_governor =
     \<lparr>builder_finish = (\<lambda>g. if period g = 0 \<or> burst_size g = 0 then None else Some g),
      admits = (\<lambda>g h k t. conforms (period g) (unat (burst_size g))
        (arrival_time (period g) (unat (burst_size g)) 0 (times_of k h)) t),
      limiter_now = (\<lambda>t. t),
      error_response = (\<lambda>e. case e of
          TooManyRequests \<Rightarrow> \<lparr>status = 429, body = Raw (lit ''Too Many Requests!'')\<rparr>
        | UnableToExtractKey \<Rightarrow> \<lparr>status = 500, body = Raw (lit ''Unable To Extract Key!'')\<rparr>)\<rparr>"

lemma demo_token_bucket: "token_bucket demo_governor"
  by (simp add: token_bucket_def demo_governor_def)

lemma demo_rates:
  "rate_limit_max_requests demo_config = 6" "rate_limit_window_seconds demo_config = 300"
  by (simp_all add: demo_config_def)

lemma demo_refill: "refill_millis demo_config = 50000"
  by (simp add: refill_millis_def demo_config_def)

lemma demo_rate_limit_config:
  "rate_limit_config demo_governor demo_config = Inr \<lparr>period = 50000, burst_size = 6\<rparr>"
  by (simp add: rate_limit_config_def demo_refill demo_governor_def) (simp add: demo_config_def)

section \<open>Properties\<close>

text \<open>
  The limiter is set up for the configured rate: for a window whose milliseconds fit in 64
  bits, the period is the largest number of whole milliseconds of which \<open>max\<close> fit in the
  window, and the bucket holds \<open>max\<close> requests; a budget of more than one request per
  millisecond is refused when the router is built.
\<close>

theorem refill_matches_configuration:
  assumes "token_bucket G" and "config_valid c"
    and "unat (rate_limit_window_seconds c) * 1000 < 2 ^ 64"
    and "window = unat (rate_limit_window_seconds c) * 1000"
    and "budget = unat (rate_limit_max_requests c)"
  shows "if window < budget
    then rate_limit_config G c = Inl (Msg (lit ''invalid rate limit configuration''))
    else (\<exists>g. rate_limit_config G c = Inr g \<and> unat (burst_size g) = budget \<and> 0 < period g \<and>
            budget * period g \<le> window \<and> window < budget * (period g + 1))"
proof -
  have r: "unat (refill_millis c) = window div budget" using refill_unwrapped assms by simp
  have b: "0 < budget" using config_positive [OF assms(2)] assms(5) by simp
  show ?thesis
  proof (cases "window < budget")
    case True
    with r assms(1) show ?thesis by (simp add: rate_limit_config_def token_bucket_def)
  next
    case False
    then have "0 < window div budget" using b by (simp add: div_greater_zero_iff)
    moreover have "budget * (window div budget) \<le> window" by simp
    moreover have "window < budget * (window div budget + 1)"
      using b by (metis Suc_eq_plus1 dividend_less_times_div mult_Suc_right add.commute)
    moreover have "rate_limit_max_requests c \<noteq> 0" using b assms(5) by auto
    ultimately show ?thesis using False r assms(1,5) by (simp add: rate_limit_config_ok)
  qed
qed

theorem refill_matches_configuration_witness:
  "\<exists>g. rate_limit_config demo_governor demo_config = Inr g \<and> unat (burst_size g) = 6 \<and>
     6 * period g \<le> 300000 \<and> 300000 < 6 * (period g + 1)"
proof -
  have "unat (rate_limit_window_seconds demo_config) * 1000 < 2 ^ 64"
    "300000 = unat (rate_limit_window_seconds demo_config) * 1000"
    "6 = unat (rate_limit_max_requests demo_config)" "\<not> (300000 :: nat) < 6"
    by (simp_all add: demo_rates)
  then show ?thesis
    using refill_matches_configuration [OF demo_token_bucket demo_config_valid, of 300000 6] by meson
qed

text \<open>
  What a subject can get: over any history of checks, a closed interval as long as the
  configured window contains at most the budget plus the number of periods in the window
  passed checks of one subject, however often and for whomever else the limiter is asked. When
  the budget divides the window's milliseconds this is twice the budget.
\<close>

theorem subject_budget_per_window:
  assumes "token_bucket G" and "config_valid c" and "rate_limit_config G c = Inr g"
    and "window = unat (rate_limit_window_seconds c) * 1000" and "window < 2 ^ 64"
    and "budget = unat (rate_limit_max_requests c)"
    and "n = length (filter (\<lambda>t. a \<le> t \<and> t \<le> a + window) (granted G g k [] h))"
  shows "n \<le> budget + window div period g \<and> (budget dvd window \<longrightarrow> n \<le> 2 * budget)"
proof -
  have b: "0 < budget" using config_positive [OF assms(2)] assms(6) by simp
  have g: "unat (burst_size g) = budget" "period g = window div budget" "0 < period g"
    using assms by (auto simp: rate_limit_config_ok refill_unwrapped)
  have "n * period g + a \<le> a + window + budget * period g \<or> n = 0"
    using passing_bound [OF b refl, of a "a + window" "period g" 0 "times_of k h"] assms(7) g(1)
    by (auto simp: granted_passing [OF assms(1)])
  then have "n * period g \<le> window + budget * period g" by auto
  then have "n * period g div period g \<le> (window + budget * period g) div period g"
    by (rule div_le_mono)
  then have bound: "n \<le> budget + window div period g" using g(3) by simp
  moreover have "window div period g = budget" if "budget dvd window"
    using that g(2,3) b by (auto elim!: dvdE)
  ultimately show ?thesis by auto
qed

theorem subject_budget_per_window_witness:
  "length (filter (\<lambda>t. 0 \<le> t \<and> t \<le> 0 + 300000)
     (granted demo_governor \<lparr>period = 50000, burst_size = 6\<rparr> [117] [] [([117], 0), ([117], 1)])) \<le> 12"
proof -
  have d: "(6 :: nat) dvd 300000" by simp
  from subject_budget_per_window [OF demo_token_bucket demo_config_valid demo_rate_limit_config,
      of 300000 6, OF _ _ _ refl, of 0 "[117]" "[([117], 0), ([117], 1)]"] d
  show ?thesis by (simp add: demo_rates)
qed

text \<open>
  A very long window is not a slow limiter: the configuration check accepts a window of
  18446744073709552 seconds, whose milliseconds wrap around, so that the limiter gives back a
  request every 64 milliseconds.
\<close>

theorem long_window_wraps:
  "\<exists>c. config_valid c \<and> rate_limit_window_seconds c = 18446744073709552 \<and>
     rate_limit_max_requests c = 6 \<and> refill_millis c = 64"
proof -
  let ?c = "demo_config\<lparr>rate_limit_window_seconds := 18446744073709552\<rparr>"
  have "config_valid ?c" using demo_config_valid by (simp add: config_valid_def word_at_least_one)
  moreover have "refill_millis ?c = 64" by (simp add: refill_millis_def demo_config_def)
  ultimately show ?thesis by (intro exI [of _ ?c]) (simp add: demo_config_def)
qed

end
