(* ===== verification/Middleware.thy ===== *)
theory Middleware
  imports Rate_Limit
begin

text \<open>
  The layers around the handlers (\<^verbatim>\<open>totp-server/src/auth/middleware.rs\<close>) and the state they
  share (\<^verbatim>\<open>totp-server/src/state.rs\<close>). A service takes a request and gives a response, or none
  when the task panics; a layer wraps a service.
\<close>

section \<open>Model\<close>

definition INTROSPECTION_TIMEOUT :: nat where
  "INTROSPECTION_TIMEOUT = 5"

record app_state =
  app_config :: config
  introspection :: introspection_client
  secrets :: secret_store

text \<open>\<open>build\<close> is what building the HTTP client with the timeout gives.\<close>

definition app_state_new :: "(nat \<Rightarrow> (ustr, unit) result) \<Rightarrow> config \<Rightarrow> (anyhow, app_state) result" where
  "app_state_new build c =
     and_then (map_err Wrapped (build INTROSPECTION_TIMEOUT)) (\<lambda>_.
       Inr \<lparr>app_config = c, introspection = introspection_client_new c,
            secrets = secret_store_new (crypto_new (encryption_key c))\<rparr>)"

text \<open>Everything outside the program.\<close>

record externals =
  aead :: aead
  db :: db
  totp_rs :: totp_rs
  keycloak :: keycloak
  governor :: governor
  system_time :: "nat \<Rightarrow> int"
  missing_extension :: response

type_synonym service = "server_request \<Rightarrow> response option server"

definition bearer_token :: "server_request \<Rightarrow> ustr option" where
  "bearer_token req =
     (case authorization req of
        None \<Rightarrow> None
      | Some (Inl _) \<Rightarrow> None
      | Some (Inr v) \<Rightarrow>
          (case split_once 32 v of
             None \<Rightarrow> None
           | Some (scheme, rest) \<Rightarrow>
               if \<not> eq_ignore_ascii_case scheme (lit ''bearer'') then None
               else (let tok = trim rest in if tok = [] then None else Some tok)))"

text \<open>An \<open>Err\<close> of a handler or layer becomes a response through \<open>into_response\<close>.\<close>

definition reply_error :: "app_error \<Rightarrow> response option server" where
  "reply_error e = do {
     emit (snd (into_response e));
     State_Monad.return (Some (fst (into_response e)))
   }"

definition authenticated_line :: "ustr \<Rightarrow> log_line" where
  "authenticated_line subj =
     \<lparr>level = Debug, log_fields = [(lit ''subject'', Display subj)],
      message = lit ''request authenticated''\<rparr>"

definition require_authentication :: "externals \<Rightarrow> app_state \<Rightarrow> service \<Rightarrow> service" where
  "require_authentication X st next_service req =
     (case bearer_token req of
        None \<Rightarrow> do {
          log_request (db X) (secrets st) None DeniedInactiveToken;
          reply_error Unauthorized
        }
      | Some tok \<Rightarrow> do {
          r \<leftarrow> authenticate (keycloak X) (introspection st) tok;
          case r of
            Inl err \<Rightarrow>
              if err = Unauthorized \<or> err = Forbidden
              then do {
                log_request (db X) (secrets st) None DeniedInactiveToken;
                reply_error err
              }
              else reply_error err
          | Inr user \<Rightarrow> do {
              emit (authenticated_line (subject user));
              next_service (req\<lparr>extension_user := Some user\<rparr>)
            }
        })"

definition rate_limited_line :: "ustr option \<Rightarrow> log_line" where
  "rate_limited_line subj =
     \<lparr>level = Warn,
      log_fields = [(lit ''subject'', Display (case subj of None \<Rightarrow> lit ''<unknown>'' | Some s \<Rightarrow> s))],
      message = lit ''rate limit exceeded''\<rparr>"

definition audit_rate_limited :: "externals \<Rightarrow> app_state \<Rightarrow> service \<Rightarrow> service" where
  "audit_rate_limited X st next_service req = do {
     let subj = map_option subject (extension_user req);
     answer \<leftarrow> next_service req;
     case answer of
       None \<Rightarrow> State_Monad.return None
     | Some resp \<Rightarrow>
         if status resp = 429
         then do {
           emit (rate_limited_line subj);
           log_request (db X) (secrets st) subj RateLimitedResult;
           State_Monad.return (Some resp)
         }
         else State_Monad.return (Some resp)
   }"

text \<open>
  \<open>GovernorLayer\<close> around a service, with the key extractor of \<^verbatim>\<open>rate_limit.rs\<close>: the crate's
  answers are the functions of \<open>governor\<close>.
\<close>

definition governor_layer :: "governor \<Rightarrow> governor_config \<Rightarrow> service \<Rightarrow> service" where
  "governor_layer G g next_service req =
     (case extract_key req of
        Inl e \<Rightarrow> State_Monad.return (Some (error_response G e))
      | Inr k \<Rightarrow> do {
          t \<leftarrow> draw (limiter_now G);
          w \<leftarrow> State_Monad.get;
          update (\<lambda>w. w\<lparr>limiter_log := limiter_log w @ [(k, t)]\<rparr>);
          if admits G g (limiter_log w) k t then next_service req
          else State_Monad.return (Some (error_response G TooManyRequests))
        })"

section \<open>Lemmas\<close>

text \<open>What a call of \<open>log_request\<close> does to the audit trail, failures of the database included.\<close>

definition audits :: "world \<Rightarrow> world \<Rightarrow> ustr option \<Rightarrow> request_result \<Rightarrow> bool" where
  "audits w w' subj res \<longleftrightarrow>
     (\<exists>row. request_log w' = request_log w @ [row] \<and> log_subject row = subj \<and>
        log_result row = as_str res) \<or>
     request_log w' = request_log w \<and>
       (\<exists>l \<in> set (drop (length (trace w)) (trace w')). audit_lost subj res l)"

lemma log_request_audits:
  "run_state (log_request D self subj res) w = (u, w') \<Longrightarrow> audits w w' subj res"
  using run_log_request [of D self subj res w u w'] by (auto simp: audits_def audit_row_def)

lemma audits_before:
  "same_audit w w1 \<Longrightarrow> extends w w1 \<Longrightarrow> audits w1 w' subj res \<Longrightarrow> audits w w' subj res"
  using extends_news(2) [of w w1 w' w'] by (auto simp: audits_def same_audit_def audit.R_refl)

lemma audits_after:
  "audits w w1 subj res \<Longrightarrow> same_audit w1 w' \<Longrightarrow> extends w1 w' \<Longrightarrow> audits w w' subj res"
  using extends_news(2) [of w w w1 w'] by (auto simp: audits_def same_audit_def audit.R_refl)

lemma run_reply_error:
  "run_state (reply_error e) w =
     (Some (fst (into_response e)), w\<lparr>trace := trace w @ [error_log e]\<rparr>)"
  by (simp add: reply_error_def)

lemma reply_error_effects [frame_simps]:
  "state_io_rel extends (reply_error e)" "state_io_rel same_secrets (reply_error e)"
  "state_io_rel same_inflight (reply_error e)" "state_io_rel same_audit (reply_error e)"
  unfolding reply_error_def by (auto intro!: effect_intros frame_simps)

lemma limiter_update_effects [frame_simps]:
  "state_io_rel extends (update (\<lambda>w. w\<lparr>limiter_log := f w\<rparr>))"
  "state_io_rel same_secrets (update (\<lambda>w. w\<lparr>limiter_log := f w\<rparr>))"
  "state_io_rel same_inflight (update (\<lambda>w. w\<lparr>limiter_log := f w\<rparr>))"
  "state_io_rel same_audit (update (\<lambda>w. w\<lparr>limiter_log := f w\<rparr>))"
  by (auto simp: state_io_rel_def extends_def same_secrets_def same_inflight_def same_audit_def)

lemma bearer_token_Some:
  "bearer_token req = Some tok \<longleftrightarrow>
     (\<exists>scheme rest. authorization req = Some (Inr (scheme @ 32 # rest)) \<and> 32 \<notin> set scheme \<and>
        eq_ignore_ascii_case scheme (lit ''bearer'') \<and> trim rest = tok \<and> tok \<noteq> [])"
proof
  assume "bearer_token req = Some tok"
  then show "\<exists>scheme rest. authorization req = Some (Inr (scheme @ 32 # rest)) \<and> 32 \<notin> set scheme \<and>
      eq_ignore_ascii_case scheme (lit ''bearer'') \<and> trim rest = tok \<and> tok \<noteq> []"
    by (auto simp: bearer_token_def Let_def split_once_Some
        split: option.splits sum.splits prod.splits if_splits)
next
  assume "\<exists>scheme rest. authorization req = Some (Inr (scheme @ 32 # rest)) \<and> 32 \<notin> set scheme \<and>
      eq_ignore_ascii_case scheme (lit ''bearer'') \<and> trim rest = tok \<and> tok \<noteq> []"
  then obtain scheme rest where *: "authorization req = Some (Inr (scheme @ 32 # rest))"
      "32 \<notin> set scheme" "eq_ignore_ascii_case scheme (lit ''bearer'')" "trim rest = tok" "tok \<noteq> []"
    by blast
  have "split_once 32 (scheme @ 32 # rest) = Some (scheme, rest)" using *(2) by (simp add: split_once_Some)
  with * show "bearer_token req = Some tok" by (simp add: bearer_token_def)
qed

lemma deny_effects:
  assumes "run_state (do { log_request D self subj res; reply_error e }) w = (r, w')"
  shows "r = Some (fst (into_response e))" "audits w w' subj res"
    "same_secrets w w'" "same_inflight w w'" "extends w w'"
proof -
  let ?m = "do { log_request D self subj res; reply_error e }"
  obtain u w1 where log: "run_state (log_request D self subj res) w = (u, w1)"
    by (cases "run_state (log_request D self subj res) w") blast
  with assms have r: "r = Some (fst (into_response e))" and w': "w' = w1\<lparr>trace := trace w1 @ [error_log e]\<rparr>"
    by (simp_all add: run_reply_error)
  show "r = Some (fst (into_response e))" by (rule r)
  have "same_audit w1 w'" "extends w1 w'" using w' by (simp_all add: same_audit_def extends_def)
  then show "audits w w' subj res" using audits_after [OF log_request_audits [OF log]] by blast
  have "state_io_rel same_secrets ?m" "state_io_rel same_inflight ?m" "state_io_rel extends ?m"
    by (auto intro!: effect_intros frame_simps)
  then show "same_secrets w w'" "same_inflight w w'" "extends w w'"
    using assms vault.keeps_run flights.keeps_run audit.keeps_run by blast+
qed

text \<open>The three ways through authentication when nothing is in flight.\<close>

lemma require_authentication_cases:
  assumes "inflight w = Map.empty"
    and "run_state (require_authentication X st next_service req) w = (r, w')"
  obtains
    (denied) e where "e = Unauthorized \<or> e = Forbidden" "r = Some (fst (into_response e))"
      "audits w w' None DeniedInactiveToken" "same_secrets w w'" "same_inflight w w'" "extends w w'"
  | (unavailable) src where "r = Some (fst (into_response (IntrospectionUnavailable src)))"
      "same_audit w w'" "same_secrets w w'" "same_inflight w w'" "extends w w'"
  | (passed) tok user n where "bearer_token req = Some tok" "tick w < n"
      "call_outcome (keycloak X) (introspection st) tok (Suc (tick w)) (Suc (Suc (tick w))) = Active user"
      "run_state (next_service (req\<lparr>extension_user := Some user\<rparr>))
         (w\<lparr>tick := n, trace := trace w @ [authenticated_line (subject user)]\<rparr>) = (r, w')"
proof (cases "bearer_token req")
  case None
  then have "run_state (do { log_request (db X) (secrets st) None DeniedInactiveToken;
      reply_error Unauthorized }) w = (r, w')"
    using assms(2) by (simp add: require_authentication_def)
  from deny_effects [OF this] show ?thesis using denied by blast
next
  case (Some tok)
  let ?out = "call_outcome (keycloak X) (introspection st) tok (Suc (tick w)) (Suc (Suc (tick w)))"
  obtain n where auth: "run_state (authenticate (keycloak X) (introspection st) tok) w =
      (outcome_result ?out, w\<lparr>tick := n\<rparr>)" "tick w < n"
    using run_authenticate_alone [of w "keycloak X" tok "introspection st"] assms(1) by auto
  have deny: thesis if "outcome_result ?out = Inl e" "e = Unauthorized \<or> e = Forbidden" for e
  proof -
    have "run_state (do { log_request (db X) (secrets st) None DeniedInactiveToken;
        reply_error e }) (w\<lparr>tick := n\<rparr>) = (r, w')"
      using Some assms(2) auth that by (auto simp: require_authentication_def)
    note eff = deny_effects [OF this]
    have "audits w w' None DeniedInactiveToken"
      by (rule audits_before [OF _ _ eff(2)]) (use auth(2) in \<open>simp_all add: same_audit_def extends_def\<close>)
    moreover have "same_secrets w w'" "same_inflight w w'" "extends w w'"
      using eff(3-5) auth(2) by (simp_all add: same_secrets_def same_inflight_def extends_def)
    ultimately show thesis using denied [OF that(2) eff(1)] by blast
  qed
  show ?thesis
  proof (cases ?out)
    case (Active user)
    with Some assms(2) auth show ?thesis
      by (intro passed [of tok n user]) (simp_all add: require_authentication_def)
  next
    case (Unavailable reason)
    with Some assms(2) auth have "r = Some (fst (into_response (IntrospectionUnavailable (Msg reason))))"
        "w' = w\<lparr>tick := n, trace := trace w @ [error_log (IntrospectionUnavailable (Msg reason))]\<rparr>"
      by (simp_all add: require_authentication_def run_reply_error)
    with auth(2) show ?thesis
      by (intro unavailable) (simp_all add: same_audit_def same_secrets_def same_inflight_def extends_def)
  qed (use deny in auto)
qed

text \<open>The limiter with its audit layer around a service that never answers 429 itself.\<close>

lemma rate_limited_cases:
  assumes "extension_user req = Some user" and "status (error_response (governor X) TooManyRequests) = 429"
    and "\<And>w1 r w'. same_secrets w w1 \<Longrightarrow> run_state (h req) w1 = (Some r, w') \<Longrightarrow> status r \<noteq> 429"
    and "run_state (audit_rate_limited X st (governor_layer (governor X) g h) req) w = (r, w')"
  obtains
    (limited) "r = Some (error_response (governor X) TooManyRequests)"
      "audits w w' (Some (subject user)) RateLimitedResult" "same_secrets w w'" "same_inflight w w'"
      "extends w w'"
  | (passed) "admits (governor X) g (limiter_log w) (subject user) (limiter_now (governor X) (tick w))"
      "run_state (h req) (w\<lparr>tick := Suc (tick w),
         limiter_log := limiter_log w @ [(subject user, limiter_now (governor X) (tick w))]\<rparr>) = (r, w')"
proof -
  let ?t = "limiter_now (governor X) (tick w)"
  let ?w = "w\<lparr>tick := Suc (tick w), limiter_log := limiter_log w @ [(subject user, ?t)]\<rparr>"
  have key: "extract_key req = Inr (subject user)" using assms(1) by (simp add: extract_key_def)
  show ?thesis
  proof (cases "admits (governor X) g (limiter_log w) (subject user) ?t")
    case True
    obtain a w1 where a: "run_state (h req) ?w = (a, w1)" by (cases "run_state (h req) ?w") blast
    with True key assms(4) have "run_state (h req) ?w = (r, w')"
      using assms(3) [of ?w _ w1, unfolded same_secrets_def]
      by (cases a) (auto simp: audit_rate_limited_def governor_layer_def Let_def)
    with True show ?thesis by (rule passed)
  next
    case False
    let ?w1 = "?w\<lparr>trace := trace w @ [rate_limited_line (Some (subject user))]\<rparr>"
    obtain u w1 where log: "run_state (log_request (db X) (secrets st) (Some (subject user)) RateLimitedResult) ?w1 = (u, w1)"
      by (cases "run_state (log_request (db X) (secrets st) (Some (subject user)) RateLimitedResult) ?w1") blast
    with False key assms(1,2,4) have r: "r = Some (error_response (governor X) TooManyRequests)" "w' = w1"
      by (auto simp: audit_rate_limited_def governor_layer_def Let_def)
    have "audits w w1 (Some (subject user)) RateLimitedResult"
      by (rule audits_before [OF _ _ log_request_audits [OF log]]) (simp_all add: same_audit_def extends_def)
    moreover have "same_secrets w w1" "same_inflight w w1" "extends w w1"
      using vault.keeps_run [OF log_request_effects(2) log] flights.keeps_run [OF log_request_effects(3) log]
        audit.keeps_run [OF log_request_effects(1) log]
      by (auto simp: same_secrets_def same_inflight_def extends_def prefix_def)
    ultimately show ?thesis using limited r by blast
  qed
qed

section \<open>Properties\<close>

text \<open>
  C35. Which credential is taken from a request: \<open>bearer_token\<close> gives a token exactly when the
  header is readable text of a scheme, the first space and the rest, the scheme is \<open>bearer\<close> in
  any casing, and the token is the rest without surrounding whitespace and not empty. So the
  token of a well-formed header is read back unchanged.
\<close>

theorem bearer_token_exact:
  "(bearer_token req = Some tok \<longleftrightarrow>
     (\<exists>scheme rest. authorization req = Some (Inr (scheme @ 32 # rest)) \<and> 32 \<notin> set scheme \<and>
        map to_ascii_lowercase scheme = lit ''bearer'' \<and> trim rest = tok \<and> tok \<noteq> [])) \<and>
   (t \<noteq> [] \<longrightarrow> trim t = t \<longrightarrow>
      bearer_token (req\<lparr>authorization := Some (Inr (lit ''Bearer '' @ t))\<rparr>) = Some t)"
proof -
  have lower: "map to_ascii_lowercase (lit ''bearer'') = lit ''bearer''"
    "map to_ascii_lowercase (lit ''Bearer'') = lit ''bearer''"
    by (simp_all add: lit_def to_ascii_lowercase_def)
  have "lit ''Bearer '' = lit ''Bearer'' @ [32]" "32 \<notin> set (lit ''Bearer'')" by (simp_all add: lit_def)
  then have "bearer_token (req\<lparr>authorization := Some (Inr (lit ''Bearer '' @ t))\<rparr>) = Some t"
    if "t \<noteq> []" "trim t = t"
    using that lower by (auto simp: bearer_token_Some eq_ignore_ascii_case_def)
  with lower show ?thesis by (auto simp: bearer_token_Some eq_ignore_ascii_case_def)
qed

text \<open>A request for examples, with the token \<open>t\<close>.\<close>

definition demo_request :: server_request where
  "demo_request =
     \<lparr>authorization = Some (Inr (lit ''bEaReR  t '')), extension_user = None,
      provision_payload = Inr \<lparr>for_subject = lit '' u ''\<rparr>\<rparr>"

theorem bearer_token_exact_witness: "bearer_token demo_request = Some [116]"
proof -
  have "authorization demo_request = Some (Inr (lit ''bEaReR'' @ 32 # lit '' t ''))"
    "32 \<notin> set (lit ''bEaReR'')" "map to_ascii_lowercase (lit ''bEaReR'') = lit ''bearer''"
    "trim (lit '' t '') = [116]"
    by (simp_all add: demo_request_def lit_def to_ascii_lowercase_def trim_def trim_end_by_def is_whitespace_def)
  then show ?thesis using bearer_token_exact [of demo_request "[116]"] by blast
qed

end
