(* ===== verification/Routes.thy ===== *)
theory Routes
  imports Middleware
begin

text \<open>
  The handlers and the router (\<^verbatim>\<open>totp-server/src/routes/\<close>). A handler gives its result or, when
  its task panics, none; the router puts the layers of the theory \<open>Middleware\<close> around the two
  protected handlers.
\<close>

section \<open>Model\<close>

definition pin_response :: "generated_pin \<Rightarrow> json" where
  "pin_response g =
     JObject [(lit ''pin'', JString (pin g)),
              (lit ''valid_for_seconds'', JNumber (unat (valid_for_seconds g)))]"

definition provision_response :: "provisioned_secret \<Rightarrow> json" where
  "provision_response p =
     JObject [(lit ''secret_base32'', JString (secret_base32 p)),
              (lit ''otpauth_url'', JString (otpauth_url p))]"

text \<open>How a handler's result becomes the response of its route.\<close>

fun respond :: "(app_error, json) result option \<Rightarrow> response option server" where
  "respond None = State_Monad.return None"
| "respond (Some (Inl e)) = reply_error e"
| "respond (Some (Inr j)) = State_Monad.return (Some \<lparr>status = 200, body = Json j\<rparr>)"

definition issued_line :: "ustr \<Rightarrow> log_line" where
  "issued_line subj =
     \<lparr>level = Info, log_fields = [(lit ''subject'', Display subj)], message = lit ''issued a PIN''\<rparr>"

text \<open>The rest of \<open>request_pin\<close> once the secret is at hand.\<close>

definition issue_pin ::
  "externals \<Rightarrow> app_state \<Rightarrow> authenticated_user \<Rightarrow> bytes \<Rightarrow> (app_error, json) result option server" where
  "issue_pin X st user secret = do {
     t \<leftarrow> draw (system_time X);
     case generate (totp_rs X) t secret of
       None \<Rightarrow> State_Monad.return None
     | Some (Inl e) \<Rightarrow> State_Monad.return (Some (Inl e))
     | Some (Inr generated) \<Rightarrow> do {
         touched \<leftarrow> touch_last_used (db X) (secrets st) (subject user);
         case touched of
           Inl e \<Rightarrow> State_Monad.return (Some (Inl e))
         | Inr _ \<Rightarrow> do {
             log_request (db X) (secrets st) (Some (subject user)) Issued;
             emit (issued_line (subject user));
             State_Monad.return (Some (Inr (pin_response generated)))
           }
       }
   }"

definition request_pin ::
  "externals \<Rightarrow> app_state \<Rightarrow> authenticated_user \<Rightarrow> (app_error, json) result option server" where
  "request_pin X st user = do {
     stored \<leftarrow> secret_get (aead X) (db X) (secrets st) (subject user);
     case stored of
       Inl e \<Rightarrow> State_Monad.return (Some (Inl e))
     | Inr None \<Rightarrow> do {
         log_request (db X) (secrets st) (Some (subject user)) DeniedNoSecret;
         State_Monad.return (Some (Inl NotFound))
       }
     | Inr (Some secret) \<Rightarrow> issue_pin X st user secret
   }"

definition not_admin_line :: "ustr \<Rightarrow> log_line" where
  "not_admin_line subj =
     \<lparr>level = Warn, log_fields = [(lit ''subject'', Display subj)],
      message = lit ''rejected a provisioning attempt from a caller without the admin role''\<rparr>"

definition provisioned_line :: "ustr \<Rightarrow> ustr \<Rightarrow> log_line" where
  "provisioned_line subj actor =
     \<lparr>level = Info,
      log_fields = [(lit ''subject'', Display subj), (lit ''provisioned_by'', Display actor)],
      message = lit ''provisioned a TOTP secret''\<rparr>"

definition provision ::
  "externals \<Rightarrow> app_state \<Rightarrow> authenticated_user \<Rightarrow> provision_request \<Rightarrow>
     (app_error, json) result option server" where
  "provision X st admin payload =
     (if \<not> has_role admin (admin_role (app_config st))
      then do {
        emit (not_admin_line (subject admin));
        State_Monad.return (Some (Inl Forbidden))
      }
      else
        (let subj = trim (for_subject payload) in
         if subj = [] then State_Monad.return (Some (Inl Forbidden))
         else do {
           made \<leftarrow> totp_provision (totp_rs X) subj;
           case made of
             Inl e \<Rightarrow> State_Monad.return (Some (Inl e))
           | Inr provisioned \<Rightarrow> do {
               stored \<leftarrow> secret_upsert (aead X) (db X) (secrets st) subj (raw provisioned);
               case stored of
                 Inl e \<Rightarrow> State_Monad.return (Some (Inl e))
               | Inr _ \<Rightarrow> do {
                   log_request (db X) (secrets st) (Some subj) Provisioned;
                   emit (provisioned_line subj (subject admin));
                   State_Monad.return (Some (Inr (provision_response provisioned)))
                 }
             }
         }))"

definition healthz :: "app_state \<Rightarrow> json" where
  "healthz st =
     JObject [(lit ''status'', JString (lit ''ok'')),
              (lit ''algorithm'', JString (lit ''SHA1'')),
              (lit ''digits'', JNumber (unat SERVER_DIGITS)),
              (lit ''step_seconds'', JNumber (unat SERVER_STEP_SECONDS)),
              (lit ''skew_steps'', JNumber (unat (totp_skew_steps (app_config st))))]"

text \<open>The handlers as services: their extractors run first.\<close>

definition request_pin_service :: "externals \<Rightarrow> app_state \<Rightarrow> service" where
  "request_pin_service X st req =
     (case extension_user req of
        None \<Rightarrow> State_Monad.return (Some (missing_extension X))
      | Some user \<Rightarrow> do { r \<leftarrow> request_pin X st user; respond r })"

definition provision_service :: "externals \<Rightarrow> app_state \<Rightarrow> service" where
  "provision_service X st req =
     (case extension_user req of
        None \<Rightarrow> State_Monad.return (Some (missing_extension X))
      | Some admin \<Rightarrow>
          (case provision_payload req of
             Inl rejection \<Rightarrow> State_Monad.return (Some rejection)
           | Inr payload \<Rightarrow> do { r \<leftarrow> provision X st admin payload; respond r }))"

datatype route = Healthz | RequestPin | Provision

definition protected :: "externals \<Rightarrow> app_state \<Rightarrow> governor_config \<Rightarrow> service \<Rightarrow> service" where
  "protected X st g h =
     require_authentication X st (audit_rate_limited X st (governor_layer (governor X) g h))"

definition create_router ::
  "externals \<Rightarrow> app_state \<Rightarrow> (anyhow, route \<Rightarrow> service) result" where
  "create_router X st =
     and_then (rate_limit_config (governor X) (app_config st)) (\<lambda>g.
       Inr (\<lambda>route. case route of
          Healthz \<Rightarrow> (\<lambda>_. State_Monad.return (Some \<lparr>status = 200, body = Json (healthz st)\<rparr>))
        | RequestPin \<Rightarrow> protected X st g (request_pin_service X st)
        | Provision \<Rightarrow> protected X st g (provision_service X st)))"

section \<open>Lemmas\<close>

lemma respond_effects [frame_simps]:
  "state_io_rel extends (respond r)" "state_io_rel same_secrets (respond r)"
  "state_io_rel same_inflight (respond r)" "state_io_rel same_audit (respond r)"
  by (cases r rule: respond.cases; auto intro!: effect_intros frame_simps)+

lemma request_pin_effects [frame_simps]:
  "state_io_rel extends (request_pin X st user)"
  "state_io_rel same_inflight (request_pin X st user)"
  "state_io_rel (same_vault (aead X) (secrets st)) (request_pin X st user)"
  unfolding request_pin_def issue_pin_def
  by (auto intro!: effect_intros vault_intros frame_simps split: sum.splits option.splits)

lemma provision_effects [frame_simps]:
  "state_io_rel extends (provision X st admin payload)"
  "state_io_rel same_inflight (provision X st admin payload)"
  unfolding provision_def Let_def
  by (auto intro!: effect_intros frame_simps split: sum.splits option.splits)

lemma secret_get_Inl: "run_state (secret_get A D self subj) w = (Inl e, w') \<Longrightarrow> \<exists>src. e = Internal src"
  by (auto simp: secret_get_def run_execute select_secret_def from_sqlx_def decrypt_def Let_def
      split: option.splits prod.splits if_splits)

lemma touch_Inl: "run_state (touch_last_used D self subj) w = (Inl e, w') \<Longrightarrow> \<exists>src. e = Internal src"
  by (auto simp: touch_last_used_def run_execute update_last_used_def from_sqlx_def Let_def
      split: option.splits prod.splits if_splits)

lemma generator_Inl: "generator T s a = Inl e \<Longrightarrow> \<exists>src. e = Internal src"
  unfolding generator_def
  by (cases "builder_build T \<lparr>b_algorithm = ALGORITHM, b_digits = SERVER_DIGITS,
      b_step_duration = SERVER_STEP_SECONDS, b_secret = s, b_issuer = Some ISSUER, b_account_name = a\<rparr>")
    auto

lemma generate_at_Inl: "generate_at T secret now = Inl e \<Longrightarrow> \<exists>src. e = Internal src"
  unfolding generate_at_def
  by (cases "generator T secret (lit ''user'')") (auto dest: generator_Inl)

lemma issue_pin_cases:
  assumes run: "run_state (issue_pin X st user secret) w = (r, w')"
  obtains
    (failed) src where "r = Some (Inl (Internal src))" "same_audit w w'"
  | (panicked) "r = None" "same_audit w w'"
  | (issued) now g where "tick w < tick w'" "unix_now (system_time X (tick w)) = Some now"
      "generate_at (totp_rs X) secret now = Inr g" "r = Some (Inr (pin_response g))"
      "audits w w' (Some (subject user)) Issued"
proof (cases "generate (totp_rs X) (system_time X (tick w)) secret")
  case None
  with run show ?thesis by (intro panicked) (auto simp: issue_pin_def same_audit_def)
next
  case gen: (Some res)
  let ?w = "w\<lparr>tick := Suc (tick w)\<rparr>"
  show ?thesis
  proof (cases res)
    case (Inl e)
    with gen have "\<exists>src. e = Internal src" by (auto simp: generate_def dest: generate_at_Inl)
    moreover have "r = Some (Inl e)" "same_audit w w'"
      using run gen Inl by (auto simp: issue_pin_def same_audit_def)
    ultimately show ?thesis using failed by blast
  next
    case res: (Inr g)
    obtain u w2 where touch: "run_state (touch_last_used (db X) (secrets st) (subject user)) ?w = (u, w2)"
      by (cases "run_state (touch_last_used (db X) (secrets st) (subject user)) ?w") blast
    have a2: "same_audit w w2" "tick w < tick w2" "extends w w2"
      using unaudited.keeps_run [OF touch_effects(3) touch] audit.keeps_run [OF touch_effects(1) touch]
      by (auto simp: same_audit_def extends_def)
    show ?thesis
    proof (cases u)
      case (Inl e)
      with run gen res touch have "r = Some (Inl e)" "w' = w2" by (simp_all add: issue_pin_def)
      with touch_Inl Inl touch a2 failed show ?thesis by blast
    next
      case u: (Inr x)
      obtain w3 where log: "run_state (log_request (db X) (secrets st) (Some (subject user)) Issued) w2 = ((), w3)"
        by (cases "run_state (log_request (db X) (secrets st) (Some (subject user)) Issued) w2") simp
      with run gen res touch u have w': "r = Some (Inr (pin_response g))"
          "w' = w3\<lparr>trace := trace w3 @ [issued_line (subject user)]\<rparr>"
        by (simp_all add: issue_pin_def)
      have aud: "audits w w' (Some (subject user)) Issued"
        by (rule audits_after [OF audits_before [OF a2(1,3) log_request_audits [OF log]]])
          (simp_all add: w' same_audit_def extends_def)
      have "tick w < tick w'"
        using a2(2) audit.keeps_run [OF log_request_effects(1) log] w' by (auto simp: extends_def)
      with gen res w'(1) aud show ?thesis using issued by (auto simp: generate_def)
    qed
  qed
qed

lemma request_pin_cases:
  assumes ok: "vault_ok (aead X) (secrets st) w" and run: "run_state (request_pin X st user) w = (r, w')"
  obtains
    (no_secret) "r = Some (Inl NotFound)" "vault_of (aead X) (secrets st) w (subject user) = None"
      "audits w w' (Some (subject user)) DeniedNoSecret"
  | (failed) src where "r = Some (Inl (Internal src))" "same_audit w w'"
  | (panicked) "r = None" "same_audit w w'"
  | (issued) secret t now g where "vault_of (aead X) (secrets st) w (subject user) = Some secret"
      "tick w \<le> t" "t < tick w'" "unix_now (system_time X t) = Some now"
      "generate_at (totp_rs X) secret now = Inr g" "r = Some (Inr (pin_response g))"
      "audits w w' (Some (subject user)) Issued"
proof -
  obtain v w1 where get: "run_state (secret_get (aead X) (db X) (secrets st) (subject user)) w = (v, w1)"
    by (cases "run_state (secret_get (aead X) (db X) (secrets st) (subject user)) w") blast
  note same = unaudited.keeps_run [OF secret_get_effects(4) get] audit.keeps_run [OF secret_get_effects(1) get]
  have ticks: "tick w \<le> tick w1" using same(2) by (simp add: extends_def)
  consider (error) e where "v = Inl e" | (none) "v = Inr None" | (some) secret where "v = Inr (Some secret)"
    by (metis not_Some_eq obj_sumE)
  then show ?thesis
  proof cases
    case error
    with run get have "r = Some (Inl e)" "w' = w1" by (simp_all add: request_pin_def)
    with secret_get_Inl error get same failed show ?thesis by blast
  next
    case none
    obtain w2 where log: "run_state (log_request (db X) (secrets st) (Some (subject user)) DeniedNoSecret) w1 = ((), w2)"
      by (cases "run_state (log_request (db X) (secrets st) (Some (subject user)) DeniedNoSecret) w1") simp
    with run get none have "r = Some (Inl NotFound)" "w' = w2" by (simp_all add: request_pin_def)
    moreover have "vault_of (aead X) (secrets st) w (subject user) = None"
      using secret_get_returns [OF ok] get none by metis
    ultimately show ?thesis
      using no_secret audits_before [OF same log_request_audits [OF log]] by simp
  next
    case some
    then have "run_state (issue_pin X st user secret) w1 = (r, w')"
      using run get by (simp add: request_pin_def)
    moreover have secret: "vault_of (aead X) (secrets st) w (subject user) = Some secret"
      using secret_get_returns [OF ok] get some by metis
    ultimately show ?thesis
      using failed panicked issued unaudited.R_trans [OF same(1)] audits_before [OF same] ticks
      by (cases rule: issue_pin_cases) blast+
  qed
qed

text \<open>The ways through all layers of a protected route when nothing is in flight.\<close>

lemma protected_cases:
  assumes idle: "inflight w = Map.empty" and law: "status (error_response (governor X) TooManyRequests) = 429"
    and quiet: "\<And>user w1 r w'. same_secrets w w1 \<Longrightarrow>
      run_state (h (req\<lparr>extension_user := Some user\<rparr>)) w1 = (Some r, w') \<Longrightarrow> status r \<noteq> 429"
    and run: "run_state (protected X st g h req) w = (r, w')"
  obtains
    (denied) e where "e = Unauthorized \<or> e = Forbidden" "r = Some (fst (into_response e))"
      "audits w w' None DeniedInactiveToken" "same_secrets w w'" "same_inflight w w'" "extends w w'"
  | (unavailable) src where "r = Some (fst (into_response (IntrospectionUnavailable src)))"
      "same_audit w w'" "same_secrets w w'" "same_inflight w w'" "extends w w'"
  | (limited) tok user where "bearer_token req = Some tok"
      "call_outcome (keycloak X) (introspection st) tok (Suc (tick w)) (Suc (Suc (tick w))) = Active user"
      "r = Some (error_response (governor X) TooManyRequests)"
      "audits w w' (Some (subject user)) RateLimitedResult" "same_secrets w w'" "same_inflight w w'"
      "extends w w'"
  | (passed) tok user t w1 where "bearer_token req = Some tok"
      "call_outcome (keycloak X) (introspection st) tok (Suc (tick w)) (Suc (Suc (tick w))) = Active user"
      "admits (governor X) g (limiter_log w) (subject user) (limiter_now (governor X) t)"
      "run_state (h (req\<lparr>extension_user := Some user\<rparr>)) w1 = (r, w')"
      "same_audit w w1" "same_secrets w w1" "same_inflight w w1" "extends w w1" "tick w \<le> t" "t < tick w1"
proof (cases rule: require_authentication_cases [OF idle run [unfolded protected_def]])
  case (1 e)
  then show ?thesis using denied by blast
next
  case (2 src)
  then show ?thesis using unavailable by blast
next
  case (3 tok user n)
  let ?w = "w\<lparr>tick := n, trace := trace w @ [authenticated_line (subject user)]\<rparr>"
  let ?req = "req\<lparr>extension_user := Some user\<rparr>"
  have frame: "same_audit w ?w" "same_secrets w ?w" "same_inflight w ?w" "extends w ?w"
    using 3(2) by (simp_all add: same_audit_def same_secrets_def same_inflight_def extends_def)
  have user: "extension_user ?req = Some user" by simp
  have q: "status r \<noteq> 429" if "same_secrets ?w w1" "run_state (h ?req) w1 = (Some r, w')" for w1 r w'
    using quiet [OF _ that(2)] that(1) by (simp add: same_secrets_def)
  let ?t = "limiter_now (governor X) (tick ?w)"
  consider
    (limited') "r = Some (error_response (governor X) TooManyRequests)"
      "audits ?w w' (Some (subject user)) RateLimitedResult" "same_secrets ?w w'" "same_inflight ?w w'"
      "extends ?w w'"
  | (passed') "admits (governor X) g (limiter_log ?w) (subject user) ?t"
      "run_state (h ?req) (?w\<lparr>tick := Suc (tick ?w), limiter_log := limiter_log ?w @ [(subject user, ?t)]\<rparr>) =
       (r, w')"
    by (rule rate_limited_cases [OF user law _ 3(4)]) (erule (1) q)
  then show ?thesis
  proof cases
    case limited'
    with 3 frame show ?thesis
      using limited audits_before vault.R_trans flights.R_trans audit.R_trans by blast
  next
    case passed'
    show ?thesis
      by (rule passed [OF 3(1,3) _ passed'(2), of n])
        (use passed'(1) 3(2) in \<open>simp_all add: same_audit_def same_secrets_def same_inflight_def extends_def\<close>)
  qed
qed

lemma pin_service_cases:
  assumes ok: "vault_ok (aead X) (secrets st) w"
    and run: "run_state (request_pin_service X st (req\<lparr>extension_user := Some user\<rparr>)) w = (r, w')"
  obtains
    (no_secret) "r = Some (fst (into_response NotFound))"
      "vault_of (aead X) (secrets st) w (subject user) = None"
      "audits w w' (Some (subject user)) DeniedNoSecret"
  | (failed) src where "r = Some (fst (into_response (Internal src)))" "same_audit w w'"
  | (panicked) "r = None" "same_audit w w'"
  | (issued) secret t now g where "vault_of (aead X) (secrets st) w (subject user) = Some secret"
      "tick w \<le> t" "t < tick w'" "unix_now (system_time X t) = Some now"
      "generate_at (totp_rs X) secret now = Inr g"
      "r = Some \<lparr>status = 200, body = Json (pin_response g)\<rparr>"
      "audits w w' (Some (subject user)) Issued"
proof -
  obtain res w1 where h: "run_state (request_pin X st user) w = (res, w1)"
    by (cases "run_state (request_pin X st user) w") blast
  with run have resp: "run_state (respond res) w1 = (r, w')" by (simp add: request_pin_service_def)
  note frame = unaudited.keeps_run [OF respond_effects(4) resp] audit.keeps_run [OF respond_effects(1) resp]
  then have tick: "tick w1 \<le> tick w'" by (simp add: extends_def)
  show ?thesis
    using resp audits_after [OF _ frame] unaudited.R_trans [OF _ frame(1)] tick
    by (cases rule: request_pin_cases [OF ok h])
      (auto simp: run_reply_error intro: no_secret failed panicked issued)
qed

lemma respond_vault [frame_simps]: "state_io_rel (same_vault A self) (respond r)"
  by (rule same_vault_of_secrets [OF respond_effects(2)])

lemma service_frame:
  "state_io_rel extends (request_pin_service X st req)"
  "state_io_rel same_inflight (request_pin_service X st req)"
  "state_io_rel (same_vault (aead X) (secrets st)) (request_pin_service X st req)"
  "state_io_rel extends (provision_service X st req)"
  "state_io_rel same_inflight (provision_service X st req)"
  unfolding request_pin_service_def provision_service_def
  by (auto intro!: effect_intros vault_intros frame_simps split: option.splits sum.splits)

lemma vault_ok_same: "same_secrets w w1 \<Longrightarrow> vault_ok A self w \<Longrightarrow> vault_ok A self w1"
  using vault_same_secrets by blast

lemma vault_of_same: "same_secrets w w1 \<Longrightarrow> vault_of A self w1 = vault_of A self w"
  using vault_same_secrets by blast

lemma pin_service_quiet:
  assumes "vault_ok (aead X) (secrets st) w" and "same_secrets w w1"
    and "run_state (request_pin_service X st (req\<lparr>extension_user := Some user\<rparr>)) w1 = (Some r, w')"
  shows "status r \<noteq> 429"
  by (cases rule: pin_service_cases [OF vault_ok_same [OF assms(2,1)] assms(3)]) auto

text \<open>The condition under which requests are served one after the other.\<close>

definition server_inv :: "externals \<Rightarrow> app_state \<Rightarrow> world \<Rightarrow> bool" where
  "server_inv X st w \<longleftrightarrow> vault_ok (aead X) (secrets st) w \<and> inflight w = Map.empty"

text \<open>Every way a PIN request can end.\<close>

lemma pin_request_cases:
  assumes inv: "server_inv X st w" and law: "status (error_response (governor X) TooManyRequests) = 429"
    and run: "run_state (protected X st g (request_pin_service X st) req) w = (r, w')"
  obtains
    (denied) e where "e = Unauthorized \<or> e = Forbidden" "r = Some (fst (into_response e))"
      "audits w w' None DeniedInactiveToken"
  | (unavailable) src where "r = Some (fst (into_response (IntrospectionUnavailable src)))" "same_audit w w'"
  | (limited) tok user where "bearer_token req = Some tok"
      "call_outcome (keycloak X) (introspection st) tok (Suc (tick w)) (Suc (Suc (tick w))) = Active user"
      "r = Some (error_response (governor X) TooManyRequests)"
      "audits w w' (Some (subject user)) RateLimitedResult"
  | (no_secret) tok user where "bearer_token req = Some tok"
      "call_outcome (keycloak X) (introspection st) tok (Suc (tick w)) (Suc (Suc (tick w))) = Active user"
      "r = Some (fst (into_response NotFound))" "vault_of (aead X) (secrets st) w (subject user) = None"
      "audits w w' (Some (subject user)) DeniedNoSecret"
  | (failed) src where "r = Some (fst (into_response (Internal src))) \<or> r = None" "same_audit w w'"
  | (issued) tok user lt secret t now p where "bearer_token req = Some tok"
      "call_outcome (keycloak X) (introspection st) tok (Suc (tick w)) (Suc (Suc (tick w))) = Active user"
      "admits (governor X) g (limiter_log w) (subject user) (limiter_now (governor X) lt)"
      "vault_of (aead X) (secrets st) w (subject user) = Some secret"
      "tick w \<le> t" "t < tick w'" "unix_now (system_time X t) = Some now"
      "generate_at (totp_rs X) secret now = Inr p"
      "r = Some \<lparr>status = 200, body = Json (pin_response p)\<rparr>"
      "audits w w' (Some (subject user)) Issued" "tick w \<le> lt" "lt < tick w'"
proof -
  have idle: "inflight w = Map.empty" and ok: "vault_ok (aead X) (secrets st) w"
    using inv by (simp_all add: server_inv_def)
  show ?thesis
  proof (rule protected_cases [OF idle law _ run])
    fix tok user lt w1
    assume p: "bearer_token req = Some tok"
      "call_outcome (keycloak X) (introspection st) tok (Suc (tick w)) (Suc (Suc (tick w))) = Active user"
      "admits (governor X) g (limiter_log w) (subject user) (limiter_now (governor X) lt)"
      and h: "run_state (request_pin_service X st (req\<lparr>extension_user := Some user\<rparr>)) w1 = (r, w')"
      and frame: "same_audit w w1" "same_secrets w w1" "extends w w1" and lt: "tick w \<le> lt" "lt < tick w1"
    note before = audits_before [OF frame(1,3)] unaudited.R_trans [OF frame(1)]
    have tick: "tick w \<le> tick w1" using frame(3) by (simp add: extends_def)
    show thesis
    proof (cases rule: pin_service_cases [OF vault_ok_same [OF frame(2) ok] h])
      case 1
      with p before show ?thesis using no_secret vault_of_same [OF frame(2)] by metis
    next
      case (2 src)
      with before show ?thesis using failed by blast
    next
      case 3
      with before show ?thesis using failed by blast
    next
      case (4 secret t now g)
      show ?thesis
        by (rule issued [OF p _ _ 4(3-6) before(1) [OF 4(7)]])
          (use 4(1-3) lt tick vault_of_same [OF frame(2)] in auto)
    qed
  qed (use pin_service_quiet [OF ok] denied unavailable limited in blast)+
qed

subsection \<open>Provisioning\<close>

lemma totp_provision_Inl: "run_state (totp_provision T acct) w = (Inl e, w') \<Longrightarrow> \<exists>src. e = Internal src"
  unfolding totp_provision_def
  by (cases "generator T (secret_generate T (tick w)) acct")
    (auto dest: generator_Inl elim!: map_err.elims and_then.elims)

lemma secret_upsert_Inl: "run_state (secret_upsert A D self subj p) w = (Inl e, w') \<Longrightarrow> \<exists>src. e = Internal src"
  by (auto simp: secret_upsert_def run_encrypt run_execute upsert_secret_def from_sqlx_def Let_def
      split: option.splits prod.splits if_splits)

lemma provision_stores:
  assumes "vault_ok (aead X) (secrets st) w1" and "same_audit w w1" and "extends w w1"
    and put: "run_state (secret_upsert (aead X) (db X) (secrets st) subj p) w1 = (Inr (), w2)"
    and log: "run_state (log_request (db X) (secrets st) (Some subj) Provisioned) w2 = ((), w3)"
    and w': "w' = w3\<lparr>trace := trace w3 @ ls\<rparr>"
  shows "vault_ok (aead X) (secrets st) w'"
    and "vault_of (aead X) (secrets st) w' = (vault_of (aead X) (secrets st) w1)(subj \<mapsto> p)"
    and "audits w w' (Some subj) Provisioned" and "tick w1 \<le> tick w'"
proof -
  show "tick w1 \<le> tick w'"
    using audit.keeps_run [OF secret_upsert_effects(1) put] audit.keeps_run [OF log_request_effects(1) log] w'
    by (simp add: extends_def)
  have "same_audit w w2" "extends w w2"
    using unaudited.R_trans [OF assms(2) unaudited.keeps_run [OF secret_upsert_effects(3) put]]
      audit.R_trans [OF assms(3) audit.keeps_run [OF secret_upsert_effects(1) put]] by blast+
  from audits_after [OF audits_before [OF this log_request_audits [OF log]]]
  show "audits w w' (Some subj) Provisioned" by (simp add: w' same_audit_def extends_def)
  have "same_secrets w2 w'"
    using vault.keeps_run [OF log_request_effects(2) log] w' by (simp add: same_secrets_def)
  then show "vault_ok (aead X) (secrets st) w'"
      "vault_of (aead X) (secrets st) w' = (vault_of (aead X) (secrets st) w1)(subj \<mapsto> p)"
    using store.put_stores [OF assms(1) put] vault_ok_same vault_of_same by metis+
qed

lemma provision_cases:
  assumes ok: "vault_ok (aead X) (secrets st) w"
    and run: "run_state (provision X st admin payload) w = (r, w')"
  obtains
    (forbidden) "r = Some (Inl Forbidden)" "same_audit w w'" "same_secrets w w'"
      "\<not> has_role admin (admin_role (app_config st)) \<or> trim (for_subject payload) = []"
  | (failed) src p where "r = Some (Inl (Internal src))" "same_audit w w'"
      "has_role admin (admin_role (app_config st))" "vault_ok (aead X) (secrets st) w'"
      "vault_of (aead X) (secrets st) w' = vault_of (aead X) (secrets st) w \<or>
       vault_of (aead X) (secrets st) w' =
         (vault_of (aead X) (secrets st) w)(trim (for_subject payload) \<mapsto> p)"
  | (stored) p where "has_role admin (admin_role (app_config st))" "trim (for_subject payload) \<noteq> []"
      "fresh_secret (totp_rs X) (trim (for_subject payload)) (tick w) p" "tick w < tick w'"
      "secret_base32 p = secret_to_base32 (totp_rs X) (raw p)"
      "r = Some (Inr (provision_response p))" "vault_ok (aead X) (secrets st) w'"
      "vault_of (aead X) (secrets st) w' =
         (vault_of (aead X) (secrets st) w)(trim (for_subject payload) \<mapsto> raw p)"
      "audits w w' (Some (trim (for_subject payload))) Provisioned"
proof (cases "has_role admin (admin_role (app_config st)) \<and> trim (for_subject payload) \<noteq> []")
  case False
  then have "r = Some (Inl Forbidden)" "same_audit w w'" "same_secrets w w'"
    using run by (auto simp: provision_def Let_def same_audit_def same_secrets_def split: if_splits)
  with False show ?thesis using forbidden by blast
next
  case admin: True
  let ?subj = "trim (for_subject payload)"
  obtain made w1 where made: "run_state (totp_provision (totp_rs X) ?subj) w = (made, w1)"
    by (cases "run_state (totp_provision (totp_rs X) ?subj) w") blast
  note frame = unaudited.keeps_run [OF totp_provision_effects(4) made]
    vault.keeps_run [OF totp_provision_effects(2) made] audit.keeps_run [OF totp_provision_effects(1) made]
  have ok1: "vault_ok (aead X) (secrets st) w1" using vault_ok_same [OF frame(2) ok] .
  have same: "vault_of (aead X) (secrets st) w1 = vault_of (aead X) (secrets st) w"
    using vault_of_same [OF frame(2)] .
  show ?thesis
  proof (cases made)
    case (Inl e)
    with run admin made have "r = Some (Inl e)" "w' = w1" by (auto simp: provision_def Let_def)
    with totp_provision_Inl made Inl frame ok1 same admin failed show ?thesis by metis
  next
    case (Inr p)
    obtain u w2 where put: "run_state (secret_upsert (aead X) (db X) (secrets st) ?subj (raw p)) w1 = (u, w2)"
      by (cases "run_state (secret_upsert (aead X) (db X) (secrets st) ?subj (raw p)) w1") blast
    have a2: "same_audit w w2"
      using unaudited.R_trans [OF frame(1) unaudited.keeps_run [OF secret_upsert_effects(3) put]] .
    show ?thesis
    proof (cases u)
      case (Inl e)
      with run admin made Inr put have "r = Some (Inl e)" "w' = w2" by (auto simp: provision_def Let_def)
      with secret_upsert_Inl put Inl a2 admin store.put_fails [OF ok1] same failed show ?thesis by metis
    next
      case u: (Inr x)
      then have put: "run_state (secret_upsert (aead X) (db X) (secrets st) ?subj (raw p)) w1 = (Inr (), w2)"
        using put by simp
      obtain w3 where log: "run_state (log_request (db X) (secrets st) (Some ?subj) Provisioned) w2 = ((), w3)"
        by (cases "run_state (log_request (db X) (secrets st) (Some ?subj) Provisioned) w2") simp
      with run admin made Inr put have w': "r = Some (Inr (provision_response p))"
          "w' = w3\<lparr>trace := trace w3 @ [provisioned_line ?subj (subject admin)]\<rparr>"
        by (auto simp: provision_def Let_def)
      have fresh: "fresh_secret (totp_rs X) ?subj (tick w) p" "tick w < tick w1" "secret_base32 p = secret_to_base32 (totp_rs X) (raw p)"
        using totp_provision_fresh [OF made [unfolded Inr]] by (auto simp: fresh_secret_def)
      note stores = provision_stores [OF ok1 frame(1,3) put log w'(2), unfolded same]
      with less_le_trans [OF fresh(2) stores(4)] admin fresh(1,3) w'(1) stored show ?thesis by blast
    qed
  qed
qed

text \<open>
  What is assumed of the libraries' responses: the limiter refuses with 429, and only it does;
  a rejected payload gives an error.
\<close>

definition responses_ok :: "externals \<Rightarrow> server_request \<Rightarrow> bool" where
  "responses_ok X req \<longleftrightarrow>
     status (error_response (governor X) TooManyRequests) = 429 \<and>
     (\<forall>resp. provision_payload req = Inl resp \<longrightarrow> status resp \<noteq> 429 \<and> status resp \<noteq> 200)"

lemma provision_service_cases:
  assumes ok: "vault_ok (aead X) (secrets st) w" and req: "responses_ok X req"
    and run: "run_state (provision_service X st (req\<lparr>extension_user := Some admin\<rparr>)) w = (r, w')"
  obtains
    (refused) resp where "r = Some resp" "status resp \<noteq> 200" "status resp \<noteq> 429" "same_audit w w'"
      "vault_ok (aead X) (secrets st) w'"
      "vault_of (aead X) (secrets st) w' = vault_of (aead X) (secrets st) w"
  | (failed) resp payload p where "r = Some resp" "status resp = 500" "same_audit w w'"
      "provision_payload req = Inr payload" "has_role admin (admin_role (app_config st))"
      "vault_ok (aead X) (secrets st) w'"
      "vault_of (aead X) (secrets st) w' =
         (vault_of (aead X) (secrets st) w)(trim (for_subject payload) \<mapsto> p)"
  | (stored) payload p t where "provision_payload req = Inr payload"
      "has_role admin (admin_role (app_config st))" "trim (for_subject payload) \<noteq> []"
      "fresh_secret (totp_rs X) (trim (for_subject payload)) t p" "tick w \<le> t \<and> t < tick w'"
      "secret_base32 p = secret_to_base32 (totp_rs X) (raw p)"
      "r = Some \<lparr>status = 200, body = Json (provision_response p)\<rparr>" "vault_ok (aead X) (secrets st) w'"
      "vault_of (aead X) (secrets st) w' =
         (vault_of (aead X) (secrets st) w)(trim (for_subject payload) \<mapsto> raw p)"
      "audits w w' (Some (trim (for_subject payload))) Provisioned"
proof (cases "provision_payload req")
  case (Inl resp)
  with run req have "r = Some resp" "w' = w" "status resp \<noteq> 429" "status resp \<noteq> 200"
    by (auto simp: provision_service_def responses_ok_def)
  with ok show ?thesis by (intro refused) (auto simp: same_audit_def)
next
  case (Inr payload)
  obtain res w1 where h: "run_state (provision X st admin payload) w = (res, w1)"
    by (cases "run_state (provision X st admin payload) w") blast
  with run Inr have resp: "run_state (respond res) w1 = (r, w')" by (simp add: provision_service_def)
  note frame = unaudited.keeps_run [OF respond_effects(4) resp] vault.keeps_run [OF respond_effects(2) resp]
    audit.keeps_run [OF respond_effects(1) resp]
  note vault' = vault_ok_same [OF frame(2)] vault_of_same [OF frame(2)]
  show ?thesis
  proof (cases rule: provision_cases [OF ok h])
    case 1
    then have "r = Some (fst (into_response Forbidden))" using resp by (simp add: run_reply_error)
    moreover have "same_secrets w w'" using 1(3) frame(2) vault.R_trans by blast
    ultimately show ?thesis
      using refused unaudited.R_trans [OF 1(2) frame(1)] vault_ok_same [OF _ ok] vault_of_same by force
  next
    case (2 src p)
    then have "r = Some (fst (into_response (Internal src)))" using resp by (simp add: run_reply_error)
    with 2 Inr show ?thesis
      using refused failed unaudited.R_trans [OF 2(2) frame(1)] vault' by fastforce
  next
    case (3 p)
    then have "r = Some \<lparr>status = 200, body = Json (provision_response p)\<rparr>" using resp by simp
    with 3 Inr show ?thesis
      using stored [OF Inr 3(1,2,3) _ 3(5)] 3(4) audits_after [OF 3(9) frame(1,3)] vault' frame(3)
      by (force simp: extends_def)
  qed
qed

text \<open>Every way a provisioning request can end.\<close>

lemma provision_request_cases:
  assumes inv: "server_inv X st w" and req: "responses_ok X req"
    and run: "run_state (protected X st g (provision_service X st) req) w = (r, w')"
  obtains
    (refused) resp where "r = Some resp" "status resp \<noteq> 200"
      "vault_of (aead X) (secrets st) w' = vault_of (aead X) (secrets st) w"
      "vault_ok (aead X) (secrets st) w'"
  | (written) tok user payload p resp where "bearer_token req = Some tok"
      "call_outcome (keycloak X) (introspection st) tok (Suc (tick w)) (Suc (Suc (tick w))) = Active user"
      "has_role user (admin_role (app_config st))" "provision_payload req = Inr payload"
      "r = Some resp" "status resp = 500" "vault_ok (aead X) (secrets st) w'"
      "vault_of (aead X) (secrets st) w' =
         (vault_of (aead X) (secrets st) w)(trim (for_subject payload) \<mapsto> p)"
  | (stored) tok user payload p t where "bearer_token req = Some tok"
      "call_outcome (keycloak X) (introspection st) tok (Suc (tick w)) (Suc (Suc (tick w))) = Active user"
      "has_role user (admin_role (app_config st))" "provision_payload req = Inr payload"
      "trim (for_subject payload) \<noteq> []" "tick w \<le> t \<and> t < tick w'"
      "fresh_secret (totp_rs X) (trim (for_subject payload)) t p"
      "secret_base32 p = secret_to_base32 (totp_rs X) (raw p)"
      "r = Some \<lparr>status = 200, body = Json (provision_response p)\<rparr>" "vault_ok (aead X) (secrets st) w'"
      "vault_of (aead X) (secrets st) w' =
         (vault_of (aead X) (secrets st) w)(trim (for_subject payload) \<mapsto> raw p)"
      "audits w w' (Some (trim (for_subject payload))) Provisioned"
proof -
  have idle: "inflight w = Map.empty" and ok: "vault_ok (aead X) (secrets st) w"
    using inv by (simp_all add: server_inv_def)
  have law: "status (error_response (governor X) TooManyRequests) = 429"
    using req by (simp add: responses_ok_def)
  have quiet: "status r \<noteq> 429" if "same_secrets w w1"
    "run_state (provision_service X st (req\<lparr>extension_user := Some user\<rparr>)) w1 = (Some r, w')" for user w1 r w'
    by (cases rule: provision_service_cases [OF vault_ok_same [OF that(1) ok] req that(2)]) auto
  have unchanged: thesis if "r = Some resp" "status resp \<noteq> 200" "same_secrets w w'" for resp
    using refused [OF that(1,2)] vault_of_same [OF that(3)] vault_ok_same [OF that(3) ok] by blast
  show ?thesis
  proof (rule protected_cases [OF idle law _ run])
    fix tok user lt w1
    assume p: "bearer_token req = Some tok"
      "call_outcome (keycloak X) (introspection st) tok (Suc (tick w)) (Suc (Suc (tick w))) = Active user"
      and h: "run_state (provision_service X st (req\<lparr>extension_user := Some user\<rparr>)) w1 = (r, w')"
      and frame: "same_audit w w1" "same_secrets w w1" "extends w w1"
    have tick: "tick w \<le> tick w1" using frame(3) by (simp add: extends_def)
    note vault' = vault_of_same [OF frame(2), of "aead X" "secrets st"]
    show thesis
    proof (cases rule: provision_service_cases [OF vault_ok_same [OF frame(2) ok] req h])
      case (1 resp)
      then show ?thesis using refused vault' by simp
    next
      case (2 resp payload q)
      then show ?thesis using written [OF p] vault' by simp
    next
      case (3 payload q t)
      show ?thesis
        by (rule stored [OF p 3(2,1,3) _ 3(4,6-8)])
          (use 3(5,9,10) tick vault' audits_before [OF frame(1,3)] in simp_all)
    qed
  qed (use quiet unchanged law in \<open>force+\<close>)
qed

section \<open>A concrete server\<close>

definition demo_externals :: externals where
  "demo_externals =
     \<lparr>aead = demo_aead, db = demo_db, totp_rs = demo_totp_rs, keycloak = demo_keycloak,
      governor = demo_governor, system_time = (\<lambda>t. 75),
      missing_extension = \<lparr>status = 500, body = Raw []\<rparr>\<rparr>"

definition demo_state :: app_state where
  "demo_state =
     \<lparr>app_config = demo_config, introspection = introspection_client_new demo_config,
      secrets = secret_store_new (crypto_new (encryption_key demo_config))\<rparr>"

definition demo_limits :: governor_config where
  "demo_limits = \<lparr>period = 50000, burst_size = 6\<rparr>"

text \<open>A world in which the user has a secret, the byte 7 or a given one.\<close>

definition demo_world_with :: "bytes \<Rightarrow> world" where
  "demo_world_with secret = world_init\<lparr>totp_secrets := [lit ''u'' \<mapsto>
     \<lparr>encrypted_secret = replicate 12 1 @ replicate 32 7 @ secret, nonce = replicate 12 1,
      created_at = 0, last_used_at = None\<rparr>]\<rparr>"

definition demo_world :: world where
  "demo_world = demo_world_with [7]"

lemma demo_server_inv_with: "server_inv demo_externals demo_state (demo_world_with secret)"
  by (simp add: server_inv_def vault_ok_def demo_externals_def demo_state_def demo_world_with_def world_init_def
      demo_aead_laws row_secret_def decrypt_def NONCE_LEN_def secret_store_new_def crypto_new_def
      demo_config_def)
    (simp add: demo_aead_def)

lemma demo_server_inv: "server_inv demo_externals demo_state demo_world"
  by (simp add: demo_world_def demo_server_inv_with)

lemma demo_responses_ok: "responses_ok demo_externals demo_request"
  by (simp add: responses_ok_def demo_externals_def demo_governor_def demo_request_def)

lemma demo_bearer: "bearer_token demo_request = Some [116]"
  by (simp add: bearer_token_def demo_request_def lit_def eq_ignore_ascii_case_def to_ascii_lowercase_def
      trim_def trim_end_by_def is_whitespace_def)

lemma demo_authenticate:
  "inflight w = Map.empty \<Longrightarrow> tick w < 900 \<Longrightarrow>
     \<exists>n. run_state (authenticate demo_keycloak (introspection_client_new demo_config) tok) w =
       (Inr \<lparr>subject = lit ''u'', realm_roles = [lit ''totp-admin'']\<rparr>, w\<lparr>tick := n\<rparr>)"
proof -
  assume w: "inflight w = Map.empty" "tick w < 900"
  let ?d = "Suc (tick w)" and ?t = "Suc (Suc (tick w))"
  have "call_outcome demo_keycloak (introspection_client_new demo_config) tok ?d ?t =
      Active \<lparr>subject = lit ''u'', realm_roles = [lit ''totp-admin'']\<rparr>"
    using w(2) by (simp add: call_outcome_def demo_keycloak_def demo_reply_def is_success_def evaluate_def
        introspection_client_new_def demo_config_def)
  then show ?thesis
    using run_authenticate_alone [of w demo_keycloak tok "introspection_client_new demo_config"] w(1) by auto
qed

lemma demo_pin_status_with:
  "\<exists>resp w'. run_state
     (protected demo_externals demo_state demo_limits (request_pin_service demo_externals demo_state) demo_request)
     (demo_world_with secret) = (Some resp, w') \<and> status resp = 200"
proof -
  obtain n where "run_state (authenticate demo_keycloak (introspection_client_new demo_config) [116]) (demo_world_with secret) =
      (Inr \<lparr>subject = lit ''u'', realm_roles = [lit ''totp-admin'']\<rparr>, demo_world_with secret\<lparr>tick := n\<rparr>)"
    using demo_authenticate [of "demo_world_with secret" "[116]"] by (auto simp: demo_world_with_def world_init_def)
  then show ?thesis
    by (simp add: protected_def require_authentication_def demo_bearer demo_externals_def demo_state_def
        audit_rate_limited_def governor_layer_def extract_key_def demo_governor_def conforms_def Let_def
        request_pin_service_def request_pin_def issue_pin_def secret_get_def run_execute demo_db_def
        select_secret_def demo_world_with_def world_init_def decrypt_def NONCE_LEN_def secret_store_new_def
        crypto_new_def demo_config_def demo_aead_def generate_def unix_now_def generate_at_def
        generator_def demo_totp_rs_def touch_last_used_def update_last_used_def log_request_def insert_log_def)
qed

lemma demo_pin_status:
  "\<exists>resp w'. run_state
     (protected demo_externals demo_state demo_limits (request_pin_service demo_externals demo_state) demo_request)
     demo_world = (Some resp, w') \<and> status resp = 200"
  unfolding demo_world_def by (rule demo_pin_status_with)

lemma demo_provision_status:
  "\<exists>resp w'. run_state
     (protected demo_externals demo_state demo_limits (provision_service demo_externals demo_state) demo_request)
     demo_world = (Some resp, w') \<and> status resp = 200"
proof -
  obtain n where "run_state (authenticate demo_keycloak (introspection_client_new demo_config) [116]) demo_world =
      (Inr \<lparr>subject = lit ''u'', realm_roles = [lit ''totp-admin'']\<rparr>, demo_world\<lparr>tick := n\<rparr>)"
    using demo_authenticate [of demo_world "[116]"] by (auto simp: demo_world_def demo_world_with_def world_init_def)
  moreover have "trim (lit '' u '') = [117]"
    by (simp add: lit_def trim_def trim_end_by_def is_whitespace_def)
  moreover have "provision_payload demo_request = Inr \<lparr>for_subject = lit '' u ''\<rparr>"
    by (simp add: demo_request_def)
  ultimately show ?thesis
    by (simp add: protected_def require_authentication_def demo_bearer demo_externals_def demo_state_def
        audit_rate_limited_def governor_layer_def extract_key_def demo_governor_def conforms_def Let_def
        provision_service_def provision_def has_role_def totp_provision_def secret_upsert_def run_encrypt
        run_execute demo_db_def upsert_secret_def demo_world_def demo_world_with_def world_init_def
        demo_config_def demo_aead_def generator_def demo_totp_rs_def log_request_def insert_log_def)
qed

lemma create_router_ok:
  assumes "create_router X st = Inr serve"
  obtains g where "rate_limit_config (governor X) (app_config st) = Inr g"
    "serve RequestPin = protected X st g (request_pin_service X st)"
    "serve Provision = protected X st g (provision_service X st)"
    "serve Healthz = (\<lambda>_. State_Monad.return (Some \<lparr>status = 200, body = Json (healthz st)\<rparr>))"
  using assms by (cases "rate_limit_config (governor X) (app_config st)") (auto simp: create_router_def)

lemma demo_router:
  "\<exists>serve. create_router demo_externals demo_state = Inr serve \<and>
     serve RequestPin = protected demo_externals demo_state demo_limits (request_pin_service demo_externals demo_state) \<and>
     serve Provision = protected demo_externals demo_state demo_limits (provision_service demo_externals demo_state)"
  using demo_rate_limit_config
  by (simp add: create_router_def demo_externals_def demo_state_def demo_limits_def)

subsection \<open>Sequences of requests\<close>

lemma inner_layers_effects:
  assumes "state_io_rel extends (h req)" "state_io_rel same_inflight (h req)"
  shows "state_io_rel extends (audit_rate_limited X st (governor_layer G g h) req)"
    and "state_io_rel same_inflight (audit_rate_limited X st (governor_layer G g h) req)"
proof -
  have get: "state_io_rel extends State_Monad.get" "state_io_rel same_inflight State_Monad.get"
    by (auto simp: state_io_rel_def extends_def same_inflight_def)
  show "state_io_rel extends (audit_rate_limited X st (governor_layer G g h) req)"
    "state_io_rel same_inflight (audit_rate_limited X st (governor_layer G g h) req)"
    unfolding audit_rate_limited_def governor_layer_def Let_def
    by (auto intro!: effect_intros frame_simps get assms split: option.splits sum.splits)
qed

lemma protected_effects:
  assumes idle: "inflight w = Map.empty"
    and h: "\<And>req. state_io_rel extends (h req)" "\<And>req. state_io_rel same_inflight (h req)"
    and run: "run_state (protected X st g h req) w = (r, w')"
  shows "extends w w' \<and> same_inflight w w'"
proof (cases rule: require_authentication_cases [OF idle run [unfolded protected_def]])
  case (3 tok user n)
  note inner = inner_layers_effects [OF h]
  from audit.keeps_run [OF inner(1) 3(4)] flights.keeps_run [OF inner(2) 3(4)] 3(2) show ?thesis
    by (auto simp: extends_def same_inflight_def prefix_def)
qed auto

fun serve_all :: "(route \<Rightarrow> service) \<Rightarrow> (route \<times> server_request) list \<Rightarrow> world \<Rightarrow> world" where
  "serve_all serve [] w = w"
| "serve_all serve ((route, req) # reqs) w = serve_all serve reqs (snd (run_state (serve route req) w))"

lemma serve_effects:
  assumes "create_router X st = Inr serve" and idle: "inflight w = Map.empty"
    and run: "run_state (serve route req) w = (r, w')"
  shows "extends w w' \<and> same_inflight w w'"
proof -
  obtain g where g: "serve RequestPin = protected X st g (request_pin_service X st)"
      "serve Provision = protected X st g (provision_service X st)"
      "serve Healthz = (\<lambda>_. State_Monad.return (Some \<lparr>status = 200, body = Json (healthz st)\<rparr>))"
    using create_router_ok [OF assms(1)] by blast
  show ?thesis
  proof (cases route)
    case Healthz
    with run g(3) show ?thesis by (simp add: audit.R_refl flights.R_refl)
  next
    case RequestPin
    with run g(1) show ?thesis
      by (intro protected_effects [OF idle, of "request_pin_service X st" X st g req r])
        (simp_all add: service_frame)
  next
    case Provision
    with run g(2) show ?thesis
      by (intro protected_effects [OF idle, of "provision_service X st" X st g req r])
        (simp_all add: service_frame)
  qed
qed

lemma pin_request_keeps_vault:
  assumes "server_inv X st w" and "responses_ok X req"
    and run: "run_state (protected X st g (request_pin_service X st) req) w = (r, w')"
  shows "same_vault (aead X) (secrets st) w w'"
proof -
  have law: "status (error_response (governor X) TooManyRequests) = 429"
    using assms(2) by (simp add: responses_ok_def)
  have idle: "inflight w = Map.empty" and ok: "vault_ok (aead X) (secrets st) w"
    using assms(1) by (simp_all add: server_inv_def)
  have same: "same_vault (aead X) (secrets st) w w1" if "same_secrets w w1" for w1
    using that vault_of_same vault_ok_same by (auto simp: same_vault_def)
  show ?thesis
    by (rule protected_cases [OF idle law pin_service_quiet [OF ok] run])
      (auto intro: same contents.R_trans contents.keeps_run [OF service_frame(3)])
qed

lemma serve_step:
  assumes router: "create_router X st = Inr serve" and inv: "server_inv X st w" and req: "responses_ok X req"
    and run: "run_state (serve route req) w = (r, w')"
  shows "server_inv X st w'" and "extends w w'"
    and "route \<noteq> Provision \<Longrightarrow> vault_of (aead X) (secrets st) w' = vault_of (aead X) (secrets st) w"
proof -
  obtain g where g: "serve RequestPin = protected X st g (request_pin_service X st)"
      "serve Provision = protected X st g (provision_service X st)"
      "serve Healthz = (\<lambda>_. State_Monad.return (Some \<lparr>status = 200, body = Json (healthz st)\<rparr>))"
    using create_router_ok [OF router] by blast
  have idle: "inflight w = Map.empty" and ok: "vault_ok (aead X) (secrets st) w"
    using inv by (simp_all add: server_inv_def)
  have "vault_ok (aead X) (secrets st) w' \<and>
      (route \<noteq> Provision \<longrightarrow> vault_of (aead X) (secrets st) w' = vault_of (aead X) (secrets st) w)"
  proof (cases route)
    case Healthz
    with run g(3) ok show ?thesis by simp
  next
    case RequestPin
    with run g(1) have "same_vault (aead X) (secrets st) w w'" using pin_request_keeps_vault [OF inv req] by simp
    with ok show ?thesis by (simp add: same_vault_def)
  next
    case Provision
    with run g(2) show ?thesis
      by (auto elim: provision_request_cases [OF inv req])
  qed
  with serve_effects [OF router idle run] idle show "server_inv X st w'" "extends w w'"
    "route \<noteq> Provision \<Longrightarrow> vault_of (aead X) (secrets st) w' = vault_of (aead X) (secrets st) w"
    by (simp_all add: server_inv_def same_inflight_def)
qed

lemma serve_all_sound:
  assumes "create_router X st = Inr serve" and "server_inv X st w"
    and "list_all (\<lambda>(route, req). responses_ok X req) reqs"
  shows "server_inv X st (serve_all serve reqs w) \<and> extends w (serve_all serve reqs w) \<and>
    (list_all (\<lambda>(route, req). route \<noteq> Provision) reqs \<longrightarrow>
       vault_of (aead X) (secrets st) (serve_all serve reqs w) = vault_of (aead X) (secrets st) w)"
  using assms(2,3)
proof (induction reqs arbitrary: w)
  case (Cons rr reqs)
  obtain route req where rr: "rr = (route, req)" by fastforce
  obtain r w1 where run: "run_state (serve route req) w = (r, w1)"
    by (cases "run_state (serve route req) w") blast
  have req: "responses_ok X req" using Cons.prems(2) rr by simp
  note step = serve_step [OF assms(1) Cons.prems(1) req run]
  from Cons.IH [OF step(1)] Cons.prems(2) step(2,3) rr run show ?case
    using audit.R_trans by auto
qed (simp add: audit.R_refl)

section \<open>Properties\<close>

text \<open>
  C3. A PIN is issued only to a user Keycloak vouches for, within the limits, for a secret that
  is stored for that user: if \<open>POST /v1/totp/request\<close> answers 200, the request carried a bearer
  token; Keycloak answered the introspection of that token, made for this request, with success,
  active, not expired at that time and for this audience, naming a subject; the limiter admitted
  that subject at its time then; a secret is
  stored for it; and the body is the PIN for that secret at the system time and how long it
  is valid. The request is recorded as issued for that subject.
\<close>

theorem pin_only_for_vouched_user:
  assumes "create_router X st = Inr serve" and "server_inv X st w" and "responses_ok X req"
    and "run_state (serve RequestPin req) w = (Some resp, w')" and "status resp = 200"
  shows "\<exists>tok r b user g secret now p.
    bearer_token req = Some tok \<and>
    http_send (keycloak X) (Suc (tick w)) (introspection_request (introspection st) tok) = Inr r \<and>
    is_success (reply_status r) \<and> reply_json r = Inr b \<and>
    vouches (client_audience (introspection st)) (utc_timestamp (keycloak X) (Suc (Suc (tick w)))) b user \<and>
    rate_limit_config (governor X) (app_config st) = Inr g \<and>
    (\<exists>m. tick w \<le> m \<and> m < tick w' \<and>
       admits (governor X) g (limiter_log w) (subject user) (limiter_now (governor X) m)) \<and>
    vault_of (aead X) (secrets st) w (subject user) = Some secret \<and>
    (\<exists>t. tick w \<le> t \<and> t < tick w' \<and> unix_now (system_time X t) = Some now) \<and>
    generate_at (totp_rs X) secret now = Inr p \<and> body resp = Json (pin_response p) \<and>
    audits w w' (Some (subject user)) Issued"
proof -
  obtain g where g: "rate_limit_config (governor X) (app_config st) = Inr g"
      "serve RequestPin = protected X st g (request_pin_service X st)"
    using create_router_ok [OF assms(1)] by blast
  have law: "status (error_response (governor X) TooManyRequests) = 429"
    using assms(3) by (simp add: responses_ok_def)
  from assms(4) g(2) have run: "run_state (protected X st g (request_pin_service X st) req) w = (Some resp, w')"
    by simp
  show ?thesis
  proof (cases rule: pin_request_cases [OF assms(2) law run])
    case (6 tok user lt secret t now p)
    then obtain r b where "http_send (keycloak X) (Suc (tick w)) (introspection_request (introspection st) tok) = Inr r"
        "is_success (reply_status r)" "reply_json r = Inr b"
        "vouches (client_audience (introspection st)) (utc_timestamp (keycloak X) (Suc (Suc (tick w)))) b user"
      by (auto simp: call_outcome_Active is_success_def)
    moreover have "body resp = Json (pin_response p)" using 6(9) by simp
    ultimately show ?thesis using 6 g(1) by metis
  qed (use assms(5) law in auto)
qed

theorem pin_only_for_vouched_user_witness:
  "\<exists>serve resp w' subj secret. create_router demo_externals demo_state = Inr serve \<and>
     run_state (serve RequestPin demo_request) demo_world = (Some resp, w') \<and> status resp = 200 \<and>
     vault_of demo_aead (secrets demo_state) demo_world subj = Some secret \<and>
     audits demo_world w' (Some subj) Issued"
proof -
  obtain serve where serve: "create_router demo_externals demo_state = Inr serve"
      "serve RequestPin = protected demo_externals demo_state demo_limits (request_pin_service demo_externals demo_state)"
    using demo_router by blast
  obtain resp w' where run: "run_state (serve RequestPin demo_request) demo_world = (Some resp, w')" "status resp = 200"
    using demo_pin_status serve(2) by metis
  have "aead demo_externals = demo_aead" by (simp add: demo_externals_def)
  with pin_only_for_vouched_user [OF serve(1) demo_server_inv demo_responses_ok run]
  obtain subj secret where "vault_of demo_aead (secrets demo_state) demo_world subj = Some secret"
      "audits demo_world w' (Some subj) Issued"
    by auto
  with serve(1) run show ?thesis by blast
qed

text \<open>
  C24. The audit trail of PIN requests: a request answered 200, 404 or 429 is recorded as issued,
  without secret or rate limited with the subject Keycloak vouched for, one answered 401 or 403
  as denied without a subject; if writing the row failed, the log says so. A request that ends
  with 500, 503 or a panic is not recorded. There are no other answers, and no other row is
  written.
\<close>

theorem pin_requests_are_audited:
  assumes "create_router X st = Inr serve" and "server_inv X st w" and "responses_ok X req"
    and "run_state (serve RequestPin req) w = (r, w')"
  shows "(\<exists>resp tok user res. r = Some resp \<and> bearer_token req = Some tok \<and>
       call_outcome (keycloak X) (introspection st) tok (Suc (tick w)) (Suc (Suc (tick w))) = Active user \<and>
       audits w w' (Some (subject user)) res \<and>
       (status resp, res) \<in> {(200, Issued), (404, DeniedNoSecret), (429, RateLimitedResult)}) \<or>
     (\<exists>resp. r = Some resp \<and> status resp \<in> {401, 403} \<and> audits w w' None DeniedInactiveToken) \<or>
     (r = None \<or> (\<exists>resp. r = Some resp \<and> status resp \<in> {500, 503})) \<and> request_log w' = request_log w"
proof -
  obtain g where g: "serve RequestPin = protected X st g (request_pin_service X st)"
    using create_router_ok [OF assms(1)] by blast
  have law: "status (error_response (governor X) TooManyRequests) = 429"
    using assms(3) by (simp add: responses_ok_def)
  from assms(4) g have "run_state (protected X st g (request_pin_service X st) req) w = (r, w')" by simp
  then show ?thesis
    by (cases rule: pin_request_cases [OF assms(2) law])
      (use law in \<open>auto simp: same_audit_def\<close>)
qed

theorem pin_requests_are_audited_witness:
  "\<exists>serve r w'. create_router demo_externals demo_state = Inr serve \<and>
     run_state (serve RequestPin demo_request) demo_world = (r, w') \<and>
     (\<exists>subj res. audits demo_world w' subj res)"
proof -
  obtain serve where serve: "create_router demo_externals demo_state = Inr serve"
      "serve RequestPin = protected demo_externals demo_state demo_limits (request_pin_service demo_externals demo_state)"
    using demo_router by blast
  obtain resp w' where run: "run_state (serve RequestPin demo_request) demo_world = (Some resp, w')" "status resp = 200"
    using demo_pin_status serve(2) by metis
  have "\<exists>subj res. audits demo_world w' subj res"
    using pin_requests_are_audited [OF serve(1) demo_server_inv demo_responses_ok run(1)] run(2) by auto
  with serve(1) run(1) show ?thesis by blast
qed

text \<open>
  C19. Only an administrator changes secrets, and only the named subject's: if \<open>POST
  /v1/totp/provision\<close> answers 200, Keycloak vouched for a user with the admin role; the secret
  stored for the trimmed, non-empty subject of the payload is now one generated while the request
  was served, whose base32 form and URL the response shows, every other subject's is as before, and the event is
  recorded. With any other answer all stored secrets are as before, except that after a 500 to
  an administrator the named subject's may have been replaced.
\<close>

theorem only_admins_change_secrets:
  assumes "create_router X st = Inr serve" and "server_inv X st w" and "responses_ok X req"
    and "run_state (serve Provision req) w = (Some resp, w')"
    and "before = vault_of (aead X) (secrets st) w" and "after = vault_of (aead X) (secrets st) w'"
  shows "(after = before \<and> status resp \<noteq> 200) \<or>
    (\<exists>tok user payload.
       bearer_token req = Some tok \<and>
       call_outcome (keycloak X) (introspection st) tok (Suc (tick w)) (Suc (Suc (tick w))) = Active user \<and>
       has_role user (admin_role (app_config st)) \<and> provision_payload req = Inr payload \<and>
       ((\<exists>p. after = before(trim (for_subject payload) \<mapsto> p) \<and> status resp = 500) \<or>
        (\<exists>t p. trim (for_subject payload) \<noteq> [] \<and> tick w \<le> t \<and> t < tick w' \<and>
           fresh_secret (totp_rs X) (trim (for_subject payload)) t p \<and>
           after = before(trim (for_subject payload) \<mapsto> raw p) \<and>
           resp = \<lparr>status = 200, body = Json (provision_response p)\<rparr> \<and>
           audits w w' (Some (trim (for_subject payload))) Provisioned)))"
proof -
  obtain g where "serve Provision = protected X st g (provision_service X st)"
    using create_router_ok [OF assms(1)] by blast
  with assms(4) have run: "run_state (protected X st g (provision_service X st) req) w = (Some resp, w')"
    by simp
  show ?thesis
  proof (cases rule: provision_request_cases [OF assms(2,3) run])
    case (1 resp')
    then show ?thesis using assms(5,6) by simp
  next
    case (2 tok user payload p resp')
    then have "\<exists>p. after = before(trim (for_subject payload) \<mapsto> p) \<and> status resp = 500"
      using assms(5,6) by auto
    with 2(1-4) show ?thesis by blast
  next
    case (3 tok user payload p t)
    have "after = before(trim (for_subject payload) \<mapsto> raw p)"
      "resp = \<lparr>status = 200, body = Json (provision_response p)\<rparr>"
      using 3 assms(5,6) by simp_all
    with 3(1-8,12) show ?thesis by blast
  qed
qed

theorem only_admins_change_secrets_witness:
  "\<exists>serve resp w'. create_router demo_externals demo_state = Inr serve \<and>
     run_state (serve Provision demo_request) demo_world = (Some resp, w') \<and> status resp = 200 \<and>
     audits demo_world w' (Some [117]) Provisioned"
proof -
  obtain serve where serve: "create_router demo_externals demo_state = Inr serve"
      "serve Provision = protected demo_externals demo_state demo_limits (provision_service demo_externals demo_state)"
    using demo_router by blast
  obtain resp w' where run: "run_state (serve Provision demo_request) demo_world = (Some resp, w')" "status resp = 200"
    using demo_provision_status serve(2) by metis
  have u: "trim (lit '' u '') = [117]" by (simp add: lit_def trim_def trim_end_by_def is_whitespace_def)
  have "audits demo_world w' (Some [117]) Provisioned"
    using only_admins_change_secrets [OF serve(1) demo_server_inv demo_responses_ok run(1) refl refl] run(2) u
    by (auto simp: demo_request_def)
  with serve(1) run show ?thesis by blast
qed

text \<open>
  Serving keeps the server's state sound: whatever sequence of requests is served, every
  stored secret stays readable, no introspection is left in flight, the audit table and the log
  only grow; and as long as nobody calls the provisioning route, no secret changes.
\<close>

theorem serving_keeps_state_sound:
  assumes "create_router X st = Inr serve" and "server_inv X st w"
    and "list_all (\<lambda>(route, req). responses_ok X req) reqs"
  shows "server_inv X st (serve_all serve reqs w) \<and> extends w (serve_all serve reqs w) \<and>
    (list_all (\<lambda>(route, req). route \<noteq> Provision) reqs \<longrightarrow>
       vault_of (aead X) (secrets st) (serve_all serve reqs w) = vault_of (aead X) (secrets st) w)"
  using serve_all_sound [OF assms] .

theorem serving_keeps_state_sound_witness:
  "\<exists>serve. create_router demo_externals demo_state = Inr serve \<and>
     server_inv demo_externals demo_state
       (serve_all serve [(RequestPin, demo_request), (Provision, demo_request), (RequestPin, demo_request)] demo_world)"
proof -
  obtain serve where "create_router demo_externals demo_state = Inr serve" using demo_router by blast
  with serving_keeps_state_sound [OF this demo_server_inv,
      of "[(RequestPin, demo_request), (Provision, demo_request), (RequestPin, demo_request)]"]
    demo_responses_ok
  show ?thesis by simp
qed

end
