(* ===== verification/Tasks.thy ===== *)
theory Tasks
  imports Routes
begin

text \<open>
  Requests served at the same time. The server runs every request as a task; between any two
  effects of one task (a database statement, a call, a reading of clock or random numbers, an
  access to the map of calls in flight or to the limiter, a line logged) other tasks may run. A
  task here is what is left to do of a request; the handlers and layers of the theories
  \<open>Introspection\<close>, \<open>Middleware\<close> and \<open>Routes\<close> are written out as tasks and shown to be the same
  programs when nothing comes in between. A request that finds a call in flight for its token
  waits on that call's broadcast channel; the leader's \<open>send\<close> reaches exactly the requests that
  wait then, and a receiver whose channel is gone is told so. A task whose client disconnects is
  dropped where it stands, and with it the guard of a call in flight that it holds.
\<close>

section \<open>Tasks\<close>

text \<open>
  A task is done, makes a step, sends an outcome on the channel of a call in flight, or waits for
  one on the channel it has joined. Until it is done it may hold the guard of an entry in the map
  of calls in flight, the first argument of the other constructors.
\<close>

datatype 'a task =
    Done 'a
  | Step "bytes option" "world \<Rightarrow> 'a task \<times> world"
  | Publish "bytes option" bytes introspection_outcome "'a task"
  | Await "bytes option" bytes nat "introspection_outcome option \<Rightarrow> 'a task"

primrec tbind :: "'a task \<Rightarrow> ('a \<Rightarrow> 'b task) \<Rightarrow> 'b task" where
  "tbind (Done a) f = f a"
| "tbind (Step h g) f = Step h (\<lambda>w. map_prod (\<lambda>t. tbind t f) id (g w))"
| "tbind (Publish h key out t) f = Publish h key out (tbind t f)"
| "tbind (Await h key rx g) f = Await h key rx (\<lambda>r. tbind (g r) f)"

definition atomically :: "'a server \<Rightarrow> 'a task" where
  "atomically m = Step None (\<lambda>w. map_prod Done id (run_state m w))"

definition send_outcome :: "bytes \<Rightarrow> introspection_outcome \<Rightarrow> unit task" where
  "send_outcome key outcome = Publish None key outcome (Done ())"

definition recv_outcome :: "bytes \<Rightarrow> nat \<Rightarrow> introspection_outcome option task" where
  "recv_outcome key rx = Await None key rx Done"

text \<open>A task that holds the guard of \<open>key\<close> from here to its end.\<close>

primrec guarded :: "bytes \<Rightarrow> 'a task \<Rightarrow> 'a task" where
  "guarded key (Done a) = Done a"
| "guarded key (Step h g) = Step (Some key) (\<lambda>w. map_prod (guarded key) id (g w))"
| "guarded key (Publish h k out t) = Publish (Some key) k out (guarded key t)"
| "guarded key (Await h k rx f) = Await (Some key) k rx (\<lambda>r. guarded key (f r))"

fun held :: "'a task \<Rightarrow> bytes option" where
  "held (Done a) = None"
| "held (Step h g) = h"
| "held (Publish h key out t) = h"
| "held (Await h key rx f) = h"

text \<open>What dropping a task does: the guard it holds removes its entry.\<close>

fun release :: "bytes option \<Rightarrow> world \<Rightarrow> world" where
  "release None w = w"
| "release (Some key) w = snd (run_state (drop_guard key) w)"

text \<open>
  A task with nothing in between its steps. What it would receive while nobody else runs is open,
  as in the sequential model.
\<close>

primrec alone :: "keycloak \<Rightarrow> 'a task \<Rightarrow> 'a server" where
  "alone K (Done a) = State_Monad.return a"
| "alone K (Step h g) = State (\<lambda>w. case map_prod (alone K) id (g w) of (m, w') \<Rightarrow> run_state m w')"
| "alone K (Publish h key out t) = alone K t"
| "alone K (Await h key rx f) = State_Monad.bind (draw (\<lambda>t. recv K t rx)) (\<lambda>r. alone K (f r))"

section \<open>The handlers as tasks\<close>

definition log_request_task ::
  "db \<Rightarrow> secret_store \<Rightarrow> ustr option \<Rightarrow> request_result \<Rightarrow> unit task" where
  "log_request_task D self subj res =
     tbind (atomically (draw (new_v4 D))) (\<lambda>uuid.
     tbind (atomically (execute D (insert_log uuid subj (as_str res)))) (\<lambda>outcome.
     case outcome of
       Inr _ \<Rightarrow> Done ()
     | Inl err \<Rightarrow> atomically (emit
         \<lparr>level = Error,
          log_fields =
            [(lit ''subject'', Display (case subj of None \<Rightarrow> lit ''<unauthenticated>'' | Some s \<Rightarrow> s)),
             (lit ''result'', Display (as_str res)),
             (lit ''error'', DebugOf (Wrapped err))],
          message = lit ''failed to write the audit log entry''\<rparr>)))"

definition secret_upsert_task ::
  "aead \<Rightarrow> db \<Rightarrow> secret_store \<Rightarrow> ustr \<Rightarrow> bytes \<Rightarrow> (app_error, unit) result task" where
  "secret_upsert_task A D self subj secret =
     tbind (atomically (encrypt A (crypto_of self) secret)) (\<lambda>sealed.
     case sealed of
       Inl e \<Rightarrow> Done (Inl e)
     | Inr (ct, n) \<Rightarrow>
         tbind (atomically (execute D (upsert_secret subj ct n))) (\<lambda>r.
         Done (map_err from_sqlx r)))"

definition call_task ::
  "keycloak \<Rightarrow> introspection_client \<Rightarrow> ustr \<Rightarrow> introspection_outcome task" where
  "call_task K self token =
     tbind (atomically (draw (\<lambda>t. http_send K t (introspection_request self token)))) (\<lambda>response.
     case response of
       Inl err \<Rightarrow> Done (Unavailable (lit ''could not reach the introspection endpoint: '' @ err))
     | Inr response \<Rightarrow>
         if \<not> is_success (reply_status response)
         then Done (Unavailable (lit ''introspection endpoint returned HTTP '' @ reply_status_text response))
         else (case reply_json response of
                 Inl err \<Rightarrow> Done (Unavailable (lit ''could not parse the introspection response: '' @ err))
               | Inr response_body \<Rightarrow>
                   tbind (atomically (draw (utc_timestamp K))) (\<lambda>now.
                   Done (evaluate self now response_body))))"

definition introspect_task ::
  "keycloak \<Rightarrow> introspection_client \<Rightarrow> ustr \<Rightarrow> introspection_outcome task" where
  "introspect_task K self token =
     (let key = sha256 K token in
      tbind (atomically (join_or_lead key)) (\<lambda>follower.
      case follower of
        Some rx \<Rightarrow>
          tbind (recv_outcome key rx) (\<lambda>received.
          case received of
            Some outcome \<Rightarrow> Done outcome
          | None \<Rightarrow> call_task K self token)
      | None \<Rightarrow>
          guarded key (tbind (call_task K self token) (\<lambda>outcome.
          tbind (send_outcome key outcome) (\<lambda>_.
          tbind (atomically (drop_guard key)) (\<lambda>_. Done outcome))))))"

definition authenticate_task ::
  "keycloak \<Rightarrow> introspection_client \<Rightarrow> ustr \<Rightarrow> (app_error, authenticated_user) result task" where
  "authenticate_task K self token =
     tbind (introspect_task K self token) (\<lambda>outcome. Done (outcome_result outcome))"

definition reply_error_task :: "app_error \<Rightarrow> response option task" where
  "reply_error_task e =
     tbind (atomically (emit (snd (into_response e)))) (\<lambda>_. Done (Some (fst (into_response e))))"

type_synonym task_service = "server_request \<Rightarrow> response option task"

definition require_authentication_task :: "externals \<Rightarrow> app_state \<Rightarrow> task_service \<Rightarrow> task_service" where
  "require_authentication_task X st next_service req =
     (case bearer_token req of
        None \<Rightarrow>
          tbind (log_request_task (db X) (secrets st) None DeniedInactiveToken) (\<lambda>_.
          reply_error_task Unauthorized)
      | Some tok \<Rightarrow>
          tbind (authenticate_task (keycloak X) (introspection st) tok) (\<lambda>r.
          case r of
            Inl err \<Rightarrow>
              if err = Unauthorized \<or> err = Forbidden
              then tbind (log_request_task (db X) (secrets st) None DeniedInactiveToken) (\<lambda>_.
                   reply_error_task err)
              else reply_error_task err
          | Inr user \<Rightarrow>
              tbind (atomically (emit (authenticated_line (subject user)))) (\<lambda>_.
              next_service (req\<lparr>extension_user := Some user\<rparr>))))"

definition audit_rate_limited_task :: "externals \<Rightarrow> app_state \<Rightarrow> task_service \<Rightarrow> task_service" where
  "audit_rate_limited_task X st next_service req =
     (let subj = map_option subject (extension_user req) in
      tbind (next_service req) (\<lambda>answer.
      case answer of
        None \<Rightarrow> Done None
      | Some resp \<Rightarrow>
          if status resp = 429
          then tbind (atomically (emit (rate_limited_line subj))) (\<lambda>_.
               tbind (log_request_task (db X) (secrets st) subj RateLimitedResult) (\<lambda>_.
               Done (Some resp)))
          else Done (Some resp)))"

text \<open>The limiter's check is one atomic operation.\<close>

definition limiter_check :: "governor \<Rightarrow> governor_config \<Rightarrow> ustr \<Rightarrow> bool server" where
  "limiter_check G g k = do {
     t \<leftarrow> draw (limiter_now G);
     w \<leftarrow> State_Monad.get;
     update (\<lambda>w. w\<lparr>limiter_log := limiter_log w @ [(k, t)]\<rparr>);
     State_Monad.return (admits G g (limiter_log w) k t)
   }"

definition governor_layer_task :: "governor \<Rightarrow> governor_config \<Rightarrow> task_service \<Rightarrow> task_service" where
  "governor_layer_task G g next_service req =
     (case extract_key req of
        Inl e \<Rightarrow> Done (Some (error_response G e))
      | Inr k \<Rightarrow>
          tbind (atomically (limiter_check G g k)) (\<lambda>admitted.
          if admitted then next_service req
          else Done (Some (error_response G TooManyRequests))))"

fun respond_task :: "(app_error, json) result option \<Rightarrow> response option task" where
  "respond_task None = Done None"
| "respond_task (Some (Inl e)) = reply_error_task e"
| "respond_task (Some (Inr j)) = Done (Some \<lparr>status = 200, body = Json j\<rparr>)"

definition issue_pin_task ::
  "externals \<Rightarrow> app_state \<Rightarrow> authenticated_user \<Rightarrow> bytes \<Rightarrow> (app_error, json) result option task" where
  "issue_pin_task X st user secret =
     tbind (atomically (draw (system_time X))) (\<lambda>t.
     case generate (totp_rs X) t secret of
       None \<Rightarrow> Done None
     | Some (Inl e) \<Rightarrow> Done (Some (Inl e))
     | Some (Inr generated) \<Rightarrow>
         tbind (atomically (touch_last_used (db X) (secrets st) (subject user))) (\<lambda>touched.
         case touched of
           Inl e \<Rightarrow> Done (Some (Inl e))
         | Inr _ \<Rightarrow>
             tbind (log_request_task (db X) (secrets st) (Some (subject user)) Issued) (\<lambda>_.
             tbind (atomically (emit (issued_line (subject user)))) (\<lambda>_.
             Done (Some (Inr (pin_response generated)))))))"

definition request_pin_task ::
  "externals \<Rightarrow> app_state \<Rightarrow> authenticated_user \<Rightarrow> (app_error, json) result option task" where
  "request_pin_task X st user =
     tbind (atomically (secret_get (aead X) (db X) (secrets st) (subject user))) (\<lambda>stored.
     case stored of
       Inl e \<Rightarrow> Done (Some (Inl e))
     | Inr None \<Rightarrow>
         tbind (log_request_task (db X) (secrets st) (Some (subject user)) DeniedNoSecret) (\<lambda>_.
         Done (Some (Inl NotFound)))
     | Inr (Some secret) \<Rightarrow> issue_pin_task X st user secret)"

definition provision_task ::
  "externals \<Rightarrow> app_state \<Rightarrow> authenticated_user \<Rightarrow> provision_request \<Rightarrow>
     (app_error, json) result option task" where
  "provision_task X st admin payload =
     (if \<not> has_role admin (admin_role (app_config st))
      then tbind (atomically (emit (not_admin_line (subject admin)))) (\<lambda>_. Done (Some (Inl Forbidden)))
      else
        (let subj = trim (for_subject payload) in
         if subj = [] then Done (Some (Inl Forbidden))
         else
           tbind (atomically (totp_provision (totp_rs X) subj)) (\<lambda>made.
           case made of
             Inl e \<Rightarrow> Done (Some (Inl e))
           | Inr provisioned \<Rightarrow>
               tbind (secret_upsert_task (aead X) (db X) (secrets st) subj (raw provisioned)) (\<lambda>stored.
               case stored of
                 Inl e \<Rightarrow> Done (Some (Inl e))
               | Inr _ \<Rightarrow>
                   tbind (log_request_task (db X) (secrets st) (Some subj) Provisioned) (\<lambda>_.
                   tbind (atomically (emit (provisioned_line subj (subject admin)))) (\<lambda>_.
                   Done (Some (Inr (provision_response provisioned)))))))))"

definition request_pin_task_service :: "externals \<Rightarrow> app_state \<Rightarrow> task_service" where
  "request_pin_task_service X st req =
     (case extension_user req of
        None \<Rightarrow> Done (Some (missing_extension X))
      | Some user \<Rightarrow> tbind (request_pin_task X st user) respond_task)"

definition provision_task_service :: "externals \<Rightarrow> app_state \<Rightarrow> task_service" where
  "provision_task_service X st req =
     (case extension_user req of
        None \<Rightarrow> Done (Some (missing_extension X))
      | Some admin \<Rightarrow>
          (case provision_payload req of
             Inl rejection \<Rightarrow> Done (Some rejection)
           | Inr payload \<Rightarrow> tbind (provision_task X st admin payload) respond_task))"

definition protected_task :: "externals \<Rightarrow> app_state \<Rightarrow> governor_config \<Rightarrow> task_service \<Rightarrow> task_service" where
  "protected_task X st g h =
     require_authentication_task X st (audit_rate_limited_task X st (governor_layer_task (governor X) g h))"

definition task_routes :: "externals \<Rightarrow> app_state \<Rightarrow> governor_config \<Rightarrow> route \<Rightarrow> task_service" where
  "task_routes X st g route =
     (case route of
        Healthz \<Rightarrow> (\<lambda>_. Done (Some \<lparr>status = 200, body = Json (healthz st)\<rparr>))
      | RequestPin \<Rightarrow> protected_task X st g (request_pin_task_service X st)
      | Provision \<Rightarrow> protected_task X st g (provision_task_service X st))"

definition create_task_router ::
  "externals \<Rightarrow> app_state \<Rightarrow> (anyhow, route \<Rightarrow> task_service) result" where
  "create_task_router X st =
     and_then (rate_limit_config (governor X) (app_config st)) (\<lambda>g. Inr (task_routes X st g))"

text \<open>
  A request being served: its route, the request, the state in which it arrived (kept for
  the specification) and what is left to do.
\<close>

record job =
  job_route :: route
  job_request :: server_request
  arrived :: world
  left :: "response option task"

text \<open>
  A message on the channel \<open>tx\<close> of \<open>key\<close> reaches a job that waits there.
\<close>

definition hand_over :: "bytes \<Rightarrow> nat option \<Rightarrow> introspection_outcome \<Rightarrow> job \<Rightarrow> job" where
  "hand_over key tx outcome j =
     (case left j of
        Await h k rx f \<Rightarrow> if k = key \<and> tx = Some rx then j\<lparr>left := f (Some outcome)\<rparr> else j
      | _ \<Rightarrow> j)"

text \<open>
  Requests arrive, any of those present makes its next step, or its client goes away and it is
  dropped. A statement that is under way then has been executed or not, so the task is dropped
  after that step or before it. A message goes to the requests that wait on the channel which the
  map holds for the key; a channel that the map no longer holds is closed, and who still waits
  there receives an error.
\<close>

inductive serving_step ::
  "(route \<Rightarrow> task_service) \<Rightarrow> job list \<times> world \<Rightarrow> job list \<times> world \<Rightarrow> bool"
  for serve :: "route \<Rightarrow> task_service" where
  arrive: "serving_step serve (jobs, w)
     (jobs @ [\<lparr>job_route = route, job_request = req, arrived = w, left = serve route req\<rparr>], w)"
| progress: "i < length jobs \<Longrightarrow> left (jobs ! i) = Step h g \<Longrightarrow> g w = (t, w') \<Longrightarrow>
     serving_step serve (jobs, w) (jobs[i := (jobs ! i)\<lparr>left := t\<rparr>], w')"
| publish: "i < length jobs \<Longrightarrow> left (jobs ! i) = Publish h key outcome t \<Longrightarrow>
     serving_step serve (jobs, w)
       ((map (hand_over key (inflight w key) outcome) jobs)[i := (jobs ! i)\<lparr>left := t\<rparr>], w)"
| closed: "i < length jobs \<Longrightarrow> left (jobs ! i) = Await h key rx f \<Longrightarrow> inflight w key \<noteq> Some rx \<Longrightarrow>
     serving_step serve (jobs, w) (jobs[i := (jobs ! i)\<lparr>left := f None\<rparr>], w)"
| disconnect: "i < length jobs \<Longrightarrow> \<forall>r. left (jobs ! i) \<noteq> Done r \<Longrightarrow>
     serving_step serve (jobs, w) (take i jobs @ drop (Suc i) jobs, release (held (left (jobs ! i))) w)"

section \<open>Nothing in between\<close>

lemma task_induct [case_names Done Step Publish Await]:
  assumes "\<And>a. P (Done a)" and "\<And>h g. (\<And>w t w'. g w = (t, w') \<Longrightarrow> P t) \<Longrightarrow> P (Step h g)"
    and "\<And>h key out t. P t \<Longrightarrow> P (Publish h key out t)"
    and "\<And>h key rx f. (\<And>r. P (f r)) \<Longrightarrow> P (Await h key rx f)"
  shows "P t"
proof (induction t)
  case (Step h g)
  show ?case
  proof (rule assms(2))
    fix w t w' assume "g w = (t, w')"
    then show "P t" using Step.IH [OF rangeI [of g w], of t] by (simp add: fsts.simps)
  qed
qed (auto intro: assms)

lemma alone_tbind [simp]: "alone K (tbind m f) = State_Monad.bind (alone K m) (\<lambda>a. alone K (f a))"
proof (induction m rule: task_induct)
  case (Step h g)
  have "run_state (alone K (tbind (Step h g) f)) w =
      run_state (State_Monad.bind (alone K (Step h g)) (\<lambda>a. alone K (f a))) w" for w
    using Step.IH [of w] by (cases "g w") simp
  then show ?case by (intro state.expand ext)
qed simp_all

lemma alone_guarded [simp]: "alone K (guarded key m) = alone K m"
proof (induction m rule: task_induct)
  case (Step h g)
  have "run_state (alone K (guarded key (Step h g))) w = run_state (alone K (Step h g)) w" for w
    using Step.IH [of w] by (cases "g w") simp
  then show ?case by (intro state.expand ext)
qed simp_all

lemma alone_atomically [simp]: "alone K (atomically m) = m"
proof (rule state.expand, rule ext)
  show "run_state (alone K (atomically m)) w = run_state m w" for w
    by (cases "run_state m w") (simp add: atomically_def)
qed

lemma bind_return_fun: "State_Monad.bind m (\<lambda>a. State_Monad.return a) = m"
  by (rule state.expand) (simp add: fun_eq_iff split: prod.splits)

lemma alone_channel [simp]:
  "alone K (send_outcome key out) = State_Monad.return ()"
  "alone K (recv_outcome key rx) = draw (\<lambda>t. recv K t rx)"
  by (simp_all add: send_outcome_def recv_outcome_def bind_return_fun)

lemma alone_log_request [simp]: "alone K (log_request_task D self s r) = log_request D self s r"
  unfolding log_request_task_def log_request_def
  by (auto intro!: arg_cong2 [where f = State_Monad.bind] ext split: sum.splits)

lemma alone_secret_upsert [simp]:
  "alone K (secret_upsert_task A D self s p) = secret_upsert A D self s p"
  unfolding secret_upsert_task_def secret_upsert_def try_then_def
  by (auto intro!: arg_cong2 [where f = State_Monad.bind] ext split: sum.splits)

lemma alone_call [simp]: "alone K (call_task K self tok) = call K self tok"
  unfolding call_task_def call_def
  by (auto intro!: arg_cong2 [where f = State_Monad.bind] ext split: sum.splits)

lemma alone_authenticate [simp]: "alone K (authenticate_task K self tok) = authenticate K self tok"
  unfolding authenticate_task_def authenticate_def introspect_task_def introspect_def Let_def
  by (auto intro!: arg_cong2 [where f = State_Monad.bind] ext split: option.splits)

lemma alone_reply_error [simp]: "alone K (reply_error_task e) = reply_error e"
  by (simp add: reply_error_task_def reply_error_def)

lemma alone_respond [simp]: "alone K (respond_task r) = respond r"
  by (cases r rule: respond.cases) simp_all

lemma alone_issue_pin [simp]: "alone K (issue_pin_task X st user s) = issue_pin X st user s"
  unfolding issue_pin_task_def issue_pin_def
  by (auto intro!: arg_cong2 [where f = State_Monad.bind] ext split: option.splits sum.splits)

lemma alone_request_pin [simp]: "alone K (request_pin_task X st user) = request_pin X st user"
  unfolding request_pin_task_def request_pin_def
  by (auto intro!: arg_cong2 [where f = State_Monad.bind] ext split: option.splits sum.splits)

lemma alone_provision [simp]: "alone K (provision_task X st admin p) = provision X st admin p"
  unfolding provision_task_def provision_def Let_def
  by (auto intro!: arg_cong2 [where f = State_Monad.bind] ext split: option.splits sum.splits)

lemma alone_services [simp]:
  "alone K (request_pin_task_service X st req) = request_pin_service X st req"
  "alone K (provision_task_service X st req) = provision_service X st req"
  unfolding request_pin_task_service_def request_pin_service_def provision_task_service_def provision_service_def
  by (auto split: option.splits sum.splits)

lemma alone_governor:
  assumes "\<And>req. alone K (h req) = h' req"
  shows "alone K (governor_layer_task G g h req) = governor_layer G g h' req"
proof (cases "extract_key req")
  case (Inr k)
  have "run_state (alone K (governor_layer_task G g h req)) w = run_state (governor_layer G g h' req) w" for w
    by (simp add: governor_layer_task_def governor_layer_def limiter_check_def Inr assms)
  then show ?thesis by (intro state.expand ext)
qed (simp add: governor_layer_task_def governor_layer_def)

lemma alone_audit_rate_limited:
  assumes "\<And>req. alone K (h req) = h' req"
  shows "alone K (audit_rate_limited_task X st h req) = audit_rate_limited X st h' req"
  unfolding audit_rate_limited_task_def audit_rate_limited_def Let_def
  by (auto simp: assms intro!: arg_cong2 [where f = State_Monad.bind] ext split: option.splits)

lemma alone_require_authentication:
  assumes "\<And>req. alone (keycloak X) (h req) = h' req"
  shows "alone (keycloak X) (require_authentication_task X st h req) = require_authentication X st h' req"
  unfolding require_authentication_task_def require_authentication_def
  by (auto simp: assms intro!: arg_cong2 [where f = State_Monad.bind] ext split: option.splits sum.splits)

lemma alone_protected:
  "(\<And>req. alone (keycloak X) (h req) = h' req) \<Longrightarrow> alone (keycloak X) (protected_task X st g h req) = protected X st g h' req"
  unfolding protected_task_def protected_def
  by (intro alone_require_authentication alone_audit_rate_limited alone_governor)

section \<open>Tasks that do not wait\<close>

text \<open>A task that never waits for another, whatever it finds.\<close>

primrec prompt :: "'a task \<Rightarrow> bool" where
  "prompt (Done a) \<longleftrightarrow> True"
| "prompt (Step h g) \<longleftrightarrow> (\<forall>w. fst (map_prod prompt id (g w)))"
| "prompt (Publish h key out t) \<longleftrightarrow> prompt t"
| "prompt (Await h key rx f) \<longleftrightarrow> False"

lemma promptD: "prompt (Step h g) \<Longrightarrow> g w = (t, w') \<Longrightarrow> prompt t"
  by (auto dest: spec [of _ w])

lemma prompt_tbind: "prompt t \<Longrightarrow> (\<And>a. prompt (f a)) \<Longrightarrow> prompt (tbind t f)"
proof (induction t rule: task_induct)
  case (Step h g)
  have "fst (map_prod prompt id (map_prod (\<lambda>t. tbind t f) id (g w)))" for w
    using Step.IH [of w] promptD [OF Step.prems(1), of w] Step.prems(2) by (cases "g w") simp
  then show ?case by simp
qed simp_all

lemma prompt_guarded: "prompt t \<Longrightarrow> prompt (guarded key t)"
proof (induction t rule: task_induct)
  case (Step h g)
  have "fst (map_prod prompt id (map_prod (guarded key) id (g w)))" for w
    using Step.IH [of w] promptD [OF Step.prems, of w] by (cases "g w") simp
  then show ?case by simp
qed simp_all

lemma prompt_basic: "prompt (atomically m)" "prompt (send_outcome key out)"
  by (simp_all add: atomically_def send_outcome_def)

lemma prompt_log_request: "prompt (log_request_task D st s r)"
  unfolding log_request_task_def by (auto intro!: prompt_tbind prompt_basic split: sum.splits)

lemma prompt_reply_error: "prompt (reply_error_task e)"
  unfolding reply_error_task_def by (auto intro!: prompt_tbind prompt_basic)

lemma prompt_call: "prompt (call_task K c tok)"
  unfolding call_task_def by (auto intro!: prompt_tbind prompt_basic split: sum.splits)

lemma prompt_respond: "prompt (respond_task r)"
  by (cases r rule: respond.cases) (simp_all add: prompt_reply_error)

lemmas prompt_intros =
  prompt_tbind prompt_guarded prompt_basic prompt_log_request prompt_reply_error prompt_call prompt_respond

lemma prompt_services: "prompt (request_pin_task_service X st req)" "prompt (provision_task_service X st req)"
  unfolding request_pin_task_service_def request_pin_task_def issue_pin_task_def
    provision_task_service_def provision_task_def secret_upsert_task_def Let_def
  by (auto intro!: prompt_intros split: option.splits sum.splits)

lemma prompt_layers:
  "(\<And>req. prompt (h req)) \<Longrightarrow> prompt (audit_rate_limited_task X st (governor_layer_task G g h) req)"
  unfolding audit_rate_limited_task_def governor_layer_task_def Let_def
  by (auto intro!: prompt_intros split: option.splits sum.splits)

text \<open>A task that does not come to wait when nobody else runs.\<close>

primrec unblocked :: "'a task \<Rightarrow> world \<Rightarrow> bool" where
  "unblocked (Done a) = (\<lambda>w. True)"
| "unblocked (Step h g) = (\<lambda>w. case map_prod unblocked id (g w) of (ok, w') \<Rightarrow> ok w')"
| "unblocked (Publish h key out t) = unblocked t"
| "unblocked (Await h key rx f) = (\<lambda>w. False)"

lemma prompt_unblocked: "prompt t \<Longrightarrow> unblocked t w"
proof (induction t arbitrary: w rule: task_induct)
  case (Step h g w)
  obtain t w' where g: "g w = (t, w')" by fastforce
  with Step.IH [OF g promptD [OF Step.prems g]] show ?case by simp
qed simp_all

lemma unblocked_tbind: "unblocked t w \<Longrightarrow> (\<And>a. prompt (f a)) \<Longrightarrow> unblocked (tbind t f) w"
proof (induction t arbitrary: w rule: task_induct)
  case (Step h g)
  then show ?case by (cases "g w") simp
qed (simp_all add: prompt_unblocked)

lemma unblocked_introspect:
  assumes "inflight w (sha256 K tok) = None"
  shows "unblocked (introspect_task K c tok) w"
  using assms unfolding introspect_task_def atomically_def Let_def
  by (simp add: join_or_lead_def) (intro prompt_unblocked prompt_intros; simp)

lemma unblocked_protected:
  assumes "inflight w = Map.empty" and "\<And>req. prompt (h req)"
  shows "unblocked (protected_task X st g h req) w"
  using assms unblocked_introspect [of w]
  unfolding protected_task_def require_authentication_task_def authenticate_task_def
  by (auto intro!: unblocked_tbind prompt_intros prompt_layers intro: prompt_unblocked
      split: option.splits sum.splits)

lemma unblocked_routes: "inflight w = Map.empty \<Longrightarrow> unblocked (task_routes X st g route req) w"
  by (cases route) (auto simp: task_routes_def prompt_services intro: unblocked_protected)

text \<open>Left to itself, such a request is served to its end.\<close>

lemma task_completes:
  assumes "left j = t" and "unblocked t w" and "run_state (alone K t) w = (r, w')"
  shows "(serving_step serve)\<^sup>*\<^sup>* ([j], w) ([j\<lparr>left := Done r\<rparr>], w')"
  using assms
proof (induction t arbitrary: j w rule: task_induct)
  case (Done a)
  then have "j\<lparr>left := Done r\<rparr> = j" "w' = w" by simp_all
  then show ?case by simp
next
  case (Step h g)
  obtain t1 w1 where g: "g w = (t1, w1)" by fastforce
  have "serving_step serve ([j], w) ([j\<lparr>left := t1\<rparr>], w1)"
    using serving_step.progress [of 0 "[j]" h g w t1 w1] Step.prems(1) g by simp
  moreover have "(serving_step serve)\<^sup>*\<^sup>* ([j\<lparr>left := t1\<rparr>], w1) ([j\<lparr>left := t1\<rparr>\<lparr>left := Done r\<rparr>], w')"
    using Step.prems by (intro Step.IH [OF g]) (simp_all add: g)
  ultimately show ?case by (simp add: converse_rtranclp_into_rtranclp)
next
  case (Publish h key out t)
  have "serving_step serve ([j], w) ([j\<lparr>left := t\<rparr>], w)"
    using serving_step.publish [of 0 "[j]" h key out t serve w] Publish.prems(1) by simp
  moreover have "(serving_step serve)\<^sup>*\<^sup>* ([j\<lparr>left := t\<rparr>], w) ([j\<lparr>left := t\<rparr>\<lparr>left := Done r\<rparr>], w')"
    using Publish.prems by (intro Publish.IH) simp_all
  ultimately show ?case by (simp add: converse_rtranclp_into_rtranclp)
qed simp

section \<open>The sequential model\<close>

text \<open>
  A request that nothing interrupts is served as the sequential model says: the tasks of the
  concurrent server, run without interleaving, are the handlers with their layers.
\<close>

lemma uninterrupted_task_is_sequential:
  "(case create_router X st of
      Inl e \<Rightarrow> create_task_router X st = Inl e
    | Inr serve \<Rightarrow> \<exists>tasks. create_task_router X st = Inr tasks \<and> (\<forall>route req. alone (keycloak X) (tasks route req) = serve route req))"
proof (cases "rate_limit_config (governor X) (app_config st)")
  case (Inl e)
  then show ?thesis by (simp add: create_router_def create_task_router_def)
next
  case (Inr g)
  have "alone (keycloak X) (task_routes X st g route req) = (case route of
          Healthz \<Rightarrow> (\<lambda>_. State_Monad.return (Some \<lparr>status = 200, body = Json (healthz st)\<rparr>))
        | RequestPin \<Rightarrow> protected X st g (request_pin_service X st)
        | Provision \<Rightarrow> protected X st g (provision_service X st)) req" for route req
    by (cases route) (simp_all add: task_routes_def alone_protected)
  with Inr show ?thesis by (simp add: create_router_def create_task_router_def)
qed

end
