(* ===== verification/Interleaving.thy ===== *)
theory Interleaving
  imports Tasks
begin

text \<open>
  Soundness of the concurrent server by rely-guarantee reasoning: each step of a request keeps what
  all others rely on, and each message sent on a channel is what its receivers take it for, the
  answer to a call for a token with the channel's hash. So what a request is promised when the
  others behave, it is given under any interleaving, arrival and disconnection.
\<close>

section \<open>Steps that others rely on\<close>

text \<open>
  \<open>meets R M V t w Q\<close>: from \<open>w\<close> on, if the others only make steps of \<open>R\<close> and only send messages of \<open>M\<close>,
  so does the task \<open>t\<close>, and when it is done, its result and the state then satisfy \<open>Q\<close>, provided that
  every state before and after a step of the task satisfies \<open>V\<close>. For a given run, \<open>V\<close> holds of
  the states that the run has passed.
\<close>

type_synonym messages = "bytes \<Rightarrow> introspection_outcome \<Rightarrow> bool"

primrec meets ::
  "(world \<Rightarrow> world \<Rightarrow> bool) \<Rightarrow> messages \<Rightarrow> (world \<Rightarrow> bool) \<Rightarrow> 'a task \<Rightarrow> world \<Rightarrow> ('a \<Rightarrow> world \<Rightarrow> bool) \<Rightarrow> bool" where
  "meets R M V (Done a) = (\<lambda>w Q. Q a w)"
| "meets R M V (Step h g) = (\<lambda>w Q. \<forall>w1. R w w1 \<longrightarrow> V w1 \<longrightarrow>
     (case map_prod (meets R M V) id (g w1) of (m, w2) \<Rightarrow> R w1 w2 \<and> (V w2 \<longrightarrow> m w2 Q)))"
| "meets R M V (Publish h key out t) = (\<lambda>w Q. \<forall>w1. R w w1 \<longrightarrow> M key out \<and> meets R M V t w1 Q)"
| "meets R M V (Await h key rx f) = (\<lambda>w Q. \<forall>w1 r. R w w1 \<longrightarrow>
     (\<forall>out. r = Some out \<longrightarrow> M key out) \<longrightarrow> meets R M V (f r) w1 Q)"

locale rely = effect_relation R for R +
  fixes M :: messages and V :: "world \<Rightarrow> bool"
  assumes R_release: "R w (release h w)"
begin

lemma meets_mono:
  "meets R M V t w Q \<Longrightarrow> (\<And>a w'. R w w' \<Longrightarrow> Q a w' \<Longrightarrow> Q' a w') \<Longrightarrow> meets R M V t w Q'"
proof (induction t arbitrary: w rule: task_induct)
  case (Done a)
  then show ?case by (simp add: R_refl)
next
  case (Step h g)
  show ?case
    unfolding meets.simps
  proof (intro allI impI)
    fix w1 assume w1: "R w w1" and v: "V w1"
    obtain t w2 where g: "g w1 = (t, w2)" by fastforce
    with Step.prems(1) w1 v have "R w1 w2" "V w2 \<Longrightarrow> meets R M V t w2 Q" by auto
    moreover have "Q' a w'" if "R w2 w'" "Q a w'" for a w'
      using Step.prems(2) [OF _ that(2)] w1 \<open>R w1 w2\<close> that(1) R_trans by blast
    ultimately show "case map_prod (meets R M V) id (g w1) of (m, w2) \<Rightarrow> R w1 w2 \<and> (V w2 \<longrightarrow> m w2 Q')"
      using Step.IH [OF g] g by simp
  qed
next
  case (Publish h key out t)
  show ?case
    unfolding meets.simps
  proof (intro allI impI conjI)
    fix w1 assume w1: "R w w1"
    with Publish.prems(1) have t: "M key out" "meets R M V t w1 Q" by simp_all
    show "M key out" by (rule t(1))
    show "meets R M V t w1 Q'" using Publish.prems(2) R_trans [OF w1] by (intro Publish.IH [OF t(2)]) blast
  qed
next
  case (Await h key rx f)
  show ?case
    unfolding meets.simps
  proof (intro allI impI)
    fix w1 r assume w1: "R w w1" and r: "\<forall>out. r = Some out \<longrightarrow> M key out"
    with Await.prems(1) have "meets R M V (f r) w1 Q" by simp
    then show "meets R M V (f r) w1 Q'" using Await.prems(2) R_trans [OF w1] by (intro Await.IH) auto
  qed
qed

lemma meets_tbind:
  "meets R M V t w (\<lambda>a w'. meets R M V (f a) w' Q) \<Longrightarrow> meets R M V (tbind t f) w Q"
proof (induction t arbitrary: w rule: task_induct)
  case (Step h g)
  show ?case
    unfolding tbind.simps meets.simps
  proof (intro allI impI)
    fix w1 assume w1: "R w w1" and v: "V w1"
    obtain t w2 where g: "g w1 = (t, w2)" by fastforce
    with Step.prems w1 v have "R w1 w2" "V w2 \<Longrightarrow> meets R M V t w2 (\<lambda>a w'. meets R M V (f a) w' Q)" by auto
    with Step.IH [OF g] g show "case map_prod (meets R M V) id (map_prod (\<lambda>t. tbind t f) id (g w1)) of
        (m, w2) \<Rightarrow> R w1 w2 \<and> (V w2 \<longrightarrow> m w2 Q)"
      by simp
  qed
qed simp_all

lemma meets_seq:
  assumes "meets R M V t w Q" and "\<And>a w'. R w w' \<Longrightarrow> Q a w' \<Longrightarrow> meets R M V (f a) w' Q'"
  shows "meets R M V (tbind t f) w Q'"
  by (rule meets_tbind [OF meets_mono [OF assms(1)]]) (rule assms(2))

lemma meets_guarded: "meets R M V t w Q \<Longrightarrow> meets R M V (guarded key t) w Q"
proof (induction t arbitrary: w rule: task_induct)
  case (Step h g)
  show ?case
    unfolding guarded.simps meets.simps
  proof (intro allI impI)
    fix w1 assume w1: "R w w1" and v: "V w1"
    obtain t w2 where g: "g w1 = (t, w2)" by fastforce
    with Step.prems w1 v have "R w1 w2" "V w2 \<Longrightarrow> meets R M V t w2 Q" by auto
    with Step.IH [OF g] g show "case map_prod (meets R M V) id (map_prod (guarded key) id (g w1)) of
        (m, w2) \<Rightarrow> R w1 w2 \<and> (V w2 \<longrightarrow> m w2 Q)"
      by simp
  qed
qed simp_all

lemma meets_send: "M key out \<Longrightarrow> (\<And>w'. R w w' \<Longrightarrow> Q () w') \<Longrightarrow> meets R M V (send_outcome key out) w Q"
  by (simp add: send_outcome_def)

lemma meets_recv:
  "(\<And>w' r. R w w' \<Longrightarrow> (\<And>out. r = Some out \<Longrightarrow> M key out) \<Longrightarrow> Q r w') \<Longrightarrow> meets R M V (recv_outcome key rx) w Q"
  by (simp add: recv_outcome_def)

lemma meets_atomically:
  assumes "state_io_rel R m"
    and "\<And>w1 a w2. R w w1 \<Longrightarrow> R w1 w2 \<Longrightarrow> R w w2 \<Longrightarrow> V w1 \<Longrightarrow> V w2 \<Longrightarrow> run_state m w1 = (a, w2) \<Longrightarrow> Q a w2"
  shows "meets R M V (atomically m) w Q"
  unfolding atomically_def meets.simps
proof (intro allI impI)
  fix w1 assume "R w w1" "V w1"
  moreover obtain a w2 where "run_state m w1 = (a, w2)" by fastforce
  ultimately show "case map_prod (meets R M V) id (map_prod Done id (run_state m w1)) of (n, w2) \<Rightarrow> R w1 w2 \<and> (V w2 \<longrightarrow> n w2 Q)"
    using assms(2) [of w1] keeps_run [OF assms(1)] R_trans by fastforce
qed

lemma meets_atomic_seq:
  assumes "state_io_rel R m"
    and "\<And>w1 a w2. R w w1 \<Longrightarrow> R w1 w2 \<Longrightarrow> R w w2 \<Longrightarrow> V w1 \<Longrightarrow> V w2 \<Longrightarrow> run_state m w1 = (a, w2) \<Longrightarrow> meets R M V (f a) w2 Q"
  shows "meets R M V (tbind (atomically m) f) w Q"
  using assms by (intro meets_tbind meets_atomically)

text \<open>Steps of others before a task goes on do not matter.\<close>

lemma meets_later: "meets R M V t w Q \<Longrightarrow> \<forall>r. t \<noteq> Done r \<Longrightarrow> R w w' \<Longrightarrow> meets R M V t w' Q"
  using R_trans by (cases t) (simp, auto)

end

text \<open>A run of the server with the states it has passed, the first and the last included.\<close>

inductive serving_run ::
  "(route \<Rightarrow> task_service) \<Rightarrow> job list \<times> world \<Rightarrow> world list \<Rightarrow> job list \<times> world \<Rightarrow> bool"
  for serve :: "route \<Rightarrow> task_service" and s :: "job list \<times> world" where
  start: "serving_run serve s [snd s] s"
| step: "serving_run serve s ws s1 \<Longrightarrow> serving_step serve s1 s2 \<Longrightarrow> serving_run serve s (ws @ [snd s2]) s2"

lemma serving_run_ends: "serving_run serve s ws s' \<Longrightarrow> snd s \<in> set ws \<and> snd s' \<in> set ws"
  by (induction rule: serving_run.induct) auto

lemma serving_run_steps: "serving_run serve s ws s' \<Longrightarrow> (serving_step serve)\<^sup>*\<^sup>* s s'"
  by (induction rule: serving_run.induct) auto

lemma serving_run_Cons:
  assumes "serving_step serve s s1" and "serving_run serve s1 ws s'"
  shows "serving_run serve s (snd s # ws) s'"
  using assms(2)
proof (induction rule: serving_run.induct)
  case start
  show ?case using serving_run.step [OF serving_run.start assms(1)] by simp
next
  case (step ws s2 s3)
  then show ?case using serving_run.step by fastforce
qed

lemma serving_run_exists: "(serving_step serve)\<^sup>*\<^sup>* s s' \<Longrightarrow> \<exists>ws. serving_run serve s ws s'"
  by (induction rule: rtranclp_induct) (blast intro: serving_run.intros)+

text \<open>
  The rule for tasks that run together: what each promises when the others only make steps of
  \<open>R\<close>, they all keep, however their steps are interleaved.
\<close>

locale rely_guarantee = rely R M V for R M V +
  fixes serve :: "route \<Rightarrow> task_service"
    and promise :: "route \<Rightarrow> server_request \<Rightarrow> world \<Rightarrow> response option \<Rightarrow> world \<Rightarrow> bool"
  assumes serve_meets: "meets R M V (serve route req) w (promise route req w)"
begin

definition job_ok :: "world \<Rightarrow> world \<Rightarrow> job \<Rightarrow> bool" where
  "job_ok w0 w j \<longleftrightarrow> R w0 (arrived j) \<and> R (arrived j) w \<and>
     (\<exists>w1. R (arrived j) w1 \<and> R w1 w \<and>
        meets R M V (left j) w1 (promise (job_route j) (job_request j) (arrived j)))"

lemma job_ok_later: "job_ok w0 w j \<Longrightarrow> R w w' \<Longrightarrow> job_ok w0 w' j"
  unfolding job_ok_def by (blast intro: R_trans)

lemma job_ok_start:
  "R w0 w \<Longrightarrow>
     job_ok w0 w \<lparr>job_route = route, job_request = req, arrived = w, left = serve route req\<rparr>"
  using serve_meets [of route req w] R_refl by (auto simp: job_ok_def)

text \<open>A job that is not done may go on from the state as it is now.\<close>

lemma job_ok_now:
  assumes "job_ok w0 w j" and "left j = t" and "\<forall>r. t \<noteq> Done r"
  shows "meets R M V t w (promise (job_route j) (job_request j) (arrived j))"
  using assms meets_later unfolding job_ok_def by blast

lemma job_ok_go_on:
  assumes "job_ok w0 w j" and "R w w'"
    and "meets R M V t w' (promise (job_route j) (job_request j) (arrived j))"
  shows "job_ok w0 w' (j\<lparr>left := t\<rparr>)"
  using assms R_trans R_refl [of w'] unfolding job_ok_def by auto

lemma job_ok_step:
  assumes "job_ok w0 w j" and "left j = Step h g" and "g w = (t, w')" and "V w" and "V w'"
  shows "R w w' \<and> job_ok w0 w' (j\<lparr>left := t\<rparr>)"
proof -
  have "R w w'" "meets R M V t w' (promise (job_route j) (job_request j) (arrived j))"
    using job_ok_now [OF assms(1,2)] assms(3-5) R_refl [of w] by auto
  then show ?thesis using job_ok_go_on [OF assms(1)] by blast
qed

lemma job_ok_publish:
  assumes "job_ok w0 w j" and "left j = Publish h key out t"
  shows "M key out \<and> job_ok w0 w (j\<lparr>left := t\<rparr>)"
  using job_ok_now [OF assms] job_ok_go_on [OF assms(1) R_refl] R_refl [of w] by auto

lemma job_ok_receive:
  assumes "job_ok w0 w j" and "left j = Await h key rx f" and "\<And>out. r = Some out \<Longrightarrow> M key out"
  shows "job_ok w0 w (j\<lparr>left := f r\<rparr>)"
  using job_ok_now [OF assms(1,2)] assms(3) R_refl [of w] by (intro job_ok_go_on [OF assms(1) R_refl]) simp

lemma job_ok_hand_over: "job_ok w0 w j \<Longrightarrow> M key out \<Longrightarrow> job_ok w0 w (hand_over key tx out j)"
  by (auto simp: hand_over_def intro: job_ok_receive split: task.splits)

lemma serving_sound_step:
  assumes "serving_step serve (jobs, w) (jobs', w')" and "R w0 w" and "\<forall>j \<in> set jobs. job_ok w0 w j"
    and "V w" and "V w'"
  shows "R w0 w' \<and> (\<forall>j \<in> set jobs'. job_ok w0 w' j)"
  using assms(1)
proof cases
  case (arrive route req)
  with assms(2,3) job_ok_start show ?thesis by auto
next
  case (progress i h g t)
  then have "job_ok w0 w (jobs ! i)" using assms(3) by simp
  from job_ok_step [OF this progress(3,4) assms(4,5)] progress assms(2,3) show ?thesis
    by (auto intro: R_trans job_ok_later dest!: set_update_subset_insert [THEN subsetD])
next
  case (publish i h key out t)
  then have "job_ok w0 w (jobs ! i)" using assms(3) by simp
  from job_ok_publish [OF this publish(4)] publish(1,2) assms(2,3) show ?thesis
    by (auto simp: job_ok_hand_over dest!: set_update_subset_insert [THEN subsetD])
next
  case (closed i h key rx f)
  then have "job_ok w0 w (jobs ! i)" using assms(3) by simp
  from job_ok_receive [OF this closed(4), of None] closed(1,2) assms(2,3) show ?thesis
    by (auto dest!: set_update_subset_insert [THEN subsetD])
next
  case (disconnect i)
  have "R w w'" unfolding disconnect(2) by (rule R_release)
  moreover have "set jobs' \<subseteq> set jobs"
    unfolding disconnect(1) by (auto dest: in_set_takeD in_set_dropD)
  ultimately show ?thesis using assms(2,3) by (blast intro: R_trans job_ok_later)
qed

lemma serving_sound:
  assumes "serving_run serve ([], w0) ws (jobs, w)" and "\<forall>v \<in> set ws. V v"
  shows "R w0 w \<and> (\<forall>j \<in> set jobs. job_ok w0 w j)"
  using assms
proof (induction ws "(jobs, w)" arbitrary: jobs w rule: serving_run.induct)
  case start
  show ?case by (simp add: R_refl)
next
  case (step ws s1)
  obtain jobs1 w1 where s1: "s1 = (jobs1, w1)" by fastforce
  have "V w1" using serving_run_ends [OF step.hyps(1)] step.prems by (simp add: s1)
  with serving_sound_step [OF step.hyps(3) [unfolded s1]] step.hyps(2) [OF s1] step.prems show ?case by simp
qed

lemma finished_keeps_promise:
  assumes "serving_run serve ([], w0) ws (jobs, w)" and "\<forall>v \<in> set ws. V v" and "j \<in> set jobs" and "left j = Done r"
  shows "\<exists>w1. R w0 (arrived j) \<and> R (arrived j) w1 \<and> R w1 w \<and>
     promise (job_route j) (job_request j) (arrived j) r w1"
proof -
  have "job_ok w0 w j" using serving_sound [OF assms(1,2)] assms(3) by blast
  then show ?thesis by (auto simp: job_ok_def assms(4))
qed

end

section \<open>What the server's tasks rely on and keep\<close>

definition sound_step :: "aead \<Rightarrow> secret_store \<Rightarrow> world \<Rightarrow> world \<Rightarrow> bool" where
  "sound_step A self w w' \<longleftrightarrow> extends w w' \<and> (vault_ok A self w \<longrightarrow> vault_ok A self w')"

lemma release_effects: "extends w (release h w)" "same_vault A self w (release h w)"
  by (cases h; simp add: drop_guard_def extends_def same_vault_def vault_ok_def vault_of_def fun_eq_iff)+

interpretation sound: rely "sound_step A self" M V for A self M V
  using release_effects
  by unfold_locales (auto simp: sound_step_def same_vault_def intro: audit.R_refl audit.R_trans)

lemma sound_stepI:
  "state_io_rel extends m \<Longrightarrow> state_io_rel (same_vault A self) m \<Longrightarrow> state_io_rel (sound_step A self) m"
  by (auto simp: state_io_rel_def sound_step_def same_vault_def)

lemma insert_log_vault [frame_simps]:
  "state_io_rel (same_vault A self) (execute D (insert_log u s r))"
  by (rule same_vault_of_secrets [OF store_secrets(2)])

lemma sound_steps [frame_simps]:
  "state_io_rel (sound_step A self) (draw f)"
  "state_io_rel (sound_step A self) (emit l)"
  "state_io_rel (sound_step A self) (execute D (insert_log u subj r))"
  "state_io_rel (sound_step A self) (secret_get A D st s)"
  "state_io_rel (sound_step A self) (touch_last_used D st s)"
  "state_io_rel (sound_step A self) (encrypt A' c p)"
  "state_io_rel (sound_step A self) (totp_provision T s)"
  "state_io_rel (sound_step A self) (join_or_lead k)"
  "state_io_rel (sound_step A self) (drop_guard k)"
  by (auto intro!: sound_stepI frame_simps intro: same_vault_of_secrets [OF encrypt_effects(2)]
      same_vault_of_secrets [OF totp_provision_effects(2)] same_vault_of_secrets [OF flight_effects(2)]
      same_vault_of_secrets [OF flight_effects(5)])

lemma sound_limiter [frame_simps]: "state_io_rel (sound_step A self) (limiter_check G g k)"
  by (auto simp: state_io_rel_def limiter_check_def sound_step_def extends_def vault_ok_def)

lemma sound_upsert:
  assumes "aead_laws A \<Longrightarrow> decrypt A (crypto_of self) ct n = Inr p"
  shows "state_io_rel (sound_step A self) (execute D (upsert_secret s ct n))"
proof (rule execute_effect)
  show "sound_step A self w (w\<lparr>tick := Suc (tick w)\<rparr>)" for w
    by (simp add: sound_step_def extends_def)
  show "sound_step A self w w' \<Longrightarrow> sound_step A self w' w'' \<Longrightarrow> sound_step A self w w''" for w w' w''
    by (rule sound.R_trans)
  show "sound_step A self w (snd (upsert_secret s ct n t w))" for w t
    using vault_upsert(2) [OF assms] by (auto simp: sound_step_def extends_def vault_ok_def)
qed

text \<open>The audit trail of a request: a row written since \<open>w\<close>, or a line that one was lost.\<close>

definition audited :: "world \<Rightarrow> world \<Rightarrow> ustr option \<Rightarrow> request_result \<Rightarrow> bool" where
  "audited w w' subj res \<longleftrightarrow>
     (\<exists>row \<in> set (drop (length (request_log w)) (request_log w')).
        log_subject row = subj \<and> log_result row = as_str res) \<or>
     (\<exists>l \<in> set (drop (length (trace w)) (trace w')). audit_lost subj res l)"

lemma audited_mono:
  assumes "audited w1 w2 subj res" and "extends w w1" and "extends w2 w'"
  shows "audited w w' subj res"
  using assms(1) extends_news [OF assms(2,3)] unfolding audited_def by blast

lemma log_request_meets:
  "meets (sound_step A self) M V (log_request_task D st subj res) w (\<lambda>_ w'. audited w w' subj res)"
  unfolding log_request_task_def
proof (intro sound.meets_atomic_seq sound_steps)
  fix u w2 w3 r w4
  assume "sound_step A self w w2" "sound_step A self w2 w3" "sound_step A self w2 w4"
    and run: "run_state (execute D (insert_log u subj (as_str res))) w3 = (r, w4)"
  then have ext: "extends w w3" "extends w w4" by (auto simp: sound_step_def intro: audit.R_trans)
  show "meets (sound_step A self) M V (case r of Inr _ \<Rightarrow> Done () | Inl err \<Rightarrow> atomically (emit
      \<lparr>level = Error,
       log_fields = [(lit ''subject'', Display (case subj of None \<Rightarrow> lit ''<unauthenticated>'' | Some s \<Rightarrow> s)),
         (lit ''result'', Display (as_str res)), (lit ''error'', DebugOf (Wrapped err))],
       message = lit ''failed to write the audit log entry''\<rparr>)) w4 (\<lambda>_ w'. audited w w' subj res)"
  proof (cases r)
    case (Inl err)
    have "audited w (w5\<lparr>trace := trace w5 @ [l]\<rparr>) subj res"
      if "sound_step A self w4 w5" "audit_lost subj res l" for w5 l
    proof -
      have "length (trace w) \<le> length (trace w5)"
        using ext that(1) by (auto simp: extends_def sound_step_def dest!: prefix_length_le)
      with that show ?thesis by (auto simp: audited_def)
    qed
    then show ?thesis
      unfolding Inl by (auto intro!: sound.meets_atomically sound_steps simp: audit_lost_def)
  next
    case (Inr x)
    then have "audited w3 w4 subj res"
      using run by (auto simp: run_execute insert_log_def audited_def Let_def
          split: option.splits if_splits prod.splits)
    with ext Inr show ?thesis by (auto intro: audited_mono audit.R_refl)
  qed
qed

section \<open>What a request is promised\<close>

text \<open>
  What is sent on the channel of a call in flight: the answer to a call for a token with the
  channel's hash, with the call made and its answer evaluated at states of the run.
\<close>

definition answer_for :: "keycloak \<Rightarrow> introspection_client \<Rightarrow> (world \<Rightarrow> bool) \<Rightarrow> messages" where
  "answer_for K c V key out \<longleftrightarrow>
     (\<exists>tok asked evaluated. sha256 K tok = key \<and> V asked \<and> V evaluated \<and>
        out = call_outcome K c tok (tick asked) (tick evaluated))"

text \<open>
  Who a request was authenticated as: the user of an answer to a call for its token, made for
  this request or for the one it joined (whose token has the same hash).
\<close>

definition authenticated_as :: "externals \<Rightarrow> app_state \<Rightarrow> (world \<Rightarrow> bool) \<Rightarrow> server_request \<Rightarrow> authenticated_user \<Rightarrow> bool" where
  "authenticated_as X st V req user \<longleftrightarrow>
     (\<exists>tok. bearer_token req = Some tok \<and>
        answer_for (keycloak X) (introspection st) V (sha256 (keycloak X) tok) (Active user))"

text \<open>
  A PIN given out between \<open>w\<close> and \<open>w'\<close>, with a secret that was stored in a state of the run between
  them.
\<close>

definition pin_issued ::
  "externals \<Rightarrow> app_state \<Rightarrow> (world \<Rightarrow> bool) \<Rightarrow> authenticated_user \<Rightarrow> world \<Rightarrow> json \<Rightarrow> world \<Rightarrow> bool" where
  "pin_issued X st V user w j w' \<longleftrightarrow>
     (\<exists>w1 secret t u p. V w1 \<and> extends w w1 \<and> extends w1 w' \<and>
        vault_of (aead X) (secrets st) w1 (subject user) = Some secret \<and>
        tick w \<le> t \<and> t < tick w' \<and> unix_now (system_time X t) = Some u \<and>
        generate_at (totp_rs X) secret u = Inr p \<and> j = pin_response p \<and>
        audited w w' (Some (subject user)) Issued)"

text \<open>
  A secret made for an administrator between \<open>w\<close> and \<open>w'\<close>, that was stored in a state of the run between
  them.
\<close>

definition secret_installed ::
  "externals \<Rightarrow> app_state \<Rightarrow> (world \<Rightarrow> bool) \<Rightarrow> authenticated_user \<Rightarrow> provision_request \<Rightarrow> world \<Rightarrow> json \<Rightarrow> world \<Rightarrow> bool" where
  "secret_installed X st V admin payload w j w' \<longleftrightarrow>
     has_role admin (admin_role (app_config st)) \<and>
     (\<exists>w1 t p. V w1 \<and> extends w w1 \<and> extends w1 w' \<and> tick w \<le> t \<and> t < tick w' \<and>
        fresh_secret (totp_rs X) (trim (for_subject payload)) t p \<and>
        vault_of (aead X) (secrets st) w1 (trim (for_subject payload)) = Some (raw p) \<and>
        j = provision_response p \<and> audited w w' (Some (trim (for_subject payload))) Provisioned)"

lemma extends_tick: "extends w w' \<Longrightarrow> tick w \<le> tick w'"
  by (simp add: extends_def)

lemma pin_issued_mono:
  assumes "pin_issued X st V user w1 j w2" and ext: "extends w w1" "extends w2 w'"
  shows "pin_issued X st V user w j w'"
proof -
  obtain v secret t u p where "V v" "extends w1 v" "extends v w2"
      "vault_of (aead X) (secrets st) v (subject user) = Some secret" "tick w1 \<le> t" "t < tick w2"
      "unix_now (system_time X t) = Some u" "generate_at (totp_rs X) secret u = Inr p" "j = pin_response p"
      "audited w1 w2 (Some (subject user)) Issued"
    using assms(1) unfolding pin_issued_def by blast
  moreover have "extends w v" "extends v w'" using calculation(2,3) ext audit.R_trans by blast+
  moreover have "tick w \<le> t" "t < tick w'"
    using calculation(5,6) extends_tick [OF ext(1)] extends_tick [OF ext(2)] by simp_all
  ultimately show ?thesis unfolding pin_issued_def using audited_mono ext by blast
qed

lemma secret_installed_mono:
  "secret_installed X st V a p w1 j w2 \<Longrightarrow> extends w w1 \<Longrightarrow> extends w2 w' \<Longrightarrow> secret_installed X st V a p w j w'"
  unfolding secret_installed_def
  by (blast intro: audit.R_trans audited_mono order_trans [OF extends_tick] less_le_trans [OF _ extends_tick])

lemma logged_meets:
  "meets (sound_step A self) M V
     (tbind (log_request_task D st subj res) (\<lambda>_. tbind (atomically (emit l)) (\<lambda>_. Done a))) w
     (\<lambda>r w'. r = a \<and> audited w w' subj res)"
proof (rule sound.meets_seq [OF log_request_meets])
  fix u w1 assume "audited w w1 subj res"
  then show "meets (sound_step A self) M V (tbind (atomically (emit l)) (\<lambda>_. Done a)) w1
      (\<lambda>r w'. r = a \<and> audited w w' subj res)"
    by (intro sound.meets_atomic_seq sound_steps) (auto simp: sound_step_def intro: audited_mono audit.R_refl)
qed

text \<open>What is left to do once the PIN is computed ends in the answer and its audit row.\<close>

lemma hand_out_meets:
  "meets (sound_step A self) M V
     (tbind (atomically (touch_last_used D st s)) (\<lambda>touched.
      case touched of
        Inl e \<Rightarrow> Done (Some (Inl e))
      | Inr _ \<Rightarrow> tbind (log_request_task D st subj res) (\<lambda>_. tbind (atomically (emit l)) (\<lambda>_. Done a)))) w
     (\<lambda>r w'. extends w w' \<and> ((\<exists>e. r = Some (Inl e)) \<or> r = a \<and> audited w w' subj res))" (is "meets ?R M V _ w ?Q")
proof (rule sound.meets_atomic_seq [OF sound_steps(5)])
  fix w1 touched w2
  assume "?R w w2"
  then have "extends w w2" by (simp add: sound_step_def)
  then have "?Q r w'" if "?R w2 w'" "r = a" "audited w2 w' subj res" for r w'
    using that audited_mono [OF that(3) _ audit.R_refl] audit.R_trans by (auto simp: sound_step_def)
  then show "meets ?R M V (case touched of
        Inl e \<Rightarrow> Done (Some (Inl e))
      | Inr _ \<Rightarrow> tbind (log_request_task D st subj res) (\<lambda>_. tbind (atomically (emit l)) (\<lambda>_. Done a))) w2 ?Q"
    using \<open>extends w w2\<close> by (cases touched) (auto intro!: sound.meets_mono [OF logged_meets] simp: sound_step_def intro: audit.R_trans)
qed

lemma issue_pin_meets:
  "meets (sound_step A self) M V (issue_pin_task X st user secret) w
     (\<lambda>r w'. \<forall>j. r = Some (Inr j) \<longrightarrow>
        (\<exists>t u p. tick w \<le> t \<and> t < tick w' \<and> unix_now (system_time X t) = Some u \<and>
           generate_at (totp_rs X) secret u = Inr p \<and> j = pin_response p \<and>
           audited w w' (Some (subject user)) Issued))" (is "meets ?R M V _ w ?Q")
  unfolding issue_pin_task_def
proof (rule sound.meets_atomic_seq [OF sound_steps(1)])
  fix w1 clk w2
  assume step: "?R w w1" "?R w w2" and "run_state (draw (system_time X)) w1 = (clk, w2)"
  then have clk: "clk = system_time X (tick w1)" and ticks: "tick w \<le> tick w1" "tick w1 < tick w2"
    by (auto simp: sound_step_def extends_def)
  have issued: "\<exists>t u p. tick w \<le> t \<and> t < tick w' \<and> unix_now (system_time X t) = Some u \<and>
      generate_at (totp_rs X) secret u = Inr p \<and> pin_response p' = pin_response p \<and>
      audited w w' (Some (subject user)) Issued"
    if gen: "generate (totp_rs X) clk secret = Some (Inr p')" and "extends w2 w'" and "audited w2 w' (Some (subject user)) Issued"
    for p' w'
  proof -
    have "tick w1 < tick w'" using that(2) ticks by (simp add: extends_def)
    moreover have "audited w w' (Some (subject user)) Issued"
      using audited_mono [OF that(3) _ audit.R_refl] step(2) by (simp add: sound_step_def)
    moreover obtain u where "unix_now (system_time X (tick w1)) = Some u" "generate_at (totp_rs X) secret u = Inr p'"
      using gen by (auto simp: generate_def clk)
    ultimately show ?thesis using ticks(1) by blast
  qed
  show "meets ?R M V (case generate (totp_rs X) clk secret of
       None \<Rightarrow> Done None
     | Some (Inl e) \<Rightarrow> Done (Some (Inl e))
     | Some (Inr generated) \<Rightarrow>
         tbind (atomically (touch_last_used (db X) (secrets st) (subject user))) (\<lambda>touched.
         case touched of
           Inl e \<Rightarrow> Done (Some (Inl e))
         | Inr _ \<Rightarrow>
             tbind (log_request_task (db X) (secrets st) (Some (subject user)) Issued) (\<lambda>_.
             tbind (atomically (emit (issued_line (subject user)))) (\<lambda>_.
             Done (Some (Inr (pin_response generated))))))) w2 ?Q"
    by (auto intro!: sound.meets_mono [OF hand_out_meets] split: option.splits sum.splits) (use issued in blast)
qed

lemma request_pin_meets:
  "meets (sound_step (aead X) (secrets st)) M V (request_pin_task X st user) w
     (\<lambda>r w'. \<forall>j. r = Some (Inr j) \<longrightarrow> vault_ok (aead X) (secrets st) w \<longrightarrow> pin_issued X st V user w j w')"
    (is "meets ?R M V _ w ?Q")
  unfolding request_pin_task_def
proof (rule sound.meets_atomic_seq [OF sound_steps(4)])
  fix w1 r w2
  assume step: "?R w w1" "?R w1 w2" "?R w w2" "V w1"
    and run: "run_state (secret_get (aead X) (db X) (secrets st) (subject user)) w1 = (r, w2)"
  have stored: "vault_of (aead X) (secrets st) w1 (subject user) = Some s"
    if "r = Inr (Some s)" "vault_ok (aead X) (secrets st) w" for s
    using secret_get_returns [of "aead X" "secrets st" w1] step(1) run that by (simp add: sound_step_def)
  have issued: "meets ?R M V (issue_pin_task X st user s) w2 ?Q" if "r = Inr (Some s)" for s
  proof (rule sound.meets_mono [OF issue_pin_meets])
    fix a :: "(app_error, json) result option" and w'
    assume "?R w2 w'" and a: "\<forall>j. a = Some (Inr j) \<longrightarrow>
        (\<exists>t u p. tick w2 \<le> t \<and> t < tick w' \<and> unix_now (system_time X t) = Some u \<and>
           generate_at (totp_rs X) s u = Inr p \<and> j = pin_response p \<and>
           audited w2 w' (Some (subject user)) Issued)"
    then have ext: "extends w w1" "extends w1 w'" "extends w w2" "extends w' w'" "tick w \<le> tick w2"
      using step by (auto simp: sound_step_def extends_tick intro: audit.R_refl audit.R_trans)
    show "?Q a w'"
    proof (intro allI impI)
      fix j assume "a = Some (Inr j)" and ok: "vault_ok (aead X) (secrets st) w"
      with a obtain t u p where "tick w2 \<le> t" "t < tick w'" "unix_now (system_time X t) = Some u"
          "generate_at (totp_rs X) s u = Inr p" "j = pin_response p" "audited w2 w' (Some (subject user)) Issued"
        by blast
      with ext step(4) stored [OF that ok] audited_mono [OF this(6) ext(3,4)] show "pin_issued X st V user w j w'"
        unfolding pin_issued_def by (intro exI [of _ w1] exI [of _ s] exI [of _ t] exI [of _ u] exI [of _ p]) simp
    qed
  qed
  have denied: "meets ?R M V (tbind (log_request_task (db X) (secrets st) (Some (subject user)) DeniedNoSecret)
      (\<lambda>_. Done (Some (Inl NotFound)))) w2 ?Q"
    by (rule sound.meets_seq [OF log_request_meets]) simp
  show "meets ?R M V (case r of
       Inl e \<Rightarrow> Done (Some (Inl e))
     | Inr None \<Rightarrow>
         tbind (log_request_task (db X) (secrets st) (Some (subject user)) DeniedNoSecret) (\<lambda>_.
         Done (Some (Inl NotFound)))
     | Inr (Some secret) \<Rightarrow> issue_pin_task X st user secret) w2 ?Q"
    using issued denied by (auto split: sum.splits option.splits)
qed

lemma upsert_meets:
  "meets (sound_step A self) M V (secret_upsert_task A D self s p) w
     (\<lambda>r w'. r = Inr () \<longrightarrow> vault_ok A self w \<longrightarrow>
        (\<exists>w1. V w1 \<and> extends w w1 \<and> extends w1 w' \<and> vault_of A self w1 s = Some p))"
    (is "meets ?R M V _ w ?Q")
  unfolding secret_upsert_task_def
proof (rule sound.meets_atomic_seq [OF sound_steps(6)])
  fix w1 r w2
  assume step: "?R w w2" and run: "run_state (encrypt A (crypto_of self) p) w1 = (r, w2)"
  have dec: "decrypt A (crypto_of self) ct n = Inr p" if "r = Inr (ct, n)" "aead_laws A" for ct n
    using decrypt_encrypt [OF that(2)] run that(1) by simp
  have "meets ?R M V (tbind (atomically (execute D (upsert_secret s ct n))) (\<lambda>r. Done (map_err from_sqlx r))) w2 ?Q"
    if r: "r = Inr (ct, n)" for ct n
  proof (rule sound.meets_atomic_seq [OF sound_upsert [OF dec [OF r]]])
    fix w3 r' w4
    assume w: "?R w2 w4" "V w4" and run': "run_state (execute D (upsert_secret s ct n)) w3 = (r', w4)"
    have "vault_of A self w4 s = Some p" if "r' = Inr ()" "vault_ok A self w"
    proof -
      have "decrypt A (crypto_of self) ct n = Inr p" using that(2) dec [OF r] by (simp add: vault_ok_def)
      from vault_upsert(1) [OF this] run' that(1) show ?thesis
        by (auto simp: run_execute Let_def split: option.splits prod.splits) (metis fun_upd_same snd_conv)
    qed
    then show "meets ?R M V (Done (map_err from_sqlx r')) w4 ?Q"
      using step w by (auto simp: sound_step_def intro: audit.R_refl audit.R_trans)
  qed
  then show "meets ?R M V (case r of
       Inl e \<Rightarrow> Done (Inl e)
     | Inr (ct, n) \<Rightarrow>
         tbind (atomically (execute D (upsert_secret s ct n))) (\<lambda>r. Done (map_err from_sqlx r))) w2 ?Q"
    by (auto split: sum.splits)
qed

lemma provision_store_meets:
  fixes payload :: provision_request
  defines "s \<equiv> trim (for_subject payload)"
  assumes w1: "sound_step (aead X) (secrets st) w w1" and admin: "has_role admin (admin_role (app_config st))"
    and fresh: "fresh_secret (totp_rs X) s t p" "tick w \<le> t" "t < tick w1"
  shows "meets (sound_step (aead X) (secrets st)) M V
      (tbind (secret_upsert_task (aead X) (db X) (secrets st) s (raw p)) (\<lambda>stored.
         case stored of
           Inl e \<Rightarrow> Done (Some (Inl e))
         | Inr _ \<Rightarrow>
             tbind (log_request_task (db X) (secrets st) (Some s) Provisioned) (\<lambda>_.
             tbind (atomically (emit (provisioned_line s (subject admin)))) (\<lambda>_.
             Done (Some (Inr (provision_response p))))))) w1
      (\<lambda>r w'. \<forall>j. r = Some (Inr j) \<longrightarrow> vault_ok (aead X) (secrets st) w \<longrightarrow>
         secret_installed X st V admin payload w j w')" (is "meets ?R M V _ w1 ?Q")
proof (rule sound.meets_seq [OF upsert_meets])
  fix r :: "(app_error, unit) result" and w2
  assume "?R w1 w2" and
    stored: "r = Inr () \<longrightarrow> vault_ok (aead X) (secrets st) w1 \<longrightarrow> (\<exists>v. V v \<and> extends w1 v \<and> extends v w2 \<and> vault_of (aead X) (secrets st) v s = Some (raw p))"
  then have ext: "extends w w1" "extends w w2" using w1 by (auto simp: sound_step_def intro: audit.R_trans)
  have "?Q (Some (Inr (provision_response p))) w'"
    if r: "r = Inr ()" and w': "?R w2 w'" and aud: "audited w2 w' (Some s) Provisioned" for w'
  proof (intro allI impI)
    fix j assume j: "Some (Inr (provision_response p)) = Some (Inr j)" and "vault_ok (aead X) (secrets st) w"
    with w1 have "vault_ok (aead X) (secrets st) w1" by (simp add: sound_step_def)
    then obtain v where "V v" "extends w1 v" "extends v w2" "vault_of (aead X) (secrets st) v s = Some (raw p)"
      using stored r by blast
    moreover have "extends w2 w'" using w' by (simp add: sound_step_def)
    moreover have "t < tick w'"
      using less_le_trans [OF fresh(3) extends_tick] calculation(2,3,5) audit.R_trans by blast
    ultimately show "secret_installed X st V admin payload w j w'"
      using admin fresh(1,2) ext audited_mono [OF aud ext(2) audit.R_refl] audit.R_trans j
      unfolding secret_installed_def s_def by blast
  qed
  then show "meets ?R M V (case r of
         Inl e \<Rightarrow> Done (Some (Inl e))
       | Inr _ \<Rightarrow>
           tbind (log_request_task (db X) (secrets st) (Some s) Provisioned) (\<lambda>_.
           tbind (atomically (emit (provisioned_line s (subject admin)))) (\<lambda>_.
           Done (Some (Inr (provision_response p)))))) w2 ?Q"
    by (cases r) (auto intro!: sound.meets_mono [OF logged_meets])
qed

lemma provision_meets:
  "meets (sound_step (aead X) (secrets st)) M V (provision_task X st admin payload) w
     (\<lambda>r w'. \<forall>j. r = Some (Inr j) \<longrightarrow> vault_ok (aead X) (secrets st) w \<longrightarrow>
        secret_installed X st V admin payload w j w')" (is "meets ?R M V _ w ?Q")
proof -
  let ?s = "trim (for_subject payload)"
  note store = provision_store_meets [where w = w and payload = payload and X = X and st = st and admin = admin]
  let ?rest = "\<lambda>made. case made of
             Inl e \<Rightarrow> Done (Some (Inl e))
           | Inr provisioned \<Rightarrow>
               tbind (secret_upsert_task (aead X) (db X) (secrets st) ?s (raw provisioned)) (\<lambda>stored.
               case stored of
                 Inl e \<Rightarrow> Done (Some (Inl e))
               | Inr _ \<Rightarrow>
                   tbind (log_request_task (db X) (secrets st) (Some ?s) Provisioned) (\<lambda>_.
                   tbind (atomically (emit (provisioned_line ?s (subject admin)))) (\<lambda>_.
                   Done (Some (Inr (provision_response provisioned))))))"
  have "meets ?R M V (tbind (atomically (emit l)) (\<lambda>_. Done (Some (Inl Forbidden)))) w ?Q" for l
    by (rule sound.meets_atomic_seq [OF sound_steps(2)]) simp
  moreover have "meets ?R M V (tbind (atomically (totp_provision (totp_rs X) ?s)) ?rest) w ?Q"
    if admin: "has_role admin (admin_role (app_config st))"
  proof (rule sound.meets_atomic_seq [OF sound_steps(7)])
    fix w1 made w2
    assume step: "?R w w1" "?R w w2" and run: "run_state (totp_provision (totp_rs X) ?s) w1 = (made, w2)"
    show "meets ?R M V (?rest made) w2 ?Q"
    proof (cases made)
      case (Inr p)
      then have "fresh_secret (totp_rs X) ?s (tick w1) p" "tick w1 < tick w2"
        using totp_provision_fresh run by fastforce+
      moreover have "tick w \<le> tick w1" using step(1) by (simp add: sound_step_def extends_def)
      ultimately show ?thesis using store [OF step(2) admin] by (simp add: Inr)
    qed simp
  qed
  ultimately show ?thesis unfolding provision_task_def Let_def by auto
qed

section \<open>The layers\<close>

text \<open>A promise on successful responses, kept by whatever the layers do afterwards.\<close>

definition on_success :: "(body \<Rightarrow> world \<Rightarrow> bool) \<Rightarrow> response option \<Rightarrow> world \<Rightarrow> bool" where
  "on_success P r w' \<longleftrightarrow> (\<forall>resp. r = Some resp \<longrightarrow> status resp = 200 \<longrightarrow> P (body resp) w')"

lemma error_status_not_200 [simp]: "error_status e \<noteq> 200"
  by (cases e) simp_all

lemma respond_meets:
  assumes "\<And>j. r = Some (Inr j) \<Longrightarrow> P (Json j) w"
  shows "meets (sound_step A self) M V (respond_task r) w (on_success P)"
  using assms
  by (cases r rule: respond.cases)
    (auto simp: on_success_def reply_error_task_def intro!: sound.meets_atomic_seq sound_steps)

lemma pin_service_meets:
  assumes "extension_user req = Some user"
  shows "meets (sound_step (aead X) (secrets st)) M V (request_pin_task_service X st req) w
     (on_success (\<lambda>b w'. vault_ok (aead X) (secrets st) w \<longrightarrow> (\<exists>j. b = Json j \<and> pin_issued X st V user w j w')))"
  unfolding request_pin_task_service_def assms option.case
  by (rule sound.meets_seq [OF request_pin_meets]) (auto intro: respond_meets)

lemma provision_service_meets:
  assumes "extension_user req = Some user"
  shows "meets (sound_step (aead X) (secrets st)) M V (provision_task_service X st req) w
     (on_success (\<lambda>b w'. vault_ok (aead X) (secrets st) w \<and> responses_ok X req \<longrightarrow>
        (\<exists>j payload. b = Json j \<and> provision_payload req = Inr payload \<and>
           secret_installed X st V user payload w j w')))"
proof (cases "provision_payload req")
  case (Inl rejection)
  with assms show ?thesis by (simp add: provision_task_service_def on_success_def responses_ok_def)
next
  case (Inr payload)
  with assms show ?thesis
    unfolding provision_task_service_def
    by (simp, intro sound.meets_seq [OF provision_meets]) (auto intro!: respond_meets)
qed

lemma governor_meets:
  assumes "extension_user req = Some user"
    and "\<And>b w'. status (error_response G TooManyRequests) = 200 \<Longrightarrow> P b w'"
    and "\<And>w'. sound_step A self w w' \<Longrightarrow> meets (sound_step A self) M V (h req) w' (on_success P)"
  shows "meets (sound_step A self) M V (governor_layer_task G g h req) w (on_success P)"
  using assms
  by (auto simp: governor_layer_task_def extract_key_def on_success_def
      intro!: sound.meets_atomic_seq sound_limiter)

lemma audit_layer_meets:
  assumes "meets (sound_step A self) M V (h req) w (on_success P)"
  shows "meets (sound_step A self) M V (audit_rate_limited_task X st h req) w (on_success P)"
  unfolding audit_rate_limited_task_def Let_def
proof (rule sound.meets_seq [OF assms(1)])
  fix r w1 assume r: "on_success P r w1"
  have "meets (sound_step A self) M V (tbind (atomically (emit l)) (\<lambda>_.
      tbind (log_request_task D s subj res) (\<lambda>_. Done (Some resp)))) w1 (on_success P)"
    if "r = Some resp" "status resp = 429" for l D s subj res resp
    using that by (intro sound.meets_atomic_seq sound_steps sound.meets_seq [OF log_request_meets])
      (simp add: on_success_def)
  with r show "meets (sound_step A self) M V (case r of
        None \<Rightarrow> Done None
      | Some resp \<Rightarrow>
          if status resp = 429
          then tbind (atomically (emit (rate_limited_line (map_option subject (extension_user req))))) (\<lambda>_.
               tbind (log_request_task (db X) (secrets st) (map_option subject (extension_user req)) RateLimitedResult) (\<lambda>_.
               Done (Some resp)))
          else Done (Some resp)) w1 (on_success P)"
    by (auto split: option.splits)
qed

lemma call_meets:
  "meets (sound_step A self) M V (call_task K c tok) w 
     (\<lambda>out _. \<exists>asked evaluated. V asked \<and> V evaluated \<and>
        out = call_outcome K c tok (tick asked) (tick evaluated))"
  unfolding call_task_def
proof (rule sound.meets_atomic_seq [OF sound_steps(1)])
  fix w1 r w2 assume v: "V w1" and "run_state (draw (\<lambda>t. http_send K t (introspection_request c tok))) w1 = (r, w2)"
  then have r: "http_send K (tick w1) (introspection_request c tok) = r" by simp
  have "meets (sound_step A self) M V (case r of
       Inl err \<Rightarrow> Done (Unavailable (lit ''could not reach the introspection endpoint: '' @ err))
     | Inr response \<Rightarrow>
         if \<not> is_success (reply_status response)
         then Done (Unavailable (lit ''introspection endpoint returned HTTP '' @ reply_status_text response))
         else (case reply_json response of
                 Inl err \<Rightarrow> Done (Unavailable (lit ''could not parse the introspection response: '' @ err))
               | Inr response_body \<Rightarrow>
                   tbind (atomically (draw (utc_timestamp K))) (\<lambda>now.
                   Done (evaluate c now response_body)))) w2
      (\<lambda>out _. \<exists>v. V v \<and> out = call_outcome K c tok (tick w1) (tick v))"
    unfolding call_outcome_def r
    using v by (auto intro!: sound.meets_atomic_seq sound_steps split: sum.splits)
  then show "meets (sound_step A self) M V (case r of
       Inl err \<Rightarrow> Done (Unavailable (lit ''could not reach the introspection endpoint: '' @ err))
     | Inr response \<Rightarrow>
         if \<not> is_success (reply_status response)
         then Done (Unavailable (lit ''introspection endpoint returned HTTP '' @ reply_status_text response))
         else (case reply_json response of
                 Inl err \<Rightarrow> Done (Unavailable (lit ''could not parse the introspection response: '' @ err))
               | Inr response_body \<Rightarrow>
                   tbind (atomically (draw (utc_timestamp K))) (\<lambda>now.
                   Done (evaluate c now response_body)))) w2
      (\<lambda>out _. \<exists>asked evaluated. V asked \<and> V evaluated \<and> out = call_outcome K c tok (tick asked) (tick evaluated))"
    by (rule sound.meets_mono) (use v in blast)
qed

lemma authenticate_meets:
  "meets (sound_step A self) (answer_for K c V) V (authenticate_task K c tok) w
     (\<lambda>r _. \<forall>user. r = Inr user \<longrightarrow> answer_for K c V (sha256 K tok) (Active user))"
proof -
  let ?k = "sha256 K tok"
  let ?Q = "\<lambda>out (_ :: world). answer_for K c V ?k out"
  have own: "meets (sound_step A self) (answer_for K c V) V (call_task K c tok) w' ?Q" for w'
    by (rule sound.meets_mono [OF call_meets]) (auto simp: answer_for_def)
  have lead: "meets (sound_step A self) (answer_for K c V) V (tbind (call_task K c tok) (\<lambda>outcome.
      tbind (send_outcome ?k outcome) (\<lambda>_. tbind (atomically (drop_guard ?k)) (\<lambda>_. Done outcome)))) w' ?Q" for w'
    by (rule sound.meets_seq [OF own])
      (auto intro!: sound.meets_tbind sound.meets_send sound.meets_atomically sound_steps)
  have join: "meets (sound_step A self) (answer_for K c V) V (tbind (recv_outcome ?k rx) (\<lambda>received.
          case received of
            Some outcome \<Rightarrow> Done outcome
          | None \<Rightarrow> call_task K c tok)) w' ?Q" for w' rx
    by (rule sound.meets_tbind, rule sound.meets_recv) (auto intro: own split: option.splits)
  have "meets (sound_step A self) (answer_for K c V) V (introspect_task K c tok) w ?Q"
    unfolding introspect_task_def Let_def
    by (rule sound.meets_atomic_seq [OF sound_steps(8)]) (auto intro: sound.meets_guarded lead join split: option.splits)
  then show ?thesis
    unfolding authenticate_task_def by (rule sound.meets_seq) (auto simp: outcome_result_Inr)
qed

lemma require_authentication_meets:
  assumes "\<And>user w'. authenticated_as X st V req user \<Longrightarrow> sound_step A self w w' \<Longrightarrow>
      meets (sound_step A self) (answer_for (keycloak X) (introspection st) V) V (h (req\<lparr>extension_user := Some user\<rparr>)) w' (on_success P)"
  shows "meets (sound_step A self) (answer_for (keycloak X) (introspection st) V) V (require_authentication_task X st h req) w (on_success P)"
proof -
  have refuse: "meets (sound_step A self) (answer_for (keycloak X) (introspection st) V) V (reply_error_task e) w' (on_success P)" for e w'
    unfolding reply_error_task_def
    by (rule sound.meets_atomic_seq [OF sound_steps(2)]) (simp add: on_success_def)
  have denied: "meets (sound_step A self) (answer_for (keycloak X) (introspection st) V) V (tbind (log_request_task D s subj res) (\<lambda>_. reply_error_task e)) w'
      (on_success P)" for D s subj res e w'
    by (rule sound.meets_seq [OF log_request_meets]) (rule refuse)
  show ?thesis
  proof (cases "bearer_token req")
    case None
    with denied show ?thesis by (simp add: require_authentication_task_def)
  next
    case (Some tok)
    have enter: "meets (sound_step A self) (answer_for (keycloak X) (introspection st) V) V (tbind (atomically (emit l)) (\<lambda>_. h (req\<lparr>extension_user := Some user\<rparr>))) w'
        (on_success P)" if "authenticated_as X st V req user" "sound_step A self w w'" for l user w'
      by (rule sound.meets_atomic_seq [OF sound_steps(2)])
        (rule assms [OF that(1) sound.R_trans [OF that(2)]])
    show ?thesis
      unfolding require_authentication_task_def Some option.case
      by (rule sound.meets_seq [OF authenticate_meets])
        (auto intro!: refuse denied enter simp: authenticated_as_def Some split: sum.splits)
  qed
qed

text \<open>
  What each route promises for a request that arrives in \<open>w\<close> and is answered in \<open>w'\<close>.
\<close>

definition pin_promise :: "externals \<Rightarrow> app_state \<Rightarrow> (world \<Rightarrow> bool) \<Rightarrow> server_request \<Rightarrow> world \<Rightarrow> body \<Rightarrow> world \<Rightarrow> bool" where
  "pin_promise X st V req w b w' \<longleftrightarrow>
     (vault_ok (aead X) (secrets st) w \<and> responses_ok X req \<longrightarrow>
        (\<exists>user j. authenticated_as X st V req user \<and> b = Json j \<and> pin_issued X st V user w j w'))"

definition provision_promise ::
  "externals \<Rightarrow> app_state \<Rightarrow> (world \<Rightarrow> bool) \<Rightarrow> server_request \<Rightarrow> world \<Rightarrow> body \<Rightarrow> world \<Rightarrow> bool" where
  "provision_promise X st V req w b w' \<longleftrightarrow>
     (vault_ok (aead X) (secrets st) w \<and> responses_ok X req \<longrightarrow>
        (\<exists>admin payload j. authenticated_as X st V req admin \<and> provision_payload req = Inr payload \<and>
           b = Json j \<and> secret_installed X st V admin payload w j w'))"

definition answer_promise ::
  "externals \<Rightarrow> app_state \<Rightarrow> (world \<Rightarrow> bool) \<Rightarrow> route \<Rightarrow> server_request \<Rightarrow> world \<Rightarrow> response option \<Rightarrow> world \<Rightarrow> bool" where
  "answer_promise X st V route req w =
     (case route of
        Healthz \<Rightarrow> (\<lambda>r _. r = Some \<lparr>status = 200, body = Json (healthz st)\<rparr>)
      | RequestPin \<Rightarrow> on_success (pin_promise X st V req w)
      | Provision \<Rightarrow> on_success (provision_promise X st V req w))"

lemma protected_meets:
  assumes "\<And>b w'. status (error_response (governor X) TooManyRequests) = 200 \<Longrightarrow> P b w'"
    and "\<And>user w'. authenticated_as X st V req user \<Longrightarrow> sound_step A self w w' \<Longrightarrow>
      meets (sound_step A self) (answer_for (keycloak X) (introspection st) V) V (h (req\<lparr>extension_user := Some user\<rparr>)) w' (on_success P)"
  shows "meets (sound_step A self) (answer_for (keycloak X) (introspection st) V) V (protected_task X st g h req) w (on_success P)"
  unfolding protected_task_def
proof (rule require_authentication_meets)
  fix user w' assume user: "authenticated_as X st V req user" and w': "sound_step A self w w'"
  show "meets (sound_step A self) (answer_for (keycloak X) (introspection st) V) V
      (audit_rate_limited_task X st (governor_layer_task (governor X) g h) (req\<lparr>extension_user := Some user\<rparr>)) w'
      (on_success P)"
    by (intro audit_layer_meets governor_meets [where user = user])
      (auto intro: assms(1) assms(2) [OF user] sound.R_trans [OF w'])
qed

lemma task_routes_meet:
  "meets (sound_step (aead X) (secrets st)) (answer_for (keycloak X) (introspection st) V) V (task_routes X st g route req) w (answer_promise X st V route req w)"
proof (cases route)
  case Healthz
  then show ?thesis by (simp add: task_routes_def answer_promise_def)
next
  case RequestPin
  have "meets (sound_step (aead X) (secrets st)) (answer_for (keycloak X) (introspection st) V) V
      (protected_task X st g (request_pin_task_service X st) req) w (on_success (pin_promise X st V req w))"
  proof (rule protected_meets)
    fix user w1 assume user: "authenticated_as X st V req user" and w1: "sound_step (aead X) (secrets st) w w1"
    show "meets (sound_step (aead X) (secrets st)) (answer_for (keycloak X) (introspection st) V) V
        (request_pin_task_service X st (req\<lparr>extension_user := Some user\<rparr>)) w1 (on_success (pin_promise X st V req w))"
      by (rule sound.meets_mono [OF pin_service_meets [where user = user]])
        (use user w1 in \<open>auto simp: on_success_def pin_promise_def sound_step_def\<close>,
          blast intro: pin_issued_mono audit.R_refl)
  qed (auto simp: pin_promise_def responses_ok_def)
  with RequestPin show ?thesis by (simp add: task_routes_def answer_promise_def)
next
  case Provision
  have "meets (sound_step (aead X) (secrets st)) (answer_for (keycloak X) (introspection st) V) V
      (protected_task X st g (provision_task_service X st) req) w (on_success (provision_promise X st V req w))"
  proof (rule protected_meets)
    fix user w1 assume user: "authenticated_as X st V req user" and w1: "sound_step (aead X) (secrets st) w w1"
    show "meets (sound_step (aead X) (secrets st)) (answer_for (keycloak X) (introspection st) V) V
        (provision_task_service X st (req\<lparr>extension_user := Some user\<rparr>)) w1 (on_success (provision_promise X st V req w))"
      by (rule sound.meets_mono [OF provision_service_meets [where user = user]])
        (use user w1 in \<open>auto simp: on_success_def provision_promise_def sound_step_def responses_ok_def\<close>,
          blast intro: secret_installed_mono audit.R_refl)
  qed (auto simp: provision_promise_def responses_ok_def)
  with Provision show ?thesis by (simp add: task_routes_def answer_promise_def)
qed

interpretation concurrent: rely_guarantee "sound_step (aead X) (secrets st)" "answer_for (keycloak X) (introspection st) V" V
  "task_routes X st g" "answer_promise X st V" for X st g V
  by unfold_locales (rule task_routes_meet)

lemma serving_steps_sound:
  "(serving_step (task_routes X st g))\<^sup>*\<^sup>* ([], w0) (jobs, w) \<Longrightarrow> sound_step (aead X) (secrets st) w0 w"
  by (auto dest!: serving_run_exists dest: concurrent.serving_sound [where V = "\<lambda>_. True"])

section \<open>Which tasks change the stored secrets\<close>

text \<open>Every step a task can still make, in whatever state, is one of \<open>G\<close>.\<close>

primrec steps_within :: "(world \<Rightarrow> world \<Rightarrow> bool) \<Rightarrow> 'a task \<Rightarrow> bool" where
  "steps_within G (Done a) \<longleftrightarrow> True"
| "steps_within G (Step h g) \<longleftrightarrow> (\<forall>w. case map_prod (steps_within G) id (g w) of (ok, w') \<Rightarrow> ok \<and> G w w')"
| "steps_within G (Publish h key out t) \<longleftrightarrow> steps_within G t"
| "steps_within G (Await h key rx f) \<longleftrightarrow> (\<forall>r. steps_within G (f r))"

lemma within_step: "steps_within G (Step h g) \<Longrightarrow> g w = (t, w') \<Longrightarrow> G w w' \<and> steps_within G t"
  by (auto dest: spec [of _ w])

lemma within_tbind:
  "steps_within G t \<Longrightarrow> (\<And>a. steps_within G (f a)) \<Longrightarrow> steps_within G (tbind t f)"
proof (induction t rule: task_induct)
  case (Step h g)
  have "case map_prod (steps_within G) id (map_prod (\<lambda>t. tbind t f) id (g w)) of (ok, w') \<Rightarrow> ok \<and> G w w'" for w
    using Step.IH [of w] within_step [OF Step.prems(1), of w] Step.prems(2) by (cases "g w") simp
  then show ?case by simp
qed simp_all

lemma within_guarded: "steps_within G t \<Longrightarrow> steps_within G (guarded key t)"
proof (induction t rule: task_induct)
  case (Step h g)
  have "case map_prod (steps_within G) id (map_prod (guarded key) id (g w)) of (ok, w') \<Rightarrow> ok \<and> G w w'" for w
    using Step.IH [of w] within_step [OF Step.prems(1), of w] by (cases "g w") simp
  then show ?case by simp
qed simp_all

lemma within_atomically: "state_io_rel G m \<Longrightarrow> steps_within G (atomically m)"
proof -
  assume m: "state_io_rel G m"
  have "case map_prod (steps_within G) id (map_prod Done id (run_state m w)) of (ok, w') \<Rightarrow> ok \<and> G w w'" for w
    using state_io_relD [OF m, of w] by (cases "run_state m w") auto
  then show ?thesis by (simp add: atomically_def)
qed

lemma within_channel: "steps_within G (send_outcome key out)" "steps_within G (recv_outcome key rx)"
  by (simp_all add: send_outcome_def recv_outcome_def)

lemma same_vault_flights [frame_simps]:
  "state_io_rel (same_vault A self) (join_or_lead k)" "state_io_rel (same_vault A self) (drop_guard k)"
  by (auto intro: same_vault_of_secrets [OF flight_effects(2)] same_vault_of_secrets [OF flight_effects(5)])

lemma same_vault_limiter [frame_simps]: "state_io_rel (same_vault A self) (limiter_check G g k)"
  by (auto simp: state_io_rel_def limiter_check_def same_vault_def vault_ok_def vault_of_def fun_eq_iff)

lemmas within_intros = within_tbind within_guarded within_atomically within_channel frame_simps

lemma within_log_request: "steps_within (same_vault A self) (log_request_task D st s r)"
  unfolding log_request_task_def by (auto intro!: within_intros split: sum.splits)

lemma within_authenticate: "steps_within (same_vault A self) (authenticate_task K c tok)"
  unfolding authenticate_task_def introspect_task_def call_task_def Let_def
  by (auto intro!: within_intros split: option.splits sum.splits)

lemma within_reply_error: "steps_within (same_vault A self) (reply_error_task e)"
  unfolding reply_error_task_def by (auto intro!: within_intros)

lemma within_pin_service:
  "steps_within (same_vault (aead X) (secrets st)) (request_pin_task_service X st req)"
proof -
  have "steps_within (same_vault (aead X) (secrets st)) (respond_task r)" for r
    by (cases r rule: respond.cases) (simp_all add: within_reply_error)
  moreover have "steps_within (same_vault (aead X) (secrets st)) (request_pin_task X st user)" for user
    unfolding request_pin_task_def issue_pin_task_def
    by (auto intro!: within_intros within_log_request split: option.splits sum.splits)
  ultimately show ?thesis
    unfolding request_pin_task_service_def by (auto intro: within_tbind split: option.splits)
qed

lemma within_protected:
  assumes "\<And>req. steps_within (same_vault A self) (h req)"
  shows "steps_within (same_vault A self) (protected_task X st g h req)"
  unfolding protected_task_def require_authentication_task_def audit_rate_limited_task_def
    governor_layer_task_def Let_def
  by (auto intro!: within_intros within_log_request within_authenticate within_reply_error assms
      split: option.splits sum.splits)

lemma within_routes:
  "route \<noteq> Provision \<Longrightarrow> steps_within (same_vault (aead X) (secrets st)) (task_routes X st g route req)"
  by (cases route) (auto simp: task_routes_def intro: within_protected within_pin_service)

lemma within_hand_over: "steps_within G (left j) \<Longrightarrow> steps_within G (left (hand_over key tx out j))"
  by (cases "left j") (simp_all add: hand_over_def)

lemma hand_over_route [simp]:
  "job_route (hand_over key tx out j) = job_route j" "job_request (hand_over key tx out j) = job_request j"
  "arrived (hand_over key tx out j) = arrived j"
  by (simp_all add: hand_over_def split: task.splits)

text \<open>
  A request that does not change the stored secrets, served to its end with nothing in between,
  passes only states with the secrets it found.
\<close>

lemma task_completes_within:
  assumes "left j = t" and "unblocked t w" and "run_state (alone K t) w = (r, w')"
    and "steps_within (same_vault A self) t"
  shows "\<exists>ws. serving_run serve ([j], w) ws ([j\<lparr>left := Done r\<rparr>], w') \<and> (\<forall>v \<in> set ws. same_vault A self w v)"
  using assms
proof (induction t arbitrary: j w rule: task_induct)
  case (Done a)
  then have "j\<lparr>left := Done r\<rparr> = j" "w' = w" by simp_all
  with serving_run.start [of serve "([j], w)"] show ?case
    by (intro exI [of _ "[w]"]) (simp add: contents.R_refl)
next
  case (Step h g)
  obtain t1 w1 where g: "g w = (t1, w1)" by fastforce
  have go: "serving_step serve ([j], w) ([j\<lparr>left := t1\<rparr>], w1)"
    using serving_step.progress [of 0 "[j]" h g w t1 w1] Step.prems(1) g by simp
  have t1: "same_vault A self w w1" "steps_within (same_vault A self) t1"
    using within_step [OF Step.prems(4) g] by simp_all
  obtain ws where ws: "serving_run serve ([j\<lparr>left := t1\<rparr>], w1) ws ([j\<lparr>left := t1\<rparr>\<lparr>left := Done r\<rparr>], w')"
      "\<forall>v \<in> set ws. same_vault A self w1 v"
    using Step.IH [OF g, of "j\<lparr>left := t1\<rparr>" w1] Step.prems t1(2) g by auto
  then show ?case using serving_run_Cons [OF go ws(1)] t1(1) contents.R_refl contents.R_trans
    by (intro exI [of _ "w # ws"]) auto
next
  case (Publish h key out t)
  have go: "serving_step serve ([j], w) ([j\<lparr>left := t\<rparr>], w)"
    using serving_step.publish [of 0 "[j]" h key out t serve w] Publish.prems(1) by simp
  obtain ws where ws: "serving_run serve ([j\<lparr>left := t\<rparr>], w) ws ([j\<lparr>left := t\<rparr>\<lparr>left := Done r\<rparr>], w')"
      "\<forall>v \<in> set ws. same_vault A self w v"
    using Publish.IH [of "j\<lparr>left := t\<rparr>" w] Publish.prems by auto
  then show ?case using serving_run_Cons [OF go ws(1)] contents.R_refl by (intro exI [of _ "w # ws"]) auto
qed simp

text \<open>What a condition on tasks says of all jobs that are not provisioning requests.\<close>

lemma within_update:
  assumes "\<forall>j \<in> set jobs. job_route j \<noteq> Provision \<longrightarrow> steps_within G (left j)"
    and "j \<in> set (jobs[i := (jobs ! i)\<lparr>left := t\<rparr>])" and "job_route j \<noteq> Provision" and "i < length jobs"
    and "steps_within G (left (jobs ! i)) \<Longrightarrow> steps_within G t"
  shows "steps_within G (left j)"
  using assms by (auto dest!: set_update_subset_insert [THEN subsetD])

lemma serving_within:
  assumes "(serving_step (task_routes X st g))\<^sup>*\<^sup>* ([], w0) (jobs, w)"
  shows "\<forall>j \<in> set jobs. job_route j \<noteq> Provision \<longrightarrow> steps_within (same_vault (aead X) (secrets st)) (left j)"
  using assms
proof (induction "(jobs, w)" arbitrary: jobs w rule: rtranclp_induct)
  case (step s)
  obtain jobs0 w1 where s: "s = (jobs0, w1)" by fastforce
  note IH = step.hyps(3) [OF s]
  from step.hyps(2) [unfolded s] show ?case
  proof cases
    case (arrive route req)
    with IH within_routes show ?thesis by auto
  next
    case (progress i h f t)
    with IH within_step [of _ h f] show ?thesis by (auto elim!: within_update)
  next
    case (publish i h key out t)
    let ?jobs = "map (hand_over key (inflight w1 key) out) jobs0"
    have "\<forall>j \<in> set ?jobs. job_route j \<noteq> Provision \<longrightarrow> steps_within (same_vault (aead X) (secrets st)) (left j)"
      using IH by (auto intro: within_hand_over)
    with publish IH show ?thesis by (auto dest!: set_update_subset_insert [THEN subsetD])
  next
    case (closed i h key rx f)
    with IH show ?thesis by (auto elim!: within_update)
  next
    case (disconnect i)
    with IH show ?thesis by (auto dest: in_set_takeD in_set_dropD)
  qed
qed simp

section \<open>Properties\<close>

text \<open>
  C5. Concurrent requests keep the server sound: however requests of any kind arrive, are dropped
  at any point because their clients disconnect, and their steps are interleaved, every stored
  secret stays decryptable, and the audit table and the log only grow. A PIN request that ends
  with 200 was authenticated by an answer to a call made during the run for a token with its
  token's hash, and its PIN was computed, at a time read from the clock while it was served, from
  the secret that was stored for its user in a state which the run passed while it was served; and
  an audit row that says so was written meanwhile (or the log says that one was lost). A
  provisioning request that ends with 200 was made by an administrator authenticated likewise, and
  the secret it reports, in base32 and as a URL, was generated while it was served and stored for
  the subject it names in a state of the run.
\<close>

theorem concurrent_requests_sound:
  assumes "create_task_router X st = Inr serve" and "vault_ok (aead X) (secrets st) w0"
    and "serving_run serve ([], w0) ws (jobs, w)"
  shows "vault_ok (aead X) (secrets st) w \<and> extends w0 w \<and>
    (\<forall>j \<in> set jobs. \<forall>resp. left j = Done (Some resp) \<longrightarrow> status resp = 200 \<longrightarrow>
       responses_ok X (job_request j) \<longrightarrow>
       (job_route j = RequestPin \<longrightarrow>
          (\<exists>user pin_json w1. authenticated_as X st (\<lambda>v. v \<in> set ws) (job_request j) user \<and> body resp = Json pin_json \<and>
             extends w1 w \<and> pin_issued X st (\<lambda>v. v \<in> set ws) user (arrived j) pin_json w1)) \<and>
       (job_route j = Provision \<longrightarrow>
          (\<exists>admin payload made w1. authenticated_as X st (\<lambda>v. v \<in> set ws) (job_request j) admin \<and>
             provision_payload (job_request j) = Inr payload \<and> body resp = Json made \<and>
             extends w1 w \<and> secret_installed X st (\<lambda>v. v \<in> set ws) admin payload (arrived j) made w1)))"
proof -
  obtain g where serve: "serve = task_routes X st g"
    using assms(1) by (auto simp: create_task_router_def)
  note run = assms(3) [unfolded serve]
  have "sound_step (aead X) (secrets st) w0 w" by (rule serving_steps_sound [OF serving_run_steps [OF run]])
  then have state: "vault_ok (aead X) (secrets st) w" "extends w0 w"
    using assms(2) by (simp_all add: sound_step_def)
  have answer: "(job_route j = RequestPin \<longrightarrow>
          (\<exists>user pin_json w1. authenticated_as X st (\<lambda>v. v \<in> set ws) (job_request j) user \<and> body resp = Json pin_json \<and>
             extends w1 w \<and> pin_issued X st (\<lambda>v. v \<in> set ws) user (arrived j) pin_json w1)) \<and>
       (job_route j = Provision \<longrightarrow>
          (\<exists>admin payload made w1. authenticated_as X st (\<lambda>v. v \<in> set ws) (job_request j) admin \<and>
             provision_payload (job_request j) = Inr payload \<and> body resp = Json made \<and>
             extends w1 w \<and> secret_installed X st (\<lambda>v. v \<in> set ws) admin payload (arrived j) made w1))"
    if j: "j \<in> set jobs" "left j = Done (Some resp)" "status resp = 200" "responses_ok X (job_request j)" for j resp
  proof -
    obtain w1 where "sound_step (aead X) (secrets st) w0 (arrived j)" and w1: "sound_step (aead X) (secrets st) w1 w"
      and promise: "answer_promise X st (\<lambda>v. v \<in> set ws) (job_route j) (job_request j) (arrived j) (Some resp) w1"
      using concurrent.finished_keeps_promise [OF run _ j(1,2), of "\<lambda>v. v \<in> set ws"] by blast
    then have "vault_ok (aead X) (secrets st) (arrived j)" "extends w1 w"
      using assms(2) by (simp_all add: sound_step_def)
    with promise j(3,4) show ?thesis
      by (auto simp: answer_promise_def on_success_def pin_promise_def provision_promise_def) blast+
  qed
  with state show ?thesis by blast
qed

lemma demo_tasks:
  assumes "create_router demo_externals demo_state = Inr serve"
  shows "\<exists>tasks. create_task_router demo_externals demo_state = Inr tasks \<and>
    (\<forall>route. alone (keycloak demo_externals) (tasks route demo_request) = serve route demo_request \<and>
       unblocked (tasks route demo_request) demo_world)"
proof -
  have "inflight demo_world = Map.empty" using demo_server_inv by (simp add: server_inv_def)
  with assms show ?thesis
    by (auto simp: create_router_def create_task_router_def task_routes_def alone_protected prompt_services
        intro!: unblocked_protected split: route.splits)
qed

theorem concurrent_requests_sound_witness:
  "\<exists>serve ws jobs w user pin_json w1.
     create_task_router demo_externals demo_state = Inr serve \<and>
     serving_run serve ([], demo_world) ws (jobs, w) \<and> length jobs = 2 \<and>
     pin_issued demo_externals demo_state (\<lambda>v. v \<in> set ws) user demo_world pin_json w1"
proof -
  obtain serve where serve: "create_router demo_externals demo_state = Inr serve"
      "serve RequestPin = protected demo_externals demo_state demo_limits (request_pin_service demo_externals demo_state)"
    using demo_router by blast
  obtain tasks where tasks: "create_task_router demo_externals demo_state = Inr tasks"
      "alone (keycloak demo_externals) (tasks RequestPin demo_request) = serve RequestPin demo_request"
      "unblocked (tasks RequestPin demo_request) demo_world"
    using demo_tasks serve by blast
  let ?job = "\<lparr>job_route = RequestPin, job_request = demo_request, arrived = demo_world,
      left = tasks RequestPin demo_request\<rparr>"
  obtain resp w where run: "run_state (alone (keycloak demo_externals) (tasks RequestPin demo_request)) demo_world = (Some resp, w)"
      "status resp = 200"
    using demo_pin_status tasks(2) serve(2) by metis
  let ?late = "\<lparr>job_route = RequestPin, job_request = demo_request, arrived = w,
      left = tasks RequestPin demo_request\<rparr>"
  have "serving_step tasks ([], demo_world) ([?job], demo_world)"
    using serving_step.arrive [of tasks "[]"] by simp
  moreover have "(serving_step tasks)\<^sup>*\<^sup>* ([?job], demo_world) ([?job\<lparr>left := Done (Some resp)\<rparr>], w)"
    using task_completes [of ?job, OF _ tasks(3) run(1)] by simp
  moreover have "serving_step tasks ([?job\<lparr>left := Done (Some resp)\<rparr>], w)
      ([?job\<lparr>left := Done (Some resp)\<rparr>, ?late], w)"
    using serving_step.arrive [of tasks "[?job\<lparr>left := Done (Some resp)\<rparr>]" w RequestPin demo_request] by simp
  ultimately have "(serving_step tasks)\<^sup>*\<^sup>* ([], demo_world) ([?job\<lparr>left := Done (Some resp)\<rparr>, ?late], w)"
    by (meson converse_rtranclp_into_rtranclp rtranclp.rtrancl_into_rtrancl)
  then obtain ws where reach: "serving_run tasks ([], demo_world) ws ([?job\<lparr>left := Done (Some resp)\<rparr>, ?late], w)"
    using serving_run_exists by blast
  have ok: "vault_ok (aead demo_externals) (secrets demo_state) demo_world"
    using demo_server_inv by (simp add: server_inv_def)
  from concurrent_requests_sound [OF tasks(1) ok reach] run(2) demo_responses_ok
  obtain user pin_json w1 where "pin_issued demo_externals demo_state (\<lambda>v. v \<in> set ws) user demo_world pin_json w1" by auto
  with tasks(1) reach show ?thesis by (intro exI conjI) (assumption | simp)+
qed

lemma changing_step:
  assumes "r\<^sup>*\<^sup>* s s'" and "f s' \<noteq> f s"
  shows "\<exists>a b. r\<^sup>*\<^sup>* s a \<and> r a b \<and> f b \<noteq> f a"
  using assms by (induction rule: rtranclp_induct) (auto, metis)

text \<open>
  C20. While requests are served concurrently and dropped when clients go away, only a step of a provisioning request ever changes
  what is stored: a step that changes some subject's secret, or the set of subjects that have
  one, is a step of a request on the route \<open>Provision\<close>.
\<close>

theorem only_provisioning_changes_secrets:
  assumes "create_task_router X st = Inr serve" and "(serving_step serve)\<^sup>*\<^sup>* ([], w0) (jobs, w)"
    and "serving_step serve (jobs, w) (jobs', w')"
    and "vault_of (aead X) (secrets st) w' \<noteq> vault_of (aead X) (secrets st) w"
  shows "\<exists>i < length jobs. job_route (jobs ! i) = Provision \<and> (\<forall>k < length jobs. k \<noteq> i \<longrightarrow> jobs' ! k = jobs ! k) \<and>
    (\<exists>h f. left (jobs ! i) = Step h f \<and> f w = (left (jobs' ! i), w'))"
proof -
  obtain g where serve: "serve = task_routes X st g" using assms(1) by (auto simp: create_task_router_def)
  from assms(3) show ?thesis
  proof cases
    case (arrive route req)
    with assms(4) show ?thesis by simp
  next
    case (disconnect i)
    with assms(4) release_effects(2) [of "aead X" "secrets st" w "held (left (jobs ! i))"] show ?thesis
      by (simp add: same_vault_def)
  next
    case (progress i h f t)
    have "job_route (jobs ! i) = Provision"
    proof (rule ccontr)
      assume "job_route (jobs ! i) \<noteq> Provision"
      with serving_within [OF assms(2) [unfolded serve]] progress(2)
      have "steps_within (same_vault (aead X) (secrets st)) (left (jobs ! i))" by simp
      with within_step progress(3,4) have "same_vault (aead X) (secrets st) w w'" by metis
      with assms(4) show False by (simp add: same_vault_def)
    qed
    with progress show ?thesis by auto
  qed (use assms(4) in simp_all)
qed

theorem only_provisioning_changes_secrets_witness:
  "\<exists>serve jobs w jobs' w' i. create_task_router demo_externals demo_state = Inr serve \<and>
     (serving_step serve)\<^sup>*\<^sup>* ([], demo_world) (jobs, w) \<and> serving_step serve (jobs, w) (jobs', w') \<and>
     vault_of demo_aead (secrets demo_state) w' \<noteq> vault_of demo_aead (secrets demo_state) w \<and>
     i < length jobs \<and> job_route (jobs ! i) = Provision"
proof -
  let ?vault = "vault_of (aead demo_externals) (secrets demo_state)"
  obtain serve where serve: "create_router demo_externals demo_state = Inr serve"
      "serve Provision = protected demo_externals demo_state demo_limits (provision_service demo_externals demo_state)"
    using demo_router by blast
  obtain tasks where tasks: "create_task_router demo_externals demo_state = Inr tasks"
      "alone (keycloak demo_externals) (tasks Provision demo_request) = serve Provision demo_request"
      "unblocked (tasks Provision demo_request) demo_world"
    using demo_tasks serve by blast
  let ?job = "\<lparr>job_route = Provision, job_request = demo_request, arrived = demo_world,
      left = tasks Provision demo_request\<rparr>"
  obtain resp w where run: "run_state (alone (keycloak demo_externals) (tasks Provision demo_request)) demo_world = (Some resp, w)"
      "status resp = 200"
    using demo_provision_status tasks(2) serve(2) by metis
  have "?vault w \<noteq> ?vault demo_world"
  proof -
    have u: "trim (lit '' u '') = [117]" by (simp add: lit_def trim_def trim_end_by_def is_whitespace_def)
    have "?vault demo_world [117] = Some [7]"
      by (simp add: vault_of_def demo_world_def demo_world_with_def world_init_def row_secret_def decrypt_def
          demo_externals_def demo_state_def demo_aead_def secret_store_new_def crypto_new_def
          demo_config_def NONCE_LEN_def lit_def)
    moreover have "\<exists>t. ?vault w [117] = Some (secret_generate (totp_rs demo_externals) t)"
      by (rule provision_request_cases [OF demo_server_inv demo_responses_ok run(1) [unfolded tasks(2) serve(2)]])
        (use run(2) u in \<open>auto simp: demo_request_def dest: fresh_secret_raw\<close>)
    ultimately show ?thesis by (auto simp: demo_externals_def demo_totp_rs_def dest!: arg_cong [of _ _ "\<lambda>v. map_option length (v [117])"])
  qed
  moreover have "(serving_step tasks)\<^sup>*\<^sup>* ([], demo_world) ([?job\<lparr>left := Done (Some resp)\<rparr>], w)"
    using serving_step.arrive [of tasks "[]" demo_world Provision demo_request]
      task_completes [of ?job, OF _ tasks(3) run(1)] by (simp add: converse_rtranclp_into_rtranclp)
  ultimately obtain jobs v jobs' v' where step: "(serving_step tasks)\<^sup>*\<^sup>* ([], demo_world) (jobs, v)"
      "serving_step tasks (jobs, v) (jobs', v')" "?vault v' \<noteq> ?vault v"
    using changing_step [of "serving_step tasks" _ _ "\<lambda>s. ?vault (snd s)"] by (metis prod.collapse snd_conv)
  moreover have "aead demo_externals = demo_aead" by (simp add: demo_externals_def)
  ultimately show ?thesis
    using only_provisioning_changes_secrets [OF tasks(1) step] step(1,2) tasks(1) by metis
qed

end
