(* ===== verification/Startup.thy ===== *)
theory Startup
  imports Interleaving
begin

text \<open>
  Start-up of the server (\<^verbatim>\<open>totp-server/src/main.rs\<close>, \<^verbatim>\<open>totp-server/src/db.rs\<close>): reading the
  configuration, connecting to the database, running the migrations, building the state and
  the router, binding the address, and the lines logged on the way; and a deployment, in which
  the server is started, serves requests at the same time, stops or crashes at any moment, and is
  started again on the database it left. The migrations change the tables: the script
  \<^verbatim>\<open>totp-server/migrations/0001_init.sql\<close> is a function, and the migrator of \<open>sqlx\<close> that runs it a
  parameter with the hypothesis \<open>migrator_laws\<close>. The set-up of the logging library and its HTTP layer are
  left out.
\<close>

section \<open>Model\<close>

text \<open>What the operating system and the libraries answer during start-up.\<close>

record boot =
  boot_env :: environ
  boot_dotenv :: "environ \<Rightarrow> environ"
  boot_decode :: decoder
  pg_connect :: "nat \<Rightarrow> ustr \<Rightarrow> (ustr, unit) result"
  migrate :: "(nat \<times> (world \<Rightarrow> (ustr, world) result)) list \<Rightarrow> world \<Rightarrow> (ustr, unit) result \<times> world"
  http_build :: "nat \<Rightarrow> (ustr, unit) result"
  tcp_bind :: "ustr \<Rightarrow> (ustr, unit) result"

definition create_pool :: "boot \<Rightarrow> ustr \<Rightarrow> (anyhow, unit) result" where
  "create_pool B url =
     map_err (\<lambda>e. Context (lit ''could not connect to the database'') (Wrapped e)) (pg_connect B 10 url)"

text \<open>
  \<^verbatim>\<open>migrations/0001_init.sql\<close>: creating a relation that exists is an error, and a new table is empty.
\<close>

definition create_relation :: "ustr \<Rightarrow> (world \<Rightarrow> world) \<Rightarrow> world \<Rightarrow> (ustr, world) result" where
  "create_relation name empty_it w =
     (if name \<in> set (relations w) then Inl (lit ''relation '' @ name @ lit '' already exists'')
      else Inr (empty_it (w\<lparr>relations := relations w @ [name]\<rparr>)))"

definition init_sql :: "world \<Rightarrow> (ustr, world) result" where
  "init_sql w =
     and_then (create_relation (lit ''totp_secrets'') (\<lambda>w. w\<lparr>totp_secrets := Map.empty\<rparr>) w) (\<lambda>w.
     and_then (create_relation (lit ''request_log'') (\<lambda>w. w\<lparr>request_log := []\<rparr>) w) (\<lambda>w.
     create_relation (lit ''request_log_subject_time_idx'') id w))"

definition run_migrations :: "boot \<Rightarrow> (anyhow, unit) result server" where
  "run_migrations B = State (\<lambda>w.
     apfst (map_err (\<lambda>e. Context (lit ''database migrations failed'') (Wrapped e)))
       (migrate B [(1, init_sql)] w))"

text \<open>
  What \<open>sqlx\<close> documents of its migrator: scripts that the database records as applied are skipped;
  each of the others runs in a transaction, which also records it and is undone when a statement
  fails; and an error from outside, such as a lost connection, ends it after some of the scripts.
\<close>

fun apply_migrations ::
  "(ustr \<times> nat) option \<Rightarrow> (nat \<times> (world \<Rightarrow> (ustr, world) result)) list \<Rightarrow> world \<Rightarrow> (ustr, unit) result \<times> world" where
  "apply_migrations fault [] w = (case fault of None \<Rightarrow> (Inr (), w) | Some (err, _) \<Rightarrow> (Inl err, w))"
| "apply_migrations fault ((version, script) # rest) w =
     (if version \<in> set (migrations w) then apply_migrations fault rest w
      else case fault of
        Some (err, 0) \<Rightarrow> (Inl err, w)
      | _ \<Rightarrow>
          (case script w of
             Inl err \<Rightarrow> (Inl err, w)
           | Inr w' \<Rightarrow> apply_migrations (map_option (apsnd (\<lambda>n. n - 1)) fault) rest
               (w'\<lparr>migrations := migrations w' @ [version]\<rparr>)))"

definition migrator_laws :: "boot \<Rightarrow> bool" where
  "migrator_laws B \<longleftrightarrow> (\<exists>fault. \<forall>scripts w. migrate B scripts w = apply_migrations fault scripts w)"

definition starting_line :: "ustr \<Rightarrow> log_line" where
  "starting_line issuer =
     \<lparr>level = Info, log_fields = [(lit ''issuer'', Display issuer)], message = lit ''starting the TOTP server''\<rparr>"

definition migrated_line :: log_line where
  "migrated_line = \<lparr>level = Info, log_fields = [], message = lit ''database migrations applied''\<rparr>"

definition listening_line :: "ustr \<Rightarrow> log_line" where
  "listening_line address =
     \<lparr>level = Info, log_fields = [(lit ''address'', Display address)], message = lit ''listening''\<rparr>"

text \<open>The \<open>?\<close> operator on a result that is at hand.\<close>

definition attempt :: "('e, 'a) result \<Rightarrow> ('a \<Rightarrow> ('e, 'b) result server) \<Rightarrow> ('e, 'b) result server" where
  "attempt r f = try_then (State_Monad.return r) f"

text \<open>
  The state and the router of a server that has come up, and the address it listens on. The state
  is built with an empty map of calls in flight, the router with a limiter that has counted
  nothing.
\<close>

definition start_server ::
  "boot \<Rightarrow> externals \<Rightarrow> (anyhow, ustr \<times> app_state \<times> (route \<Rightarrow> task_service)) result server" where
  "start_server B X =
     attempt (from_env (boot_dotenv B) (boot_decode B) (boot_env B)) (\<lambda>c. do {
     emit (starting_line (keycloak_issuer c));
     attempt (create_pool B (database_url c)) (\<lambda>_.
     try_then (run_migrations B) (\<lambda>_. do {
     emit migrated_line;
     let address = server_address c;
     attempt (app_state_new (http_build B) c) (\<lambda>st. do {
     update (\<lambda>w. w\<lparr>inflight := Map.empty\<rparr>);
     attempt (create_task_router X st) (\<lambda>app. do {
     update (\<lambda>w. w\<lparr>limiter_log := []\<rparr>);
     attempt (map_err Wrapped (tcp_bind B address)) (\<lambda>_. do {
     emit (listening_line address);
     State_Monad.return (Inr (address, st, app))
     }) }) }) })) })"

text \<open>
  What a deployment with the encryption key \<open>k\<close> can leave behind: a database without any relation,
  what a failed start leaves, and what a server leaves that was stopped at any moment of its service.
\<close>

definition blank_database :: world where
  "blank_database = world_init\<lparr>migrations := [], relations := []\<rparr>"

inductive deployment :: "externals \<Rightarrow> bytes \<Rightarrow> world \<Rightarrow> bool" for X :: externals and k :: bytes where
  created: "deployment X k blank_database"
| not_started: "deployment X k w \<Longrightarrow> migrator_laws B \<Longrightarrow> run_state (start_server B X) w = (Inl e, w') \<Longrightarrow> deployment X k w'"
| stopped: "deployment X k w \<Longrightarrow> migrator_laws B \<Longrightarrow> run_state (start_server B X) w = (Inr (address, st, serve), w1) \<Longrightarrow>
     encryption_key (app_config st) = k \<Longrightarrow> (serving_step serve)\<^sup>*\<^sup>* ([], w1) (jobs, w') \<Longrightarrow>
     deployment X k w'"

section \<open>Lemmas\<close>

lemma run_attempt [simp]:
  "run_state (attempt r f) w = (case r of Inl e \<Rightarrow> (Inl e, w) | Inr a \<Rightarrow> run_state (f a) w)"
  by (simp add: attempt_def split: sum.splits)

text \<open>
  The schema of a database of this deployment: the migration was applied and its relations exist,
  or nothing has happened yet.
\<close>

definition tables_exist :: "world \<Rightarrow> bool" where
  "tables_exist w \<longleftrightarrow> 1 \<in> set (migrations w) \<and>
     {lit ''totp_secrets'', lit ''request_log'', lit ''request_log_subject_time_idx''} \<subseteq> set (relations w)"

definition schema_ok :: "world \<Rightarrow> bool" where
  "schema_ok w \<longleftrightarrow> tables_exist w \<or>
     migrations w = [] \<and> relations w = [] \<and> totp_secrets w = Map.empty \<and> request_log w = []"

lemma schema_ok_fields [simp]:
  "schema_ok (w\<lparr>trace := l\<rparr>) = schema_ok w" "schema_ok (w\<lparr>inflight := f\<rparr>) = schema_ok w"
  "schema_ok (w\<lparr>limiter_log := L\<rparr>) = schema_ok w" "tables_exist (w\<lparr>trace := l\<rparr>) = tables_exist w"
  "tables_exist (w\<lparr>inflight := f\<rparr>) = tables_exist w" "tables_exist (w\<lparr>limiter_log := L\<rparr>) = tables_exist w"
  by (simp_all add: schema_ok_def tables_exist_def)

lemma tables_exist_extends:
  assumes "tables_exist w" and "extends w w'"
  shows "tables_exist w'"
proof -
  have "set (migrations w) \<subseteq> set (migrations w')" "set (relations w) \<subseteq> set (relations w')"
    using assms(2) by (auto simp: extends_def prefix_def)
  with assms(1) show ?thesis unfolding tables_exist_def by (meson subsetD subset_trans)
qed

lemma init_sql_blank:
  "relations w = [] \<Longrightarrow> init_sql w = Inr (w\<lparr>totp_secrets := Map.empty, request_log := [],
     relations := [lit ''totp_secrets'', lit ''request_log'', lit ''request_log_subject_time_idx'']\<rparr>)"
  by (simp add: init_sql_def create_relation_def lit_def)

text \<open>
  What the migrations do: their result depends on what happens outside only, rows of earlier runs
  stay, and when they succeed the tables are there.
\<close>

lemma run_migrations_blank:
  assumes "schema_ok w" and "\<And>scripts w. migrate B scripts w = apply_migrations fault scripts w"
    and "run_state (run_migrations B) w = (r, w')"
  shows "r = (case fault of None \<Rightarrow> Inr ()
      | Some (err, _) \<Rightarrow> Inl (Context (lit ''database migrations failed'') (Wrapped err)))"
    and "schema_ok w'" and "r = Inr () \<Longrightarrow> tables_exist w'" and "trace w' = trace w"
    and "totp_secrets w' = totp_secrets w" and "request_log w' = request_log w" and "tick w' = tick w"
    and "prefix (migrations w) (migrations w')" and "prefix (relations w) (relations w')"
  using assms(1,3) init_sql_blank [of w]
  by (auto simp: run_migrations_def assms(2) schema_ok_def tables_exist_def
      split: option.splits prod.splits nat.splits if_splits)

lemma run_migrations_keeps:
  assumes "migrator_laws B" and "schema_ok w" and "run_state (run_migrations B) w = (r, w')"
  shows "schema_ok w'" and "r = Inr () \<Longrightarrow> tables_exist w'" and "trace w' = trace w"
    and "totp_secrets w' = totp_secrets w" and "request_log w' = request_log w" and "tick w' = tick w"
    and "prefix (migrations w) (migrations w')" and "prefix (relations w) (relations w')"
proof -
  obtain fault where "\<And>scripts w. migrate B scripts w = apply_migrations fault scripts w"
    using assms(1) by (auto simp: migrator_laws_def)
  note run_migrations_blank [OF assms(2) this assms(3)]
  then show "schema_ok w'" and "r = Inr () \<Longrightarrow> tables_exist w'" and "trace w' = trace w"
    and "totp_secrets w' = totp_secrets w" and "request_log w' = request_log w" and "tick w' = tick w"
    and "prefix (migrations w) (migrations w')" and "prefix (relations w) (relations w')"
    by simp_all
qed

lemma run_migrations_result:
  assumes "migrator_laws B" and "schema_ok u" and "schema_ok v"
  shows "fst (run_state (run_migrations B) u) = fst (run_state (run_migrations B) v)"
proof -
  obtain fault where fault: "\<And>scripts w. migrate B scripts w = apply_migrations fault scripts w"
    using assms(1) by (auto simp: migrator_laws_def)
  show ?thesis
    using run_migrations_blank(1) [OF assms(2) fault] run_migrations_blank(1) [OF assms(3) fault] by (metis prod.collapse)
qed

text \<open>A start-up leaves the rows of both tables as they are and only adds to the log and the schema.\<close>

definition same_tables :: "world \<Rightarrow> world \<Rightarrow> bool" where
  "same_tables w w' \<longleftrightarrow> (schema_ok w \<longrightarrow> schema_ok w' \<and> totp_secrets w' = totp_secrets w \<and> request_log w' = request_log w \<and>
     tick w' = tick w \<and> prefix (trace w) (trace w') \<and> prefix (migrations w) (migrations w') \<and>
     prefix (relations w) (relations w'))"

interpretation tables: effect_relation same_tables
  by unfold_locales (auto simp: same_tables_def)

lemma run_migrations_tables:
  assumes "migrator_laws B"
  shows "state_io_rel same_tables (run_migrations B)"
  unfolding state_io_rel_def
proof
  fix w
  obtain r w' where run: "run_state (run_migrations B) w = (r, w')" by fastforce
  have "same_tables w w'" using run_migrations_keeps [OF assms _ run] by (simp add: same_tables_def)
  then show "same_tables w (snd (run_state (run_migrations B) w))" by (simp add: run)
qed

lemma start_server_tables:
  assumes "migrator_laws B"
  shows "state_io_rel same_tables (start_server B X)"
proof -
  have basic: "state_io_rel same_tables (emit l)" "state_io_rel same_tables (update (\<lambda>w. w\<lparr>inflight := Map.empty\<rparr>))"
      "state_io_rel same_tables (update (\<lambda>w. w\<lparr>limiter_log := []\<rparr>))" for l
    by (auto simp: state_io_rel_def same_tables_def)
  show ?thesis
    unfolding start_server_def attempt_def Let_def
    by (intro tables.keeps_try_then tables.keeps_bind tables.keeps_return basic run_migrations_tables [OF assms])
qed

lemma same_tables_sound:
  "same_tables w w' \<Longrightarrow> schema_ok w \<Longrightarrow> sound_step A self w w' \<and> vault_of A self w' = vault_of A self w"
  by (auto simp: same_tables_def sound_step_def extends_def vault_ok_def vault_of_def fun_eq_iff)

lemma started_from:
  assumes "migrator_laws B" and "schema_ok w" and "run_state (start_server B X) w = (Inr (address, st, serve), w')"
  obtains c g where "from_env (boot_dotenv B) (boot_decode B) (boot_env B) = Inr c"
    and "app_state_new (http_build B) c = Inr st" and "serve = task_routes X st g"
    and "pg_connect B 10 (database_url c) = Inr ()" and "address = server_address c"
    and "tcp_bind B address = Inr ()" and "tables_exist w'" and "inflight w' = Map.empty" and "limiter_log w' = []"
    and "trace w' = trace w @ [starting_line (keycloak_issuer c), migrated_line, listening_line address]"
proof -
  obtain c where c: "from_env (boot_dotenv B) (boot_decode B) (boot_env B) = Inr c"
    using assms(3) by (cases "from_env (boot_dotenv B) (boot_decode B) (boot_env B)") (simp_all add: start_server_def)
  let ?w = "w\<lparr>trace := trace w @ [starting_line (keycloak_issuer c)]\<rparr>"
  obtain r m where m: "run_state (run_migrations B) ?w = (r, m)" by fastforce
  have connected: "pg_connect B 10 (database_url c) = Inr ()" and r: "r = Inr ()"
    using assms(3) m by (auto simp: start_server_def c create_pool_def split: sum.splits)
  have ok: "schema_ok ?w" using assms(2) by simp
  have "tables_exist m" "trace m = trace ?w"
    using run_migrations_keeps [OF assms(1) ok m] r by simp_all
  then show thesis
    using that [OF c] assms(3) m connected r
    by (auto simp: start_server_def c create_pool_def create_task_router_def Let_def split: sum.splits option.splits)
qed

text \<open>How a start ends does not depend on what earlier starts have done to the database.\<close>

lemma start_result:
  assumes "migrator_laws B" and "schema_ok u" and "schema_ok v"
  shows "fst (run_state (start_server B X) u) = fst (run_state (start_server B X) v)"
proof (cases "from_env (boot_dotenv B) (boot_decode B) (boot_env B)")
  case (Inr c)
  let ?l = "[starting_line (keycloak_issuer c)]"
  let ?u = "u\<lparr>trace := trace u @ ?l\<rparr>" and ?v = "v\<lparr>trace := trace v @ ?l\<rparr>"
  have ok: "schema_ok ?u" "schema_ok ?v" using assms(2,3) by simp_all
  obtain r m where m: "run_state (run_migrations B) ?u = (r, m)" by fastforce
  obtain r' n where n: "run_state (run_migrations B) ?v = (r', n)" by fastforce
  have "r' = r" using run_migrations_result [OF assms(1) ok] m n by simp
  with m n Inr show ?thesis by (simp add: start_server_def Let_def split: sum.splits)
qed (simp add: start_server_def)

lemma failed_start_lines:
  assumes "migrator_laws B" and "schema_ok w" and "run_state (start_server B X) w = (Inl e, w1)"
  shows "\<exists>ls. trace w1 = trace w @ ls \<and> (\<forall>address. listening_line address \<notin> set ls) \<and>
    (migrated_line \<in> set ls \<longrightarrow> tables_exist w1)"
proof (cases "from_env (boot_dotenv B) (boot_decode B) (boot_env B)")
  case Inl
  with assms(3) show ?thesis by (simp add: start_server_def)
next
  case (Inr c)
  let ?w = "w\<lparr>trace := trace w @ [starting_line (keycloak_issuer c)]\<rparr>"
  obtain r m where m: "run_state (run_migrations B) ?w = (r, m)" by fastforce
  have ok: "schema_ok ?w" using assms(2) by simp
  have kept: "trace m = trace ?w" "r = Inr () \<Longrightarrow> tables_exist m"
    using run_migrations_keeps [OF assms(1) ok m] by simp_all
  have lines: "listening_line a \<noteq> starting_line i" "listening_line a \<noteq> migrated_line" "migrated_line \<noteq> starting_line i" for a i
    by (simp_all add: listening_line_def starting_line_def migrated_line_def lit_def)
  show ?thesis
    using assms(3) m kept Inr lines
    by (auto simp: start_server_def Let_def split: sum.splits)
qed

lemma app_state_new_built:
  "app_state_new build c = Inr st \<Longrightarrow>
     st = \<lparr>app_config = c, introspection = introspection_client_new c,
       secrets = secret_store_new (crypto_new (encryption_key c))\<rparr>"
  by (simp add: app_state_new_def)

lemma started_store:
  assumes "migrator_laws B" and "schema_ok w" and "run_state (start_server B X) w = (Inr (address, st, serve), w')"
  shows "secrets st = secret_store_new (crypto_new (encryption_key (app_config st)))"
  using assms by (rule started_from) (auto dest!: app_state_new_built)

text \<open>
  Whatever has happened before, the schema is in order and every stored secret can be read under
  the deployment's key.
\<close>

lemma deployment_sound:
  assumes "deployment X k w"
  shows "schema_ok w \<and> (aead_laws (aead X) \<longrightarrow> vault_ok (aead X) (secret_store_new (crypto_new k)) w)"
  using assms
proof (induction rule: deployment.induct)
  case created
  show ?case by (simp add: vault_ok_def blank_database_def world_init_def schema_ok_def)
next
  case (not_started w B e w')
  then have "same_tables w w'" "schema_ok w" using tables.keeps_run [OF start_server_tables [OF not_started.hyps(2)]] by blast+
  with not_started.IH same_tables_sound show ?case unfolding sound_step_def same_tables_def by blast
next
  case (stopped w B address st serve w1 jobs w')
  let ?st = "secret_store_new (crypto_new k)"
  have ok: "schema_ok w" and "same_tables w w1"
    using stopped tables.keeps_run [OF start_server_tables [OF stopped.hyps(2)]] by blast+
  then have first: "sound_step (aead X) ?st w w1" using same_tables_sound by blast
  have st: "secrets st = ?st" using started_store [OF stopped.hyps(2) ok stopped.hyps(3)] stopped.hyps(4) by simp
  obtain g where g: "serve = task_routes X st g" "tables_exist w1"
    using started_from [OF stopped.hyps(2) ok stopped.hyps(3)] by metis
  have "sound_step (aead X) ?st w1 w'"
    using serving_steps_sound [of X st g w1 jobs w'] stopped.hyps(5) st g(1) by simp
  with first stopped.IH tables_exist_extends [OF g(2)] show ?case
    by (auto simp: sound_step_def schema_ok_def)
qed

section \<open>Properties\<close>

text \<open>
  C27. A server that comes up is configured as its environment says and is sound, however often it
  was started, stopped or killed before: its configuration is valid, secrets are encrypted under
  the configured key, tokens are checked at the realm's introspection endpoint for the configured
  audience, and it listens on the configured address after the database was reached and
  migrated, so both tables exist. It begins with no call in flight and a fresh limiter, finds every
  secret and every audit row of the earlier runs under the same key, and adds three lines to the
  log. From then
  on, however requests are interleaved and dropped, every stored secret stays readable, the audit
  table and the log only grow, and every finished request keeps the promise of its route.
\<close>

theorem started_server_is_sound:
  assumes "deployment X (encryption_key (app_config st)) w0" and "aead_laws (aead X)"
    and "migrator_laws B" and "run_state (start_server B X) w0 = (Inr (address, st, serve), w1)"
    and "serving_run serve ([], w1) ws (jobs, w)"
  shows "\<exists>c. from_env (boot_dotenv B) (boot_decode B) (boot_env B) = Inr c \<and> config_valid c \<and>
    app_config st = c \<and> cipher_key (crypto_of (secrets st)) = encryption_key c \<and>
    client_url (introspection st) =
      keycloak_issuer c @ lit ''/protocol/openid-connect/token/introspect'' \<and>
    client_audience (introspection st) = expected_audience c \<and>
    address = host c @ lit '':'' @ show_nat (unat (port c)) \<and>
    pg_connect B 10 (database_url c) = Inr () \<and> tables_exist w1 \<and> tcp_bind B address = Inr () \<and>
    inflight w1 = Map.empty \<and> limiter_log w1 = [] \<and> request_log w1 = request_log w0 \<and>
    vault_of (aead X) (secrets st) w1 = vault_of (aead X) (secrets st) w0 \<and>
    trace w1 = trace w0 @ [starting_line (keycloak_issuer c), migrated_line, listening_line address] \<and>
    vault_ok (aead X) (secrets st) w \<and> extends w0 w \<and>
    (\<forall>j \<in> set jobs. \<forall>r. left j = Done r \<longrightarrow>
       (\<exists>w2. extends w1 (arrived j) \<and> vault_ok (aead X) (secrets st) (arrived j) \<and> extends (arrived j) w2 \<and>
          extends w2 w \<and> answer_promise X st (\<lambda>v. v \<in> set ws) (job_route j) (job_request j) (arrived j) r w2))"
proof -
  let ?S = "sound_step (aead X) (secrets st)"
  note dep = deployment_sound [OF assms(1)]
  then have ok: "schema_ok w0" by blast
  obtain c g where c: "from_env (boot_dotenv B) (boot_decode B) (boot_env B) = Inr c"
      "app_state_new (http_build B) c = Inr st" "serve = task_routes X st g"
      "pg_connect B 10 (database_url c) = Inr ()" "address = server_address c"
      "tcp_bind B address = Inr ()" "tables_exist w1" "inflight w1 = Map.empty" "limiter_log w1 = []"
      "trace w1 = trace w0 @ [starting_line (keycloak_issuer c), migrated_line, listening_line address]"
    by (rule started_from [OF assms(3) ok assms(4)])
  note st = app_state_new_built [OF c(2)]
  have same: "same_tables w0 w1" by (rule tables.keeps_run [OF start_server_tables [OF assms(3)] assms(4)])
  have w1: "?S w0 w1" "vault_of (aead X) (secrets st) w1 = vault_of (aead X) (secrets st) w0"
      "request_log w1 = request_log w0"
    using same_tables_sound [OF same ok] same ok by (simp_all add: same_tables_def)
  have "vault_ok (aead X) (secrets st) w1"
    using dep assms(2) started_store [OF assms(3) ok assms(4)] w1(1) by (simp add: sound_step_def)
  then have reach: "?S w1 v \<Longrightarrow> vault_ok (aead X) (secrets st) v" for v by (simp add: sound_step_def)
  note run = assms(5) [unfolded c(3)]
  have w: "?S w1 w" by (rule serving_steps_sound [OF serving_run_steps [OF run]])
  have "\<exists>w2. extends w1 (arrived j) \<and> vault_ok (aead X) (secrets st) (arrived j) \<and> extends (arrived j) w2 \<and>
      extends w2 w \<and> answer_promise X st (\<lambda>v. v \<in> set ws) (job_route j) (job_request j) (arrived j) r w2"
    if "j \<in> set jobs" "left j = Done r" for j r
    using concurrent.finished_keeps_promise [OF run _ that, of "\<lambda>v. v \<in> set ws"] reach unfolding sound_step_def by blast
  moreover have "extends w0 w" using w w1(1) audit.R_trans unfolding sound_step_def by blast
  moreover have "introspection st = introspection_client_new c" "secrets st = secret_store_new (crypto_new (encryption_key c))"
      "app_config st = c" by (simp_all add: st)
  ultimately show ?thesis
    using c(1,4-10) from_env_valid [OF c(1)] w1(2,3) reach [OF w]
    by (simp add: secret_store_new_def crypto_new_def introspection_client_new_def introspection_url_def
        server_address_def)
qed


definition demo_boot_env :: boot where
  "demo_boot_env =
     \<lparr>boot_env = env_of (lit ''base64:'') base64_encode demo_config, boot_dotenv = id,
      boot_decode = base64_decode, pg_connect = (\<lambda>_ _. Inr ()), migrate = apply_migrations None,
      http_build = (\<lambda>_. Inr ()), tcp_bind = (\<lambda>_. Inr ())\<rparr>"

lemma demo_env_read: "from_env id base64_decode (env_of (lit ''base64:'') base64_encode demo_config) = Inr demo_config"
  by (rule from_env_env_of [OF base64_encode_laws dotenv_keeps_id demo_config_valid]) simp

lemma demo_migrator: "migrator_laws demo_boot_env"
  by (auto simp: migrator_laws_def demo_boot_env_def)

lemma demo_start:
  "\<exists>serve. \<forall>w. schema_ok w \<longrightarrow> (\<exists>w1. run_state (start_server demo_boot_env demo_externals) w =
     (Inr (server_address demo_config, demo_state, serve), w1))"
proof -
  obtain tasks where tasks: "create_task_router demo_externals demo_state = Inr tasks"
    using demo_router demo_tasks by blast
  let ?B = demo_boot_env
  have migrates: "run_state (run_migrations ?B) w = (Inr (), snd (run_state (run_migrations ?B) w))" if "schema_ok w" for w
    using that init_sql_blank [of w] by (auto simp: demo_boot_env_def run_migrations_def schema_ok_def tables_exist_def)
  have fields: "from_env (boot_dotenv ?B) (boot_decode ?B) (boot_env ?B) = Inr demo_config"
      "create_pool ?B url = Inr ()" "app_state_new (http_build ?B) demo_config = Inr demo_state"
      "tcp_bind ?B address = Inr ()" for url address
    using demo_env_read by (simp_all add: demo_boot_env_def create_pool_def app_state_new_def demo_state_def)
  have "\<exists>w1. run_state (start_server ?B demo_externals) w = (Inr (server_address demo_config, demo_state, tasks), w1)"
    if "schema_ok w" for w
  proof -
    let ?w = "w\<lparr>trace := trace w @ [starting_line (keycloak_issuer demo_config)]\<rparr>"
    have ok: "schema_ok ?w" using that by simp
    obtain m where "run_state (run_migrations ?B) ?w = (Inr (), m)" using migrates [OF ok] by blast
    then show ?thesis by (simp add: start_server_def fields tasks Let_def)
  qed
  then show ?thesis by blast
qed

text \<open>A server that was started and stopped before, and that serves a provisioning request.\<close>

theorem started_server_is_sound_witness:
  "\<exists>w0 address st serve w1 j r w. deployment demo_externals (encryption_key demo_config) w0 \<and>
     run_state (start_server demo_boot_env demo_externals) w0 = (Inr (address, st, serve), w1) \<and> length (trace w1) = 6 \<and>
     (serving_step serve)\<^sup>*\<^sup>* ([], w1) ([j], w) \<and> left j = Done r \<and>
     vault_ok (aead demo_externals) (secrets st) w"
proof -
  let ?key = "encryption_key demo_config" and ?S = "start_server demo_boot_env demo_externals"
  obtain serve where start: "\<And>w. schema_ok w \<Longrightarrow> \<exists>w1. run_state ?S w = (Inr (server_address demo_config, demo_state, serve), w1)"
    using demo_start by blast
  have blank: "schema_ok blank_database" by (simp add: schema_ok_def blank_database_def world_init_def)
  obtain w0 where first: "run_state ?S blank_database = (Inr (server_address demo_config, demo_state, serve), w0)"
    using start [OF blank] by blast
  have ok: "schema_ok w0" using tables.keeps_run [OF start_server_tables [OF demo_migrator] first] blank by (simp add: same_tables_def)
  obtain w1 where second: "run_state ?S w0 = (Inr (server_address demo_config, demo_state, serve), w1)"
    using start [OF ok] by blast
  have key: "encryption_key (app_config demo_state) = ?key" by (simp add: demo_state_def)
  have dep: "deployment demo_externals (encryption_key (app_config demo_state)) w0"
    using deployment.stopped [OF deployment.created demo_migrator first refl] by blast
  obtain g where g: "serve = task_routes demo_externals demo_state g" "inflight w1 = Map.empty"
    by (rule started_from [OF demo_migrator ok second])
  let ?t = "serve Provision demo_request"
  let ?j = "\<lparr>job_route = Provision, job_request = demo_request, arrived = w1, left = ?t\<rparr>"
  obtain r w where served: "run_state (alone (keycloak demo_externals) ?t) w1 = (r, w)" by fastforce
  have "(serving_step serve)\<^sup>*\<^sup>* ([?j], w1) ([?j\<lparr>left := Done r\<rparr>], w)"
    using task_completes [of ?j, OF _ _ served] unblocked_routes [OF g(2)] g(1) by simp
  then have run: "(serving_step serve)\<^sup>*\<^sup>* ([], w1) ([?j\<lparr>left := Done r\<rparr>], w)"
    using serving_step.arrive [of serve "[]" w1 Provision demo_request] by (simp add: converse_rtranclp_into_rtranclp)
  then obtain ws where ws: "serving_run serve ([], w1) ws ([?j\<lparr>left := Done r\<rparr>], w)" using serving_run_exists by blast
  have laws: "aead_laws (aead demo_externals)" by (simp add: demo_externals_def demo_aead_laws)
  have "length (trace w0) = 3" by (rule started_from [OF demo_migrator blank first]) (simp add: blank_database_def world_init_def)
  with started_server_is_sound [OF dep laws demo_migrator second ws]
  have "length (trace w1) = 6" "vault_ok (aead demo_externals) (secrets demo_state) w" by auto
  with dep second run show ?thesis unfolding key
    by (intro exI [of _ w0] exI [of _ "server_address demo_config"] exI [of _ demo_state] exI [of _ serve]
        exI [of _ w1] exI [of _ "?j\<lparr>left := Done r\<rparr>"] exI [of _ r] exI [of _ w]) simp
qed

text \<open>
  C28. A start that fails spoils nothing and can be repeated: whatever has happened to the deployment
  before, and wherever the start failed (half way through the migrations too), every row of both
  tables is as it was, no line says that the server listens, and a line says that the migrations
  were applied only if the tables exist. The next start ends as it would have without the failed
  one: with the same error, or as a server with the same configuration, state and routes, on the
  same rows.
\<close>

theorem failed_start_is_clean:
  assumes "deployment X k w" and "migrator_laws B" and "run_state (start_server B X) w = (Inl e, w1)"
  shows "totp_secrets w1 = totp_secrets w \<and> request_log w1 = request_log w \<and>
    (\<exists>ls. trace w1 = trace w @ ls \<and> (\<forall>address. listening_line address \<notin> set ls) \<and>
       (migrated_line \<in> set ls \<longrightarrow> tables_exist w1)) \<and>
    (\<forall>B' r u. migrator_laws B' \<and> run_state (start_server B' X) w = (r, u) \<longrightarrow>
       (\<exists>v. run_state (start_server B' X) w1 = (r, v) \<and> totp_secrets v = totp_secrets u \<and> request_log v = request_log u \<and>
          (\<forall>started. r = Inr started \<longrightarrow>
             tables_exist u \<and> tables_exist v \<and> inflight v = inflight u \<and> limiter_log v = limiter_log u)))"
proof -
  have ok: "schema_ok w" using deployment_sound [OF assms(1)] by blast
  have same: "same_tables w w1" by (rule tables.keeps_run [OF start_server_tables [OF assms(2)] assms(3)])
  then have w1: "schema_ok w1" "totp_secrets w1 = totp_secrets w" "request_log w1 = request_log w"
    using ok by (simp_all add: same_tables_def)
  have "\<exists>v. run_state (start_server B' X) w1 = (r, v) \<and> totp_secrets v = totp_secrets u \<and> request_log v = request_log u \<and>
      (\<forall>started. r = Inr started \<longrightarrow> tables_exist u \<and> tables_exist v \<and> inflight v = inflight u \<and> limiter_log v = limiter_log u)"
    if laws: "migrator_laws B'" and u: "run_state (start_server B' X) w = (r, u)" for B' r u
  proof -
    obtain r' v where v: "run_state (start_server B' X) w1 = (r', v)" by fastforce
    have "r' = r" using start_result [OF laws ok w1(1), of X] u v by simp
    moreover have "same_tables w u" "same_tables w1 v" using tables.keeps_run [OF start_server_tables [OF laws]] u v by blast+
    then have "totp_secrets v = totp_secrets u" "request_log v = request_log u"
      using ok w1 by (simp_all add: same_tables_def)
    moreover have "tables_exist u \<and> tables_exist v \<and> inflight v = inflight u \<and> limiter_log v = limiter_log u"
      if "r = Inr started" for started
    proof (cases started)
      case (fields address st serve)
      with started_from [OF laws ok u [unfolded that fields]] started_from [OF laws w1(1) v [unfolded \<open>r' = r\<close> that fields]]
      show ?thesis by metis
    qed
    ultimately show ?thesis using v by blast
  qed
  note repaired = this
  show ?thesis
    by (intro conjI allI impI) (use w1(2,3) failed_start_lines [OF assms(2) ok assms(3)] repaired in simp_all)
qed

text \<open>The address is taken when the server is started for the first time.\<close>

theorem failed_start_is_clean_witness:
  "\<exists>e w1 u v started. run_state (start_server (demo_boot_env\<lparr>tcp_bind := (\<lambda>_. Inl (lit ''in use''))\<rparr>) demo_externals) blank_database =
       (Inl e, w1) \<and> totp_secrets w1 = Map.empty \<and>
     run_state (start_server demo_boot_env demo_externals) blank_database = (Inr started, u) \<and>
     run_state (start_server demo_boot_env demo_externals) w1 = (Inr started, v) \<and> tables_exist v"
proof -
  let ?B = "demo_boot_env\<lparr>tcp_bind := (\<lambda>_. Inl (lit ''in use''))\<rparr>"
  have blank: "schema_ok blank_database" by (simp add: schema_ok_def blank_database_def world_init_def)
  obtain r w1 where run: "run_state (start_server ?B demo_externals) blank_database = (r, w1)" by fastforce
  have laws: "migrator_laws ?B" using demo_migrator by (simp add: migrator_laws_def)
  have "\<nexists>started. r = Inr started"
  proof
    assume "\<exists>started. r = Inr started"
    then obtain address st serve where "r = Inr (address, st, serve)" by (metis prod.collapse)
    with run have "run_state (start_server ?B demo_externals) blank_database = (Inr (address, st, serve), w1)" by simp
    then show False by (rule started_from [OF laws blank]) simp
  qed
  then obtain e where e: "r = Inl e" by (cases r) auto
  obtain started u where u: "run_state (start_server demo_boot_env demo_externals) blank_database = (Inr started, u)"
    using demo_start blank by blast
  have dep: "deployment demo_externals [] blank_database" by (rule deployment.created)
  note clean = failed_start_is_clean [OF dep laws run [unfolded e]]
  then obtain v where "run_state (start_server demo_boot_env demo_externals) w1 = (Inr started, v)" "tables_exist v"
    using u demo_migrator by blast
  moreover have "totp_secrets w1 = Map.empty" using clean by (simp add: blank_database_def world_init_def)
  ultimately show ?thesis using u run e by blast
qed

end
