(* ===== verification/Single_Flight.thy ===== *)
theory Single_Flight
  imports Introspection
begin

text \<open>
  Concurrent requests in \<open>IntrospectionClient::introspect\<close>
  (\<^verbatim>\<open>totp-server/src/auth/introspection.rs\<close>): requests bearing the same token share one call to
  Keycloak. A task is a request in \<open>introspect\<close>; a step is what it does between two points at
  which other tasks can run: under the mutex, or up to an \<open>await\<close>. A broadcast channel is named
  by the task that created it; its only sender is in the map, so it is open as long as the map
  holds it, and a message reaches those subscribed when it is sent.
\<close>

section \<open>Model\<close>

datatype stage =
  Leading
| LeadReplied nat
| LeadDone introspection_outcome
| LeadSent introspection_outcome
| Following nat
| Received introspection_outcome
| Asking
| Replied nat
| Returned introspection_outcome
| Cancelled

record task =
  task_token :: ustr
  task_since :: nat
  task_joined :: "nat option"
  task_stage :: stage

record flight =
  at_time :: nat
  tasks :: "nat \<rightharpoonup> task"
  channels :: "bytes \<rightharpoonup> nat"

definition flight_init :: flight where
  "flight_init = \<lparr>at_time = 0, tasks = Map.empty, channels = Map.empty\<rparr>"

definition task_key :: "keycloak \<Rightarrow> task \<Rightarrow> bytes" where
  "task_key K T = sha256 K (task_token T)"

fun leads :: "stage \<Rightarrow> bool" where
  "leads Leading = True"
| "leads (LeadReplied _) = True"
| "leads (LeadDone _) = True"
| "leads (LeadSent _) = True"
| "leads _ = False"

fun live :: "stage \<Rightarrow> bool" where
  "live (Returned _) = False"
| "live Cancelled = False"
| "live _ = True"

definition set_stage :: "nat \<Rightarrow> task \<Rightarrow> stage \<Rightarrow> flight \<Rightarrow> flight" where
  "set_stage i T st s = s\<lparr>tasks := (tasks s)(i \<mapsto> T\<lparr>task_stage := st\<rparr>)\<rparr>"

text \<open>A request arrives: under the mutex it subscribes to the leader's channel or becomes leader.\<close>

definition arrive :: "keycloak \<Rightarrow> nat \<Rightarrow> ustr \<Rightarrow> flight \<Rightarrow> flight" where
  "arrive K i tok s =
     (case channels s (sha256 K tok) of
        Some tx \<Rightarrow>
          s\<lparr>tasks := (tasks s)(i \<mapsto>
              \<lparr>task_token = tok, task_since = at_time s, task_joined = Some tx,
               task_stage = Following tx\<rparr>)\<rparr>
      | None \<Rightarrow>
          s\<lparr>channels := (channels s)(sha256 K tok \<mapsto> i),
            tasks := (tasks s)(i \<mapsto>
              \<lparr>task_token = tok, task_since = at_time s, task_joined = None,
               task_stage = Leading\<rparr>)\<rparr>)"

text \<open>\<open>tx.send(outcome)\<close>: into the queue of every subscriber of the channel.\<close>

definition deliver :: "nat \<Rightarrow> introspection_outcome \<Rightarrow> flight \<Rightarrow> flight" where
  "deliver tx out s = s\<lparr>tasks := (\<lambda>j. map_option
     (\<lambda>T. if task_stage T = Following tx then T\<lparr>task_stage := Received out\<rparr> else T) (tasks s j))\<rparr>"

definition remove_key :: "bytes \<Rightarrow> flight \<Rightarrow> flight" where
  "remove_key k s = s\<lparr>channels := (channels s)(k := None)\<rparr>"

text \<open>
  The next step of task \<open>i\<close>, \<open>None\<close> when it has to wait or is over: Keycloak decides on a call's
  reply, the reply arrives and is evaluated, the leader publishes, the leader drops its guard
  and returns, a follower receives or finds its channel closed.
\<close>

definition advance :: "keycloak \<Rightarrow> introspection_client \<Rightarrow> nat \<Rightarrow> flight \<Rightarrow> flight option" where
  "advance K self i s =
     (case tasks s i of
        None \<Rightarrow> None
      | Some T \<Rightarrow>
          (case task_stage T of
             Leading \<Rightarrow> Some (set_stage i T (LeadReplied (at_time s)) s)
           | LeadReplied d \<Rightarrow>
               Some (set_stage i T (LeadDone (call_outcome K self (task_token T) d (at_time s))) s)
           | LeadDone out \<Rightarrow>
               Some (set_stage i T (LeadSent out)
                 (case channels s (task_key K T) of
                    Some tx \<Rightarrow> deliver tx out s | None \<Rightarrow> s))
           | LeadSent out \<Rightarrow> Some (set_stage i T (Returned out) (remove_key (task_key K T) s))
           | Following tx \<Rightarrow>
               if channels s (task_key K T) = Some tx then None else Some (set_stage i T Asking s)
           | Received out \<Rightarrow> Some (set_stage i T (Returned out) s)
           | Asking \<Rightarrow> Some (set_stage i T (Replied (at_time s)) s)
           | Replied d \<Rightarrow>
               Some (set_stage i T (Returned (call_outcome K self (task_token T) d (at_time s))) s)
           | Returned out \<Rightarrow> None
           | Cancelled \<Rightarrow> None))"

text \<open>The request's future is dropped; a leader's guard then removes its key.\<close>

definition cancel :: "keycloak \<Rightarrow> nat \<Rightarrow> task \<Rightarrow> flight \<Rightarrow> flight" where
  "cancel K i T s =
     set_stage i T Cancelled (if leads (task_stage T) then remove_key (task_key K T) s else s)"

inductive flight_step :: "keycloak \<Rightarrow> introspection_client \<Rightarrow> flight \<Rightarrow> flight \<Rightarrow> bool" for K self where
  pass: "flight_step K self s (s\<lparr>at_time := Suc (at_time s)\<rparr>)"
| arrives: "tasks s i = None \<Longrightarrow> flight_step K self s (arrive K i tok s)"
| advances: "advance K self i s = Some s' \<Longrightarrow> flight_step K self s s'"
| cancels: "tasks s i = Some T \<Longrightarrow> live (task_stage T) \<Longrightarrow> flight_step K self s (cancel K i T s)"

inductive flight_reachable :: "keycloak \<Rightarrow> introspection_client \<Rightarrow> flight \<Rightarrow> bool" for K self where
  start: "flight_reachable K self flight_init"
| step: "flight_reachable K self s \<Longrightarrow> flight_step K self s s' \<Longrightarrow> flight_reachable K self s'"

section \<open>Invariant\<close>

text \<open>The map holds exactly the channels of the leaders.\<close>

definition channels_ok :: "keycloak \<Rightarrow> flight \<Rightarrow> bool" where
  "channels_ok K s \<longleftrightarrow>
     (\<forall>k c. channels s k = Some c \<longleftrightarrow>
        (\<exists>T. tasks s c = Some T \<and> task_key K T = k \<and> leads (task_stage T)))"

text \<open>The earliest moment at which the call whose outcome the task may get was started.\<close>

definition asked :: "flight \<Rightarrow> task \<Rightarrow> nat" where
  "asked s T =
     (case task_joined T of
        None \<Rightarrow> task_since T
      | Some c \<Rightarrow> (case tasks s c of None \<Rightarrow> 0 | Some C \<Rightarrow> task_since C))"

text \<open>An outcome of a call for a task with the same token hash, decided at \<open>lo\<close> or later.\<close>

definition genuine ::
  "keycloak \<Rightarrow> introspection_client \<Rightarrow> flight \<Rightarrow> task \<Rightarrow> nat \<Rightarrow> introspection_outcome \<Rightarrow> bool" where
  "genuine K self s T lo out \<longleftrightarrow>
     (\<exists>j C d t. tasks s j = Some C \<and> task_key K C = task_key K T \<and>
        out = call_outcome K self (task_token C) d t \<and> lo \<le> d \<and> d \<le> t \<and> t \<le> at_time s)"

definition joined_ok :: "keycloak \<Rightarrow> flight \<Rightarrow> task \<Rightarrow> bool" where
  "joined_ok K s T \<longleftrightarrow>
     (\<forall>c. task_joined T = Some c \<longrightarrow>
        (\<exists>C. tasks s c = Some C \<and> task_key K C = task_key K T \<and> task_joined C = None \<and>
             task_since C \<le> task_since T))"

fun stage_ok :: "keycloak \<Rightarrow> introspection_client \<Rightarrow> flight \<Rightarrow> task \<Rightarrow> stage \<Rightarrow> bool" where
  "stage_ok K self s T Leading = (task_joined T = None)"
| "stage_ok K self s T (LeadReplied d) =
     (task_joined T = None \<and> task_since T \<le> d \<and> d \<le> at_time s)"
| "stage_ok K self s T (LeadDone out) = (task_joined T = None \<and> genuine K self s T (task_since T) out)"
| "stage_ok K self s T (LeadSent out) = (task_joined T = None \<and> genuine K self s T (task_since T) out)"
| "stage_ok K self s T (Following c) = (task_joined T = Some c)"
| "stage_ok K self s T (Received out) = genuine K self s T (asked s T) out"
| "stage_ok K self s T Asking = True"
| "stage_ok K self s T (Replied d) = (task_since T \<le> d \<and> d \<le> at_time s)"
| "stage_ok K self s T (Returned out) = genuine K self s T (asked s T) out"
| "stage_ok K self s T Cancelled = True"

definition task_ok :: "keycloak \<Rightarrow> introspection_client \<Rightarrow> flight \<Rightarrow> task \<Rightarrow> bool" where
  "task_ok K self s T \<longleftrightarrow>
     task_since T \<le> at_time s \<and> joined_ok K s T \<and> stage_ok K self s T (task_stage T)"

definition tasks_ok :: "keycloak \<Rightarrow> introspection_client \<Rightarrow> flight \<Rightarrow> bool" where
  "tasks_ok K self s \<longleftrightarrow> (\<forall>i T. tasks s i = Some T \<longrightarrow> task_ok K self s T)"

text \<open>Steps keep tasks and what is fixed of them.\<close>

definition same_task :: "task \<Rightarrow> task \<Rightarrow> bool" where
  "same_task T T' \<longleftrightarrow>
     task_token T' = task_token T \<and> task_since T' = task_since T \<and> task_joined T' = task_joined T"

definition grows :: "flight \<Rightarrow> flight \<Rightarrow> bool" where
  "grows s s' \<longleftrightarrow>
     at_time s \<le> at_time s' \<and>
     (\<forall>i T. tasks s i = Some T \<longrightarrow> (\<exists>T'. tasks s' i = Some T' \<and> same_task T T'))"

lemma same_task_refl [simp]: "same_task T T" "same_task T (T\<lparr>task_stage := st\<rparr>)"
  by (simp_all add: same_task_def)

lemma grows_genuine:
  assumes "grows s s'" "same_task T T'" "genuine K self s T lo out"
  shows "genuine K self s' T' lo out"
proof -
  obtain j C d t where *: "tasks s j = Some C" "task_key K C = task_key K T"
      "out = call_outcome K self (task_token C) d t" "lo \<le> d" "d \<le> t" "t \<le> at_time s"
    using assms(3) by (auto simp: genuine_def)
  then obtain C' where "tasks s' j = Some C'" "same_task C C'" using assms(1) by (auto simp: grows_def)
  with * assms(1,2) show ?thesis
    unfolding genuine_def
    by (intro exI [of _ j] exI [of _ C'] exI [of _ d] exI [of _ t])
      (auto simp: grows_def same_task_def task_key_def)
qed

lemma grows_joined:
  assumes "grows s s'" "same_task T T'" "joined_ok K s T"
  shows "joined_ok K s' T'" and "asked s' T' = asked s T"
proof -
  have "\<exists>C. tasks s c = Some C \<and> task_key K C = task_key K T \<and> task_joined C = None \<and>
      task_since C \<le> task_since T \<and> (\<exists>C'. tasks s' c = Some C' \<and> same_task C C')"
    if "task_joined T = Some c" for c
    using assms(1,3) that by (fastforce simp: joined_ok_def grows_def)
  with assms(2) show "joined_ok K s' T'" "asked s' T' = asked s T"
    by (fastforce simp: joined_ok_def asked_def same_task_def task_key_def split: option.splits)+
qed

lemma grows_stage_ok:
  assumes "grows s s'" "same_task T T'" "joined_ok K s T" "stage_ok K self s T st"
  shows "stage_ok K self s' T' st"
proof -
  note g = grows_genuine [OF assms(1,2)] grows_joined(2) [OF assms(1-3)]
  have "at_time s \<le> at_time s'" using assms(1) by (simp add: grows_def)
  with assms(2,4) g show ?thesis by (cases st) (auto simp: same_task_def)
qed

lemma grows_task_ok:
  assumes "grows s s'" "task_ok K self s T" "same_task T T'"
    and "task_stage T' = task_stage T \<or> stage_ok K self s' T' (task_stage T')"
  shows "task_ok K self s' T'"
proof -
  have T: "joined_ok K s T" "stage_ok K self s T (task_stage T)" "task_since T \<le> at_time s"
    using assms(2) by (auto simp: task_ok_def)
  have "task_since T' \<le> at_time s'" using T(3) assms(1,3) by (simp add: grows_def same_task_def)
  moreover have "stage_ok K self s' T' (task_stage T')"
    using assms(4) grows_stage_ok [OF assms(1,3) T(1,2)] by auto
  ultimately show ?thesis
    using grows_joined(1) [OF assms(1,3) T(1)] by (simp add: task_ok_def)
qed

lemma grows_same: "grows s s' \<Longrightarrow> task_ok K self s T \<Longrightarrow> task_ok K self s' T"
  using grows_task_ok [OF _ _ same_task_refl(1) disjI1 [OF refl]] .

lemma tasks_ok_stage:
  "tasks_ok K self s \<Longrightarrow> tasks s i = Some T \<Longrightarrow> stage_ok K self s T (task_stage T)"
  by (simp add: tasks_ok_def task_ok_def)

subsection \<open>The parts of a step\<close>

lemma tasks_set_stage [simp]:
  "tasks (set_stage i T st s) = (tasks s)(i \<mapsto> T\<lparr>task_stage := st\<rparr>)"
  "channels (set_stage i T st s) = channels s"
  "at_time (set_stage i T st s) = at_time s"
  by (simp_all add: set_stage_def)

lemma remove_key_frame [simp]:
  "tasks (remove_key k s) = tasks s" "at_time (remove_key k s) = at_time s"
  "channels (remove_key k s) = (channels s)(k := None)"
  by (simp_all add: remove_key_def)

lemma deliver_frame [simp]:
  "channels (deliver tx out s) = channels s" "at_time (deliver tx out s) = at_time s"
  by (simp_all add: deliver_def)

lemma task_key_stage [simp]: "task_key K (T\<lparr>task_stage := st\<rparr>) = task_key K T"
  by (simp add: task_key_def)

lemma grows_set_stage: "tasks s i = Some T \<Longrightarrow> grows s (set_stage i T st s)"
  by (auto simp: grows_def)

lemma grows_deliver: "grows s (deliver tx out s)"
  by (auto simp: grows_def deliver_def)

lemma stage_ok_channels [simp]:
  "stage_ok K self (s\<lparr>channels := m\<rparr>) T st \<longleftrightarrow> stage_ok K self s T st"
  by (cases st) (simp_all add: genuine_def asked_def split: option.splits)

lemma stage_ok_remove_key [simp]:
  "stage_ok K self (remove_key k s) T st \<longleftrightarrow> stage_ok K self s T st"
  by (simp add: remove_key_def)

lemma tasks_ok_channels: "tasks_ok K self (s\<lparr>channels := m\<rparr>) \<longleftrightarrow> tasks_ok K self s"
  by (simp add: tasks_ok_def task_ok_def joined_ok_def)

lemma tasks_ok_remove_key [simp]: "tasks_ok K self (remove_key k s) \<longleftrightarrow> tasks_ok K self s"
  by (simp add: remove_key_def tasks_ok_channels)

lemma tasks_ok_set_stage:
  assumes ok: "tasks_ok K self s" and T: "tasks s i = Some T"
    and st: "stage_ok K self s T st"
  shows "tasks_ok K self (set_stage i T st s)"
  unfolding tasks_ok_def
proof (intro allI impI)
  fix j U
  assume U: "tasks (set_stage i T st s) j = Some U"
  note g = grows_set_stage [OF T, of st]
  have T_ok: "task_ok K self s T" using ok T by (simp add: tasks_ok_def)
  show "task_ok K self (set_stage i T st s) U"
  proof (cases "j = i")
    case True
    with U have U: "U = T\<lparr>task_stage := st\<rparr>" by simp
    have "stage_ok K self (set_stage i T st s) U st"
      by (rule grows_stage_ok [OF g _ _ st]) (use U T_ok in \<open>auto simp: task_ok_def\<close>)
    then show ?thesis by (intro grows_task_ok [OF g T_ok]) (simp_all add: U)
  next
    case False
    with U ok have "task_ok K self s U" by (simp add: tasks_ok_def)
    then show ?thesis by (rule grows_same [OF g])
  qed
qed

lemma leader_alone:
  "channels_ok K s \<Longrightarrow> tasks s i = Some T \<Longrightarrow> leads (task_stage T) \<Longrightarrow>
     channels s (task_key K T) = Some i"
  by (auto simp: channels_ok_def)

lemma leader_joined:
  "tasks_ok K self s \<Longrightarrow> tasks s i = Some T \<Longrightarrow> leads (task_stage T) \<Longrightarrow> task_joined T = None"
  using tasks_ok_stage [of K self s i T] by (cases "task_stage T") auto

lemma tasks_ok_deliver:
  assumes ok: "tasks_ok K self s" and T: "tasks s i = Some T" and st: "task_stage T = LeadDone out"
  shows "tasks_ok K self (deliver i out s)"
  unfolding tasks_ok_def
proof (intro allI impI)
  fix j U'
  assume "tasks (deliver i out s) j = Some U'"
  then obtain U where U: "tasks s j = Some U"
    and U': "U' = (if task_stage U = Following i then U\<lparr>task_stage := Received out\<rparr> else U)"
    by (auto simp: deliver_def)
  have U_ok: "task_ok K self s U" using ok U by (simp add: tasks_ok_def)
  have "genuine K self s U (asked s U) out" if "task_stage U = Following i"
  proof -
    have "genuine K self s T (task_since T) out" using tasks_ok_stage [OF ok T] st by simp
    moreover have "task_key K T = task_key K U" "asked s U = task_since T"
      using U_ok T that by (auto simp: task_ok_def joined_ok_def asked_def)
    ultimately show ?thesis by (auto simp: genuine_def)
  qed
  then have "stage_ok K self (deliver i out s) U' (task_stage U')" if "task_stage U = Following i"
    using that U' grows_stage_ok [OF grows_deliver, of U U' K s self "Received out" i out] U_ok
    by (auto simp: task_ok_def)
  then show "task_ok K self (deliver i out s) U'"
    by (intro grows_task_ok [OF grows_deliver U_ok]) (auto simp: U')
qed

lemma channels_ok_set_stage:
  assumes "channels_ok K s" "tasks s i = Some T" "leads st = leads (task_stage T)"
  shows "channels_ok K (set_stage i T st s)"
proof -
  have "(\<exists>U. tasks (set_stage i T st s) c = Some U \<and> task_key K U = k \<and> leads (task_stage U)) \<longleftrightarrow>
      (\<exists>U. tasks s c = Some U \<and> task_key K U = k \<and> leads (task_stage U))" for k c
    using assms(2,3) by (cases "c = i") auto
  with assms(1) show ?thesis unfolding channels_ok_def by simp
qed

lemma channels_ok_deliver: "channels_ok K s \<Longrightarrow> channels_ok K (deliver tx out s)"
proof -
  have "(\<exists>U. tasks (deliver tx out s) c = Some U \<and> task_key K U = k \<and> leads (task_stage U)) \<longleftrightarrow>
      (\<exists>U. tasks s c = Some U \<and> task_key K U = k \<and> leads (task_stage U))" for k c
    by (cases "tasks s c") (auto simp: deliver_def)
  then show "channels_ok K s \<Longrightarrow> channels_ok K (deliver tx out s)"
    unfolding channels_ok_def by simp
qed

text \<open>A leader that gives up its place takes its channel away.\<close>

lemma channels_ok_leave:
  assumes ok: "channels_ok K s" and T: "tasks s i = Some T" "leads (task_stage T)" and "\<not> leads st"
  shows "channels_ok K (set_stage i T st (remove_key (task_key K T) s))"
  unfolding channels_ok_def
proof (intro allI)
  fix k c
  have own: "channels s (task_key K T) = Some i" using leader_alone [OF ok T] .
  have eq: "channels s k = Some c \<longleftrightarrow>
      (\<exists>U. tasks s c = Some U \<and> task_key K U = k \<and> leads (task_stage U))"
    using ok by (simp add: channels_ok_def)
  show "channels (set_stage i T st (remove_key (task_key K T) s)) k = Some c \<longleftrightarrow>
      (\<exists>U. tasks (set_stage i T st (remove_key (task_key K T) s)) c = Some U \<and>
         task_key K U = k \<and> leads (task_stage U))"
  proof (cases "c = i")
    case True
    with assms(4) eq T own show ?thesis by auto
  next
    case False
    with eq own show ?thesis by auto
  qed
qed

subsection \<open>Every step keeps the invariant\<close>

definition flight_inv :: "keycloak \<Rightarrow> introspection_client \<Rightarrow> flight \<Rightarrow> bool" where
  "flight_inv K self s \<longleftrightarrow> channels_ok K s \<and> tasks_ok K self s"

lemma flight_inv_init: "flight_inv K self flight_init"
  by (simp add: flight_inv_def flight_init_def channels_ok_def tasks_ok_def)

lemma flight_inv_pass: "flight_inv K self s \<Longrightarrow> flight_inv K self (s\<lparr>at_time := Suc (at_time s)\<rparr>)"
proof -
  have g: "grows s (s\<lparr>at_time := Suc (at_time s)\<rparr>)" by (auto simp: grows_def)
  have "tasks_ok K self (s\<lparr>at_time := Suc (at_time s)\<rparr>)" if "tasks_ok K self s"
    using that by (auto simp: tasks_ok_def intro: grows_same [OF g])
  then show "flight_inv K self s \<Longrightarrow> flight_inv K self (s\<lparr>at_time := Suc (at_time s)\<rparr>)"
    by (simp add: flight_inv_def channels_ok_def)
qed

lemma channels_ok_lead:
  assumes "channels_ok K s" "tasks s i = None"
    and "\<And>c. \<not> (\<exists>T. tasks s c = Some T \<and> task_key K T = k \<and> leads (task_stage T))"
    and "task_key K N = k" "leads (task_stage N)"
  shows "channels_ok K (s\<lparr>channels := (channels s)(k \<mapsto> i), tasks := (tasks s)(i \<mapsto> N)\<rparr>)"
  unfolding channels_ok_def
proof (intro allI)
  fix k' c
  have eq: "channels s k' = Some c \<longleftrightarrow>
      (\<exists>U. tasks s c = Some U \<and> task_key K U = k' \<and> leads (task_stage U))" for k' c
    using assms(1) by (simp add: channels_ok_def)
  show "channels (s\<lparr>channels := (channels s)(k \<mapsto> i), tasks := (tasks s)(i \<mapsto> N)\<rparr>) k' = Some c \<longleftrightarrow>
      (\<exists>T. tasks (s\<lparr>channels := (channels s)(k \<mapsto> i), tasks := (tasks s)(i \<mapsto> N)\<rparr>) c = Some T \<and>
         task_key K T = k' \<and> leads (task_stage T))"
    using eq [of k' c] assms(2-5) by (cases "k' = k"; cases "c = i") auto
qed

lemma channels_ok_follow:
  assumes "channels_ok K s" "tasks s i = None" "\<not> leads (task_stage N)"
  shows "channels_ok K (s\<lparr>tasks := (tasks s)(i \<mapsto> N)\<rparr>)"
proof -
  have "(\<exists>T. ((tasks s)(i \<mapsto> N)) c = Some T \<and> task_key K T = k \<and> leads (task_stage T)) \<longleftrightarrow>
      (\<exists>T. tasks s c = Some T \<and> task_key K T = k \<and> leads (task_stage T))" for k c
    using assms(2,3) by (cases "c = i") auto
  with assms(1) show ?thesis unfolding channels_ok_def by simp
qed

lemma flight_inv_arrive:
  assumes inv: "flight_inv K self s" and new: "tasks s i = None"
  shows "flight_inv K self (arrive K i tok s)"
proof -
  let ?s = "arrive K i tok s"
  have chan: "channels_ok K s" and ok: "tasks_ok K self s" using inv by (simp_all add: flight_inv_def)
  have g: "grows s ?s" using new by (auto simp: grows_def arrive_def split: option.splits)
  have old: "task_ok K self ?s T" if "tasks s j = Some T" for j T
    using grows_same [OF g] ok that by (auto simp: tasks_ok_def)
  have "tasks ?s j = tasks s j" if "j \<noteq> i" for j
    using that by (simp add: arrive_def split: option.splits)
  then have all: "tasks_ok K self ?s" if "\<And>T. tasks ?s i = Some T \<Longrightarrow> task_ok K self ?s T"
    unfolding tasks_ok_def using that old by metis
  show ?thesis
  proof (cases "channels s (sha256 K tok)")
    case None
    have "\<not> (\<exists>T. tasks s c = Some T \<and> task_key K T = sha256 K tok \<and> leads (task_stage T))" for c
      using chan None unfolding channels_ok_def by (metis option.distinct(1))
    then have "channels_ok K ?s"
      using channels_ok_lead [OF chan new, of "sha256 K tok" "\<lparr>task_token = tok,
          task_since = at_time s, task_joined = None, task_stage = Leading\<rparr>"] None
      by (simp add: arrive_def task_key_def)
    moreover have "task_ok K self ?s T" if "tasks ?s i = Some T" for T
      using that None by (auto simp: arrive_def task_ok_def joined_ok_def)
    ultimately show ?thesis using all by (simp add: flight_inv_def)
  next
    case (Some tx)
    then obtain C where C: "tasks s tx = Some C" "task_key K C = sha256 K tok" "leads (task_stage C)"
      using chan by (auto simp: channels_ok_def)
    have "task_joined C = None" "task_since C \<le> at_time s" "tx \<noteq> i"
      using leader_joined [OF ok C(1,3)] ok C(1) new by (auto simp: tasks_ok_def task_ok_def)
    then have "task_ok K self ?s T" if "tasks ?s i = Some T" for T
      using that Some C by (auto simp: arrive_def task_ok_def joined_ok_def task_key_def)
    moreover have "channels_ok K ?s"
      using channels_ok_follow [OF chan new, of "\<lparr>task_token = tok, task_since = at_time s,
          task_joined = Some tx, task_stage = Following tx\<rparr>"] Some
      by (simp add: arrive_def)
    ultimately show ?thesis using all by (simp add: flight_inv_def)
  qed
qed

lemma flight_inv_stage:
  assumes "flight_inv K self s" "tasks s i = Some T" "leads st = leads (task_stage T)"
    "stage_ok K self s T st"
  shows "flight_inv K self (set_stage i T st s)"
  using assms channels_ok_set_stage tasks_ok_set_stage unfolding flight_inv_def by blast

lemma flight_inv_leave:
  assumes "flight_inv K self s" "tasks s i = Some T" "leads (task_stage T)" "\<not> leads st"
    "stage_ok K self s T st"
  shows "flight_inv K self (set_stage i T st (remove_key (task_key K T) s))"
proof -
  have "tasks_ok K self (remove_key (task_key K T) s)" using assms(1) by (simp add: flight_inv_def)
  then show ?thesis
    using channels_ok_leave [of K s i T st] assms tasks_ok_set_stage [of K self "remove_key (task_key K T) s" i T st]
    by (simp add: flight_inv_def)
qed

lemma genuine_call:
  "tasks s i = Some T \<Longrightarrow> lo \<le> d \<Longrightarrow> d \<le> at_time s \<Longrightarrow>
     genuine K self s T lo (call_outcome K self (task_token T) d (at_time s))"
  by (auto simp: genuine_def)

lemma asked_le_since:
  "tasks_ok K self s \<Longrightarrow> tasks s i = Some T \<Longrightarrow> asked s T \<le> task_since T"
  by (fastforce simp: asked_def tasks_ok_def task_ok_def joined_ok_def split: option.splits)

lemma flight_inv_publish:
  assumes inv: "flight_inv K self s" and T: "tasks s i = Some T" "task_stage T = LeadDone out"
  shows "flight_inv K self (set_stage i T (LeadSent out) (deliver i out s))"
proof -
  have inv': "flight_inv K self (deliver i out s)"
    using inv tasks_ok_deliver [OF _ T] channels_ok_deliver by (auto simp: flight_inv_def)
  have T': "tasks (deliver i out s) i = Some T" using T by (simp add: deliver_def)
  have "stage_ok K self (deliver i out s) T (LeadSent out)"
    using tasks_ok_stage [of K self, OF _ T'] inv' T(2) by (simp add: flight_inv_def)
  then show ?thesis using flight_inv_stage [OF inv' T'] T(2) by simp
qed

lemma flight_inv_advance:
  assumes inv: "flight_inv K self s" and step: "advance K self i s = Some s'"
  shows "flight_inv K self s'"
proof -
  obtain T where T: "tasks s i = Some T" using step by (auto simp: advance_def split: option.splits)
  have ok: "tasks_ok K self s" and chan: "channels_ok K s" using inv by (simp_all add: flight_inv_def)
  note st = tasks_ok_stage [OF ok T]
  have since: "asked s T \<le> task_since T" "task_since T \<le> at_time s"
    using asked_le_since [OF ok T] ok T by (auto simp: tasks_ok_def task_ok_def)
  have lead: "asked s T = task_since T" if "task_joined T = None" using that by (simp add: asked_def)
  note rules = flight_inv_stage [OF inv T] flight_inv_leave [OF inv T] flight_inv_publish [OF inv T]
  show ?thesis
  proof (cases "task_stage T")
    case (LeadDone out)
    then have "channels s (task_key K T) = Some i" using leader_alone [OF chan T] by simp
    with LeadDone step T show ?thesis using rules(3) by (auto simp: advance_def)
  qed (use step T st since lead genuine_call [OF T] in
      \<open>auto simp: advance_def split: if_splits intro!: rules(1,2) intro: order_trans\<close>)
qed

lemma flight_inv_cancel:
  assumes "flight_inv K self s" "tasks s i = Some T" "live (task_stage T)"
  shows "flight_inv K self (cancel K i T s)"
  using flight_inv_stage [OF assms(1,2), of Cancelled] flight_inv_leave [OF assms(1,2), of Cancelled]
  by (auto simp: cancel_def)

lemma flight_inv_step: "flight_step K self s s' \<Longrightarrow> flight_inv K self s \<Longrightarrow> flight_inv K self s'"
  by (induction rule: flight_step.induct)
    (auto intro: flight_inv_pass flight_inv_arrive flight_inv_advance flight_inv_cancel)

lemma flight_reachable_inv: "flight_reachable K self s \<Longrightarrow> flight_inv K self s"
  by (induction rule: flight_reachable.induct) (auto intro: flight_inv_init flight_inv_step)

section \<open>Progress\<close>

definition runs :: "keycloak \<Rightarrow> introspection_client \<Rightarrow> flight \<Rightarrow> flight \<Rightarrow> bool" where
  "runs K self s s' \<longleftrightarrow> (\<exists>j. advance K self j s = Some s')"

text \<open>Some run of the tasks at hand, with nobody arriving or cancelled, completes task \<open>i\<close>.\<close>

definition can_return :: "keycloak \<Rightarrow> introspection_client \<Rightarrow> nat \<Rightarrow> flight \<Rightarrow> bool" where
  "can_return K self i s \<longleftrightarrow>
     (\<exists>s' T out. (runs K self)\<^sup>*\<^sup>* s s' \<and> tasks s' i = Some T \<and> task_stage T = Returned out)"

lemma can_return_now: "tasks s i = Some T \<Longrightarrow> task_stage T = Returned out \<Longrightarrow> can_return K self i s"
  unfolding can_return_def by blast

lemma can_return_step: "advance K self j s = Some s' \<Longrightarrow> can_return K self i s' \<Longrightarrow> can_return K self i s"
  unfolding can_return_def by (metis converse_rtranclp_into_rtranclp runs_def)

lemma can_return_Replied:
  "tasks s i = Some T \<Longrightarrow> task_stage T = Replied d \<Longrightarrow> can_return K self i s"
  by (rule can_return_step [of K self i s "set_stage i T
        (Returned (call_outcome K self (task_token T) d (at_time s))) s"])
    (simp_all add: advance_def can_return_now)

lemma can_return_Asking:
  "tasks s i = Some T \<Longrightarrow> task_stage T = Asking \<Longrightarrow> can_return K self i s"
  by (rule can_return_step [of K self i s "set_stage i T (Replied (at_time s)) s"])
    (simp_all add: advance_def can_return_Replied)

lemma can_return_Received:
  "tasks s i = Some T \<Longrightarrow> task_stage T = Received out \<Longrightarrow> can_return K self i s"
  by (rule can_return_step [of K self i s "set_stage i T (Returned out) s"])
    (simp_all add: advance_def can_return_now)

lemma can_return_LeadSent:
  "tasks s i = Some T \<Longrightarrow> task_stage T = LeadSent out \<Longrightarrow> can_return K self i s"
  by (rule can_return_step [of K self i s "set_stage i T (Returned out) (remove_key (task_key K T) s)"])
    (simp_all add: advance_def can_return_now)

lemma can_return_LeadDone:
  "tasks s i = Some T \<Longrightarrow> task_stage T = LeadDone out \<Longrightarrow> can_return K self i s"
  by (rule can_return_step [of K self i s "set_stage i T (LeadSent out)
        (case channels s (task_key K T) of Some tx \<Rightarrow> deliver tx out s | None \<Rightarrow> s)"])
    (simp_all add: advance_def can_return_LeadSent)

lemma can_return_LeadReplied:
  "tasks s i = Some T \<Longrightarrow> task_stage T = LeadReplied d \<Longrightarrow> can_return K self i s"
  by (rule can_return_step [of K self i s "set_stage i T
        (LeadDone (call_outcome K self (task_token T) d (at_time s))) s"])
    (simp_all add: advance_def can_return_LeadDone)

lemma can_return_Leading:
  "tasks s i = Some T \<Longrightarrow> task_stage T = Leading \<Longrightarrow> can_return K self i s"
  by (rule can_return_step [of K self i s "set_stage i T (LeadReplied (at_time s)) s"])
    (simp_all add: advance_def can_return_LeadReplied)

text \<open>A follower whose channel is closed asks for itself.\<close>

lemma can_return_closed:
  "tasks s i = Some T \<Longrightarrow> task_stage T = Following c \<Longrightarrow> channels s (task_key K T) \<noteq> Some c \<Longrightarrow>
     can_return K self i s"
  by (rule can_return_step [of K self i s "set_stage i T Asking s"])
    (simp_all add: advance_def can_return_Asking)

text \<open>A follower waits for a leader; the leader's next steps release it.\<close>

lemma can_return_following_sent:
  assumes "tasks s i = Some T" "task_stage T = Following c" "tasks s c = Some C"
    "task_stage C = LeadSent out" "task_key K C = task_key K T"
  shows "can_return K self i s"
proof (rule can_return_step)
  show "advance K self c s = Some (set_stage c C (Returned out) (remove_key (task_key K C) s))"
    using assms by (simp add: advance_def)
  show "can_return K self i (set_stage c C (Returned out) (remove_key (task_key K C) s))"
    by (rule can_return_closed [of _ _ T c]) (use assms in auto)
qed

lemma can_return_following_done:
  assumes "tasks s i = Some T" "task_stage T = Following c" "tasks s c = Some C"
    "task_stage C = LeadDone out" "channels s (task_key K C) = Some c"
  shows "can_return K self i s"
proof (rule can_return_step)
  show "advance K self c s = Some (set_stage c C (LeadSent out) (deliver c out s))"
    using assms by (simp add: advance_def)
  show "can_return K self i (set_stage c C (LeadSent out) (deliver c out s))"
    by (rule can_return_Received [of _ _ "T\<lparr>task_stage := Received out\<rparr>" out])
      (use assms in \<open>auto simp: deliver_def\<close>)
qed

lemma can_return_following_replied:
  assumes "tasks s i = Some T" "task_stage T = Following c" "tasks s c = Some C"
    "task_stage C = LeadReplied d" "channels s (task_key K C) = Some c"
  shows "can_return K self i s"
proof (rule can_return_step)
  let ?s = "set_stage c C (LeadDone (call_outcome K self (task_token C) d (at_time s))) s"
  show "advance K self c s = Some ?s" using assms by (simp add: advance_def)
  show "can_return K self i ?s"
    by (rule can_return_following_done [of _ _ T c
          "C\<lparr>task_stage := LeadDone (call_outcome K self (task_token C) d (at_time s))\<rparr>"])
      (use assms in auto)
qed

lemma can_return_following_leading:
  assumes "tasks s i = Some T" "task_stage T = Following c" "tasks s c = Some C"
    "task_stage C = Leading" "channels s (task_key K C) = Some c"
  shows "can_return K self i s"
proof (rule can_return_step)
  let ?s = "set_stage c C (LeadReplied (at_time s)) s"
  show "advance K self c s = Some ?s" using assms by (simp add: advance_def)
  show "can_return K self i ?s"
    by (rule can_return_following_replied [of _ _ T c "C\<lparr>task_stage := LeadReplied (at_time s)\<rparr>"])
      (use assms in auto)
qed

lemma can_return_live:
  assumes "flight_inv K self s" "tasks s i = Some T" "live (task_stage T)"
  shows "can_return K self i s"
proof (cases "task_stage T")
  case (Following c)
  show ?thesis
  proof (cases "channels s (task_key K T) = Some c")
    case True
    then obtain C where C: "tasks s c = Some C" "task_key K C = task_key K T" "leads (task_stage C)"
      using assms(1) by (auto simp: flight_inv_def channels_ok_def)
    from C(3) True C assms(2) Following show ?thesis
      by (cases "task_stage C")
        (auto intro: can_return_following_sent can_return_following_done
          can_return_following_replied can_return_following_leading)
  qed (use assms(2) Following can_return_closed in blast)
qed (use assms in \<open>auto intro: can_return_Leading can_return_LeadReplied can_return_LeadDone
      can_return_LeadSent can_return_Received can_return_Asking can_return_Replied\<close>)

section \<open>Schedules\<close>

text \<open>A schedule as a list of actions; \<open>None\<close> when an action is not possible.\<close>

datatype action = Pass | Arrive nat ustr | Advance nat | Cancel nat

fun act :: "keycloak \<Rightarrow> introspection_client \<Rightarrow> action \<Rightarrow> flight \<Rightarrow> flight option" where
  "act K self Pass s = Some (s\<lparr>at_time := Suc (at_time s)\<rparr>)"
| "act K self (Arrive i tok) s = (if tasks s i = None then Some (arrive K i tok s) else None)"
| "act K self (Advance i) s = advance K self i s"
| "act K self (Cancel i) s =
     (case tasks s i of
        None \<Rightarrow> None
      | Some T \<Rightarrow> if live (task_stage T) then Some (cancel K i T s) else None)"

fun schedule :: "keycloak \<Rightarrow> introspection_client \<Rightarrow> action list \<Rightarrow> flight \<Rightarrow> flight option" where
  "schedule K self [] s = Some s"
| "schedule K self (a # as) s = Option.bind (act K self a s) (schedule K self as)"

lemma act_step: "act K self a s = Some s' \<Longrightarrow> flight_step K self s s'"
  by (cases a) (auto intro: flight_step.intros split: if_splits option.splits)

lemma schedule_reachable:
  "schedule K self as s = Some s' \<Longrightarrow> flight_reachable K self s \<Longrightarrow> flight_reachable K self s'"
proof (induction as arbitrary: s)
  case (Cons a as)
  then show ?case by (auto simp: bind_eq_Some_conv dest: act_step flight_reachable.step)
qed simp

text \<open>Two requests for one token; the first becomes leader, the second follows.\<close>

definition demo_client :: introspection_client where
  "demo_client = introspection_client_new demo_config"

definition demo_user :: authenticated_user where
  "demo_user = \<lparr>subject = lit ''u'', realm_roles = [lit ''totp-admin'']\<rparr>"

lemma demo_call: "call_outcome demo_keycloak demo_client [116] 0 0 = Active demo_user"
  by (simp add: call_outcome_def demo_keycloak_def demo_reply_def is_success_def evaluate_def
      demo_client_def introspection_client_new_def demo_config_def demo_user_def)

lemma demo_schedule:
  "\<exists>s T. schedule demo_keycloak demo_client
       [Arrive 1 [116], Arrive 2 [116], Advance 1, Advance 1, Advance 1, Advance 2] flight_init = Some s \<and>
     tasks s 2 = Some T \<and> task_token T = [116] \<and> task_stage T = Returned (Active demo_user) \<and>
     tasks s 1 \<noteq> None \<and> (\<forall>j. tasks s j \<noteq> None \<longrightarrow> task_token (the (tasks s j)) = [116])"
  by (simp add: arrive_def flight_init_def advance_def deliver_def set_stage_def task_key_def demo_call)

lemma demo_waiting:
  "\<exists>s T. schedule demo_keycloak demo_client [Arrive 1 [116], Arrive 2 [116], Cancel 1] flight_init = Some s \<and>
     tasks s 2 = Some T \<and> task_stage T = Following 1"
  by (simp add: arrive_def flight_init_def cancel_def set_stage_def)

lemma demo_leading:
  "\<exists>s. schedule demo_keycloak demo_client [Arrive 1 [116], Arrive 2 [116]] flight_init = Some s \<and>
     channels s (sha256 demo_keycloak [116]) = Some 1"
  by (simp add: arrive_def flight_init_def)

section \<open>Properties\<close>

text \<open>
  C13. At most one call per token leads: in every reachable state, however requests for tokens
  arrive, are answered or are cancelled, the map of introspections in flight holds a token's
  hash exactly when some request leads for it, and then that request is the only one. So an
  entry never outlives its leader.
\<close>

theorem one_leader_per_token:
  assumes "flight_reachable K self s"
  shows "channels s k = Some c \<longleftrightarrow>
    (\<exists>T. tasks s c = Some T \<and> task_key K T = k \<and> leads (task_stage T) \<and>
       (\<forall>j U. tasks s j = Some U \<and> task_key K U = k \<and> leads (task_stage U) \<longrightarrow> j = c))"
proof -
  have ok: "channels s k = Some c \<longleftrightarrow>
      (\<exists>T. tasks s c = Some T \<and> task_key K T = k \<and> leads (task_stage T))" for c
    using flight_reachable_inv [OF assms] by (simp add: flight_inv_def channels_ok_def)
  show ?thesis
  proof (cases "channels s k = Some c")
    case True
    moreover have "j = c" if "tasks s j = Some U \<and> task_key K U = k \<and> leads (task_stage U)" for j U
      using ok [of j] that True by auto
    ultimately show ?thesis using ok [of c] by blast
  next
    case False
    then show ?thesis using ok [of c] by blast
  qed
qed

theorem one_leader_per_token_witness:
  "\<exists>s T. flight_reachable demo_keycloak demo_client s \<and> tasks s 1 = Some T \<and> leads (task_stage T) \<and>
     (\<forall>j U. tasks s j = Some U \<and> task_key demo_keycloak U = sha256 demo_keycloak [116] \<and>
        leads (task_stage U) \<longrightarrow> j = 1)"
proof -
  obtain s where s: "schedule demo_keycloak demo_client [Arrive 1 [116], Arrive 2 [116]] flight_init = Some s"
      "channels s (sha256 demo_keycloak [116]) = Some 1"
    using demo_leading by blast
  have "flight_reachable demo_keycloak demo_client s"
    using schedule_reachable [OF s(1) flight_reachable.start] .
  with one_leader_per_token [OF this, of "sha256 demo_keycloak [116]" 1] s(2) show ?thesis by blast
qed

text \<open>
  C12. What a request gets is Keycloak's answer for its own token: if no two tokens in play have
  the same hash, the outcome a request returns is that of a call for its token which Keycloak
  decided no earlier than the request arrived or, when it joined a call in flight, no earlier
  than the request it joined arrived.
\<close>

theorem outcome_is_an_answer_for_the_token:
  assumes "flight_reachable K self s"
    and "inj_on (sha256 K) {task_token U |U j. tasks s j = Some U}"
    and "tasks s i = Some T" and "task_stage T = Returned out"
  shows "\<exists>d t. out = call_outcome K self (task_token T) d t \<and> d \<le> t \<and> t \<le> at_time s \<and>
    (case task_joined T of
       None \<Rightarrow> task_since T \<le> d
     | Some c \<Rightarrow> (\<exists>C. tasks s c = Some C \<and> task_token C = task_token T \<and>
                     task_since C \<le> d \<and> task_since C \<le> task_since T))"
proof -
  have same: "task_token U = task_token V"
    if "tasks s j = Some U" "tasks s k = Some V" "task_key K U = task_key K V" for j k U V
    using inj_onD [OF assms(2)] that unfolding task_key_def by blast
  have ok: "tasks_ok K self s" using flight_reachable_inv [OF assms(1)] by (simp add: flight_inv_def)
  have "genuine K self s T (asked s T) out" using tasks_ok_stage [OF ok assms(3)] assms(4) by simp
  then obtain d t where call: "out = call_outcome K self (task_token T) d t" "asked s T \<le> d" "d \<le> t"
      "t \<le> at_time s"
    unfolding genuine_def using same [OF _ assms(3)] by metis
  have "joined_ok K s T" using ok assms(3) by (simp add: tasks_ok_def task_ok_def)
  then have "case task_joined T of None \<Rightarrow> task_since T \<le> d
     | Some c \<Rightarrow> (\<exists>C. tasks s c = Some C \<and> task_token C = task_token T \<and>
                     task_since C \<le> d \<and> task_since C \<le> task_since T)"
    using call(2) same [OF _ assms(3)]
    by (fastforce simp: asked_def joined_ok_def split: option.splits)
  with call show ?thesis by blast
qed

theorem outcome_is_an_answer_for_the_token_witness:
  "\<exists>s d t. flight_reachable demo_keycloak demo_client s \<and>
     Active demo_user = call_outcome demo_keycloak demo_client [116] d t \<and> d \<le> t \<and> t \<le> at_time s"
proof -
  obtain s T where s: "schedule demo_keycloak demo_client
       [Arrive 1 [116], Arrive 2 [116], Advance 1, Advance 1, Advance 1, Advance 2] flight_init = Some s"
      "tasks s 2 = Some T" "task_token T = [116]" "task_stage T = Returned (Active demo_user)"
      "\<forall>j. tasks s j \<noteq> None \<longrightarrow> task_token (the (tasks s j)) = [116]"
    using demo_schedule by blast
  have r: "flight_reachable demo_keycloak demo_client s"
    using schedule_reachable [OF s(1) flight_reachable.start] .
  have "inj_on (sha256 demo_keycloak) {task_token U |U j. tasks s j = Some U}"
    by (rule inj_on_subset [of _ "{[116]}"]) (use s(5) in force)+
  from outcome_is_an_answer_for_the_token [OF r this s(2,4)] r s(3) show ?thesis by metis
qed

text \<open>
  No request is left hanging: in every reachable state, every request that has neither
  returned nor been cancelled can be brought to its result by steps of the requests at hand
  alone. This holds for a follower too, whether its leader is still at work, has published
  before the follower subscribed, or was cancelled.
\<close>

theorem no_request_is_stuck:
  assumes "flight_reachable K self s" and "tasks s i = Some T" and "live (task_stage T)"
  shows "\<exists>s' T' out. (runs K self)\<^sup>*\<^sup>* s s' \<and> tasks s' i = Some T' \<and> task_stage T' = Returned out"
  using can_return_live [OF flight_reachable_inv [OF assms(1)] assms(2,3)]
  by (simp add: can_return_def)

theorem no_request_is_stuck_witness:
  "\<exists>s T s' T' out. tasks s 2 = Some T \<and> task_stage T = Following 1 \<and>
     (runs demo_keycloak demo_client)\<^sup>*\<^sup>* s s' \<and> tasks s' 2 = Some T' \<and> task_stage T' = Returned out"
proof -
  obtain s T where s: "schedule demo_keycloak demo_client [Arrive 1 [116], Arrive 2 [116], Cancel 1] flight_init = Some s"
      "tasks s 2 = Some T" "task_stage T = Following 1"
    using demo_waiting by blast
  have "flight_reachable demo_keycloak demo_client s"
    using schedule_reachable [OF s(1) flight_reachable.start] .
  from no_request_is_stuck [OF this s(2)] s show ?thesis by (metis live.simps(7))
qed

text \<open>A Keycloak that revokes the token at time 5.\<close>

definition revoking_keycloak :: keycloak where
  "revoking_keycloak = demo_keycloak\<lparr>http_send := (\<lambda>t req.
     if t < 5 then Inr demo_reply
     else Inr (demo_reply\<lparr>reply_json := Inr \<lparr>active = False, sub = None, aud = None,
                                            expires = None, realm = None\<rparr>\<rparr>))\<rparr>"

lemma revoked_before: "t < 1000 \<Longrightarrow> call_outcome revoking_keycloak demo_client [116] 0 t = Active demo_user"
  by (simp add: call_outcome_def revoking_keycloak_def demo_keycloak_def demo_reply_def is_success_def
      evaluate_def demo_client_def introspection_client_new_def demo_config_def demo_user_def)

lemma revoked_after: "5 \<le> d \<Longrightarrow> call_outcome revoking_keycloak demo_client tok d t = Inactive"
  by (simp add: call_outcome_def revoking_keycloak_def demo_reply_def is_success_def evaluate_def)

text \<open>
  C37. Revocation does not always take effect on the next request: there is a run in which a
  request that arrives after a token was revoked, so that Keycloak would answer every call made
  from its arrival on with inactive, is authenticated, because it joins a call which Keycloak
  answered before the revocation and whose reply is still on its way.
\<close>

theorem joined_call_may_predate_revocation:
  "\<exists>K self s i T u. flight_reachable K self s \<and> tasks s i = Some T \<and>
     (\<forall>d t. call_outcome K self (task_token T) (task_since T + d) t = Inactive) \<and>
     task_stage T = Returned (Active u)"
proof -
  have "\<exists>s T. schedule revoking_keycloak demo_client
       [Arrive 1 [116], Advance 1, Pass, Pass, Pass, Pass, Pass, Arrive 2 [116], Advance 1, Advance 1, Advance 2]
       flight_init = Some s \<and> tasks s 2 = Some T \<and> task_token T = [116] \<and> 5 \<le> task_since T \<and>
     task_stage T = Returned (Active demo_user)"
    by (simp add: arrive_def flight_init_def advance_def deliver_def set_stage_def task_key_def
        revoked_before)
  then show ?thesis
    using schedule_reachable [OF _ flight_reachable.start] revoked_after by (metis trans_le_add1)
qed

end
