(* ===== verification/Server_Tests.thy ===== *)
theory Server_Tests
  imports Middleware Rfc6238
begin

text \<open>
  The unit tests of \<^verbatim>\<open>totp-server/src\<close> and those introspection tests of
  \<^verbatim>\<open>totp-server/tests/introspection.rs\<close> that look at one answer, as functions that say whether the
  test passes: an assertion that fails and a panic are \<open>False\<close>. Third-party code and what a test reads from outside are
  arguments.
\<close>

section \<open>Tests of \<open>crypto.rs\<close>\<close>

definition test_crypto :: crypto where
  "test_crypto = crypto_new (replicate 32 42)"

definition test_plaintext :: bytes where
  "test_plaintext = map of_char ''JBSWY3DPEHPK3PXP''"

text \<open>\<open>encrypt(..).unwrap()\<close> in a test: what follows sees the ciphertext and the nonce.\<close>

definition encrypting :: "aead \<Rightarrow> crypto \<Rightarrow> bytes \<Rightarrow> (bytes \<Rightarrow> bytes \<Rightarrow> bool server) \<Rightarrow> bool server" where
  "encrypting A self plaintext rest = do {
     r \<leftarrow> encrypt A self plaintext;
     case r of
       Inl e \<Rightarrow> State_Monad.return False
     | Inr (ciphertext, n) \<Rightarrow> rest ciphertext n
   }"

definition is_err :: "('e, 'a) result \<Rightarrow> bool" where
  "is_err r \<longleftrightarrow> (case r of Inl _ \<Rightarrow> True | Inr _ \<Rightarrow> False)"

definition roundtrips_a_secret :: "aead \<Rightarrow> bool server" where
  "roundtrips_a_secret A =
     encrypting A test_crypto test_plaintext (\<lambda>ciphertext n. State_Monad.return
       (ciphertext \<noteq> test_plaintext \<and> decrypt A test_crypto ciphertext n = Inr test_plaintext))"

definition draws_a_fresh_nonce_for_every_call :: "aead \<Rightarrow> bool server" where
  "draws_a_fresh_nonce_for_every_call A =
     encrypting A test_crypto (map of_char ''same input'') (\<lambda>first_ct first_nonce.
     encrypting A test_crypto (map of_char ''same input'') (\<lambda>second_ct second_nonce.
       State_Monad.return (first_nonce \<noteq> second_nonce \<and> first_ct \<noteq> second_ct)))"

text \<open>\<open>ciphertext[0] ^= 0xff\<close> panics on an empty ciphertext.\<close>

definition rejects_tampered_ciphertext :: "aead \<Rightarrow> bool server" where
  "rejects_tampered_ciphertext A =
     encrypting A test_crypto test_plaintext (\<lambda>ciphertext n. State_Monad.return
       (case ciphertext of
          [] \<Rightarrow> False
        | c # cs \<Rightarrow> is_err (decrypt A test_crypto ((c XOR 0xff) # cs) n)))"

definition rejects_a_different_key :: "aead \<Rightarrow> bool server" where
  "rejects_a_different_key A =
     encrypting A test_crypto test_plaintext (\<lambda>ciphertext n. State_Monad.return
       (is_err (decrypt A (crypto_new (replicate 32 43)) ciphertext n)))"

definition rejects_a_nonce_of_the_wrong_length :: "aead \<Rightarrow> bool server" where
  "rejects_a_nonce_of_the_wrong_length A =
     encrypting A test_crypto (map of_char ''secret'') (\<lambda>ciphertext _. State_Monad.return
       (is_err (decrypt A test_crypto ciphertext (replicate 4 0))))"

definition crypto_tests :: "aead \<Rightarrow> bool server list" where
  "crypto_tests A =
     [roundtrips_a_secret A, draws_a_fresh_nonce_for_every_call A, rejects_tampered_ciphertext A,
      rejects_a_different_key A, rejects_a_nonce_of_the_wrong_length A]"

section \<open>Tests of \<open>config.rs\<close>\<close>

fun str_contains :: "ustr \<Rightarrow> ustr \<Rightarrow> bool" where
  "str_contains needle [] \<longleftrightarrow> needle = []"
| "str_contains needle (c # cs) \<longleftrightarrow> strip_prefix needle (c # cs) \<noteq> None \<or> str_contains needle cs"

fun anyhow_to_string :: "anyhow \<Rightarrow> ustr" where
  "anyhow_to_string (Msg m) = m"
| "anyhow_to_string (Wrapped m) = m"
| "anyhow_to_string (Context c e) = c"

definition accepts_a_32_byte_key_with_and_without_prefix :: "(bytes \<Rightarrow> ustr) \<Rightarrow> decoder \<Rightarrow> bool" where
  "accepts_a_32_byte_key_with_and_without_prefix encode decode \<longleftrightarrow>
     (let k = encode (replicate 32 7) in
      parse_encryption_key decode k = Inr (replicate 32 7) \<and>
      parse_encryption_key decode (lit ''base64:'' @ k) = Inr (replicate 32 7))"

definition rejects_a_key_of_the_wrong_length :: "(bytes \<Rightarrow> ustr) \<Rightarrow> decoder \<Rightarrow> bool" where
  "rejects_a_key_of_the_wrong_length encode decode \<longleftrightarrow>
     (case parse_encryption_key decode (encode (replicate 16 7)) of
        Inl err \<Rightarrow> str_contains (lit ''32 bytes'') (anyhow_to_string err)
      | Inr _ \<Rightarrow> False)"

definition rejects_a_key_that_is_not_base64 :: "decoder \<Rightarrow> bool" where
  "rejects_a_key_that_is_not_base64 decode \<longleftrightarrow>
     is_err (parse_encryption_key decode (lit ''not base64!!''))"

definition config_tests :: "(bytes \<Rightarrow> ustr) \<Rightarrow> decoder \<Rightarrow> bool list" where
  "config_tests encode decode =
     [accepts_a_32_byte_key_with_and_without_prefix encode decode,
      rejects_a_key_of_the_wrong_length encode decode, rejects_a_key_that_is_not_base64 decode]"

section \<open>Tests of \<open>totp/mod.rs\<close>\<close>

text \<open>\<open>generate_at(secret, now).unwrap()\<close>; \<open>None\<close> is the panic.\<close>

definition generated :: "totp_rs \<Rightarrow> bytes \<Rightarrow> u64 \<Rightarrow> generated_pin option" where
  "generated T sec t = (case generate_at T sec t of Inl _ \<Rightarrow> None | Inr g \<Rightarrow> Some g)"

definition server_matches_the_rfc_6238_test_vector :: "totp_rs \<Rightarrow> bool" where
  "server_matches_the_rfc_6238_test_vector T \<longleftrightarrow>
     map_option pin (generated T rfc_secret 59) = Some (lit ''287082'')"

definition matches_a_later_rfc_6238_test_vector :: "totp_rs \<Rightarrow> bool" where
  "matches_a_later_rfc_6238_test_vector T \<longleftrightarrow>
     map_option pin (generated T rfc_secret 1111111109) = Some (lit ''081804'')"

definition reports_the_time_left_in_the_current_step :: "totp_rs \<Rightarrow> bool" where
  "reports_the_time_left_in_the_current_step T \<longleftrightarrow>
     map_option valid_for_seconds (generated T rfc_secret 59) = Some 1 \<and>
     map_option valid_for_seconds (generated T rfc_secret 60) = Some 30 \<and>
     map_option valid_for_seconds (generated T rfc_secret 75) = Some 15"

definition holds_the_pin_steady_within_a_step_and_changes_at_the_boundary :: "totp_rs \<Rightarrow> bool" where
  "holds_the_pin_steady_within_a_step_and_changes_at_the_boundary T \<longleftrightarrow>
     (case (generated T rfc_secret 60, generated T rfc_secret 89, generated T rfc_secret 90) of
        (Some start, Some later, Some after) \<Rightarrow> pin later = pin start \<and> pin after \<noteq> pin start
      | _ \<Rightarrow> False)"

definition always_pads_the_pin_to_six_digits :: "totp_rs \<Rightarrow> bool" where
  "always_pads_the_pin_to_six_digits T \<longleftrightarrow>
     list_all (\<lambda>t. map_option (length \<circ> pin) (generated T rfc_secret (of_nat t * 30)) =
                   Some (unat SERVER_DIGITS)) [0..<500]"

definition provisions_a_usable_secret_and_url ::
  "totp_rs \<Rightarrow> (ustr \<Rightarrow> bytes option) \<Rightarrow> (nat \<Rightarrow> int) \<Rightarrow> bool server" where
  "provisions_a_usable_secret_and_url T try_from_base32 clk = do {
     r \<leftarrow> totp_provision T (lit ''testuser'');
     case r of
       Inl _ \<Rightarrow> State_Monad.return False
     | Inr p \<Rightarrow> do {
         g \<leftarrow> draw (\<lambda>t. generate T (clk t) (raw p));
         State_Monad.return
           (secret_base32 p \<noteq> [] \<and>
            strip_prefix (lit ''otpauth://totp/urheilulaatikko:testuser?'') (otpauth_url p) \<noteq> None \<and>
            str_contains (lit ''issuer=urheilulaatikko'') (otpauth_url p) \<and>
            \<not> str_contains (lit ''algorithm='') (otpauth_url p) \<and>
            try_from_base32 (secret_base32 p) = Some (raw p) \<and>
            (case g of Some (Inr q) \<Rightarrow> length (pin q) = unat SERVER_DIGITS | _ \<Rightarrow> False))
       }
   }"

definition different_secrets_give_different_pins :: "totp_rs \<Rightarrow> bool" where
  "different_secrets_give_different_pins T \<longleftrightarrow>
     (case (generated T rfc_secret 59, generated T other_secret 59) of
        (Some a, Some b) \<Rightarrow> pin a \<noteq> pin b
      | _ \<Rightarrow> False)"

definition generate_tests :: "totp_rs \<Rightarrow> bool list" where
  "generate_tests T =
     [server_matches_the_rfc_6238_test_vector T, matches_a_later_rfc_6238_test_vector T,
      reports_the_time_left_in_the_current_step T,
      holds_the_pin_steady_within_a_step_and_changes_at_the_boundary T,
      always_pads_the_pin_to_six_digits T, different_secrets_give_different_pins T]"

section \<open>Tests of \<open>rate_limit.rs\<close>\<close>

definition empty_request :: server_request where
  "empty_request =
     \<lparr>authorization = None, extension_user = None,
      provision_payload = Inl \<lparr>status = 415, body = Raw []\<rparr>\<rparr>"

definition extracts_the_subject_set_by_the_auth_middleware :: bool where
  "extracts_the_subject_set_by_the_auth_middleware \<longleftrightarrow>
     extract_key (empty_request\<lparr>extension_user := Some \<lparr>subject = lit ''user-1'', realm_roles = []\<rparr>\<rparr>) =
       Inr (lit ''user-1'')"

definition fails_when_the_request_was_not_authenticated :: bool where
  "fails_when_the_request_was_not_authenticated \<longleftrightarrow> extract_key empty_request = Inl UnableToExtractKey"

definition rate_limit_tests :: "bool list" where
  "rate_limit_tests =
     [extracts_the_subject_set_by_the_auth_middleware, fails_when_the_request_was_not_authenticated]"

section \<open>Tests of \<open>auth/middleware.rs\<close>\<close>

definition request_with_auth :: "ustr \<Rightarrow> server_request" where
  "request_with_auth v = empty_request\<lparr>authorization := Some (Inr v)\<rparr>"

definition extracts_a_bearer_token :: bool where
  "extracts_a_bearer_token \<longleftrightarrow>
     bearer_token (request_with_auth (lit ''Bearer abc.def.ghi'')) = Some (lit ''abc.def.ghi'')"

definition accepts_any_casing_of_the_scheme :: bool where
  "accepts_any_casing_of_the_scheme \<longleftrightarrow>
     bearer_token (request_with_auth (lit ''bEaReR abc'')) = Some (lit ''abc'')"

definition rejects_other_schemes_and_empty_tokens :: bool where
  "rejects_other_schemes_and_empty_tokens \<longleftrightarrow>
     bearer_token (request_with_auth (lit ''Basic abc'')) = None \<and>
     bearer_token (request_with_auth (lit ''Bearer   '')) = None \<and>
     bearer_token (request_with_auth (lit ''abc'')) = None"

definition rejects_a_request_without_the_header :: bool where
  "rejects_a_request_without_the_header \<longleftrightarrow> bearer_token empty_request = None"

definition middleware_tests :: "bool list" where
  "middleware_tests =
     [extracts_a_bearer_token, accepts_any_casing_of_the_scheme,
      rejects_other_schemes_and_empty_tokens, rejects_a_request_without_the_header]"

section \<open>Tests of \<open>auth/introspection.rs\<close>\<close>

definition test_client :: "ustr \<Rightarrow> introspection_client" where
  "test_client audience =
     \<lparr>client_url = lit ''http://unused'', client_id = lit ''totp-server'',
      client_secret = lit ''secret'', client_audience = audience\<rparr>"

definition test_response :: "bool \<Rightarrow> audience option \<Rightarrow> int option \<Rightarrow> introspection_response" where
  "test_response act a e =
     \<lparr>active = act, sub = Some (lit ''user-1''), aud = a, expires = e, realm = None\<rparr>"

fun is_active :: "introspection_outcome \<Rightarrow> bool" where
  "is_active (Active user) = True"
| "is_active outcome = False"

definition evaluated :: "int \<Rightarrow> bool \<Rightarrow> audience option \<Rightarrow> int option \<Rightarrow> introspection_outcome" where
  "evaluated t act a e = evaluate (test_client (lit ''totp-server'')) t (test_response act a e)"

definition accepts_an_audience_given_as_a_bare_string :: "int \<Rightarrow> bool" where
  "accepts_an_audience_given_as_a_bare_string t \<longleftrightarrow>
     is_active (evaluated t True (Some (One (lit ''totp-server''))) None)"

definition accepts_an_audience_given_as_a_list :: "int \<Rightarrow> bool" where
  "accepts_an_audience_given_as_a_list t \<longleftrightarrow>
     is_active (evaluated t True (Some (Many [lit ''account'', lit ''totp-server''])) None)"

definition rejects_a_missing_audience :: "int \<Rightarrow> bool" where
  "rejects_a_missing_audience t \<longleftrightarrow> evaluated t True None None = WrongAudience"

text \<open>The clock is read by the test, at \<open>t\<close>, and again by \<open>evaluate\<close>, \<open>d\<close> seconds later.\<close>

definition rejects_an_expired_token_even_when_keycloak_says_active :: "int \<Rightarrow> nat \<Rightarrow> bool" where
  "rejects_an_expired_token_even_when_keycloak_says_active t d \<longleftrightarrow>
     (let past = t - 1 in
      evaluated (t + int d) True (Some (One (lit ''totp-server''))) (Some past) = Inactive)"

definition rejects_an_inactive_token :: "int \<Rightarrow> bool" where
  "rejects_an_inactive_token t \<longleftrightarrow>
     evaluated t False (Some (One (lit ''totp-server''))) None = Inactive"

definition introspection_tests :: "int \<Rightarrow> nat \<Rightarrow> bool list" where
  "introspection_tests t d =
     [accepts_an_audience_given_as_a_bare_string t, accepts_an_audience_given_as_a_list t,
      rejects_a_missing_audience t, rejects_an_expired_token_even_when_keycloak_says_active t d,
      rejects_an_inactive_token t]"

section \<open>Tests of \<open>tests/introspection.rs\<close>\<close>

definition INTROSPECT_PATH :: ustr where
  "INTROSPECT_PATH = lit ''/protocol/openid-connect/token/introspect''"

definition mock_config :: "ustr \<Rightarrow> config" where
  "mock_config issuer =
     \<lparr>database_url = lit ''postgres://unused'', host = lit ''127.0.0.1'', port = 3000,
      keycloak_issuer = issuer, keycloak_client_id = lit ''totp-server'',
      keycloak_client_secret = lit ''dev-secret'', expected_audience = lit ''totp-server'',
      admin_role = lit ''totp-admin'', encryption_key = replicate 32 0, totp_skew_steps = 1,
      rate_limit_max_requests = 6, rate_limit_window_seconds = 300\<rparr>"

text \<open>
  The mock server: it answers the path of introspection with the given reply and everything else
  with 404. Its clock stands at \<open>t\<close>.
\<close>

definition mock_uri :: ustr where
  "mock_uri = lit ''http://127.0.0.1:41000''"

definition mock_reply :: "nat \<Rightarrow> (ustr, introspection_response) result \<Rightarrow> http_reply" where
  "mock_reply code json = \<lparr>reply_status = code, reply_status_text = show_nat code, reply_json = json\<rparr>"

definition mock_response :: "int \<Rightarrow> http_reply \<Rightarrow> keycloak" where
  "mock_response t reply =
     \<lparr>http_send = (\<lambda>_ req. Inr (if post_url req = mock_uri @ INTROSPECT_PATH then reply
                                else mock_reply 404 (Inl []))),
      utc_timestamp = (\<lambda>_. t), sha256 = map of_nat, recv = (\<lambda>_ _. None)\<rparr>"

definition active_token :: "int \<Rightarrow> audience \<Rightarrow> introspection_response" where
  "active_token t a =
     \<lparr>active = True, sub = Some (lit ''8f14e45f-ea3a-4b1e-9c7e-000000000001''), aud = Some a,
      expires = Some (t + 300), realm = Some \<lparr>roles = [lit ''default-roles-lock-demo'']\<rparr>\<rparr>"

definition authenticated ::
  "int \<Rightarrow> http_reply \<Rightarrow> string \<Rightarrow> (app_error, authenticated_user) result server" where
  "authenticated t reply token =
     authenticate (mock_response t reply) (introspection_client_new (mock_config mock_uri)) (lit token)"

fun is_unavailable :: "(app_error, authenticated_user) result \<Rightarrow> bool" where
  "is_unavailable (Inl (IntrospectionUnavailable e)) = True"
| "is_unavailable r = False"

definition accepts_an_active_token_with_the_expected_audience :: "int \<Rightarrow> bool server" where
  "accepts_an_active_token_with_the_expected_audience t = do {
     r \<leftarrow> authenticated t (mock_reply 200 (Inr (active_token t (One (lit ''totp-server'')))))
           ''a.valid.token'';
     State_Monad.return
       (case r of
          Inl _ \<Rightarrow> False
        | Inr user \<Rightarrow>
            subject user = lit ''8f14e45f-ea3a-4b1e-9c7e-000000000001'' \<and>
            lit ''default-roles-lock-demo'' \<in> set (realm_roles user))
   }"

definition accepts_an_audience_delivered_as_a_list :: "int \<Rightarrow> bool server" where
  "accepts_an_audience_delivered_as_a_list t = do {
     r \<leftarrow> authenticated t
           (mock_reply 200 (Inr (active_token t (Many [lit ''account'', lit ''totp-server'']))))
           ''a.valid.token'';
     State_Monad.return (\<not> is_err r)
   }"

definition rejects_an_inactive_token_with_401 :: "int \<Rightarrow> bool server" where
  "rejects_an_inactive_token_with_401 t = do {
     r \<leftarrow> authenticated t
           (mock_reply 200 (Inr \<lparr>active = False, sub = None, aud = None, expires = None, realm = None\<rparr>))
           ''revoked'';
     State_Monad.return (r = Inl Unauthorized)
   }"

definition rejects_a_token_for_another_audience_with_403 :: "int \<Rightarrow> bool server" where
  "rejects_a_token_for_another_audience_with_403 t = do {
     r \<leftarrow> authenticated t
           (mock_reply 200 (Inr (active_token t (Many [lit ''account'', lit ''some-other-service'']))))
           ''wrong.audience'';
     State_Monad.return (r = Inl Forbidden)
   }"

definition rejects_a_token_with_no_audience_at_all_with_403 :: "int \<Rightarrow> bool server" where
  "rejects_a_token_with_no_audience_at_all_with_403 t = do {
     r \<leftarrow> authenticated t
           (mock_reply 200 (Inr \<lparr>active = True, sub = Some (lit ''user-1''), aud = None,
              expires = Some (t + 300), realm = None\<rparr>))
           ''no.audience'';
     State_Monad.return (r = Inl Forbidden)
   }"

definition rejects_an_expired_token_even_if_keycloak_reports_it_active :: "int \<Rightarrow> bool server" where
  "rejects_an_expired_token_even_if_keycloak_reports_it_active t = do {
     r \<leftarrow> authenticated t
           (mock_reply 200 (Inr \<lparr>active = True, sub = Some (lit ''user-1''),
              aud = Some (One (lit ''totp-server'')), expires = Some (t - 1), realm = None\<rparr>))
           ''expired'';
     State_Monad.return (r = Inl Unauthorized)
   }"

definition returns_503_when_keycloak_errors_rather_than_failing_open :: "int \<Rightarrow> bool server" where
  "returns_503_when_keycloak_errors_rather_than_failing_open t = do {
     r \<leftarrow> authenticated t (mock_reply 500 (Inl [])) ''a.valid.token'';
     State_Monad.return (is_unavailable r)
   }"

definition returns_503_when_keycloak_is_unreachable :: "int \<Rightarrow> bool server" where
  "returns_503_when_keycloak_is_unreachable t = do {
     r \<leftarrow> authenticate
           ((mock_response t (mock_reply 404 (Inl [])))\<lparr>http_send := \<lambda>_ _. Inl (lit ''connection refused'')\<rparr>)
           (introspection_client_new (mock_config (lit ''http://127.0.0.1:1''))) (lit ''a.valid.token'');
     State_Monad.return (is_unavailable r)
   }"

definition returns_503_when_the_response_is_not_valid_json :: "int \<Rightarrow> bool server" where
  "returns_503_when_the_response_is_not_valid_json t = do {
     r \<leftarrow> authenticated t (mock_reply 200 (Inl (lit ''expected value at line 1 column 1''))) ''a.valid.token'';
     State_Monad.return (is_unavailable r)
   }"

definition returns_503_when_the_response_omits_the_subject :: "int \<Rightarrow> bool server" where
  "returns_503_when_the_response_omits_the_subject t = do {
     r \<leftarrow> authenticated t
           (mock_reply 200 (Inr \<lparr>active = True, sub = None, aud = Some (One (lit ''totp-server'')),
              expires = Some (t + 300), realm = None\<rparr>))
           ''no.sub'';
     State_Monad.return (is_unavailable r)
   }"

definition keycloak_tests :: "int \<Rightarrow> bool server list" where
  "keycloak_tests t =
     [accepts_an_active_token_with_the_expected_audience t, accepts_an_audience_delivered_as_a_list t,
      rejects_an_inactive_token_with_401 t, rejects_a_token_for_another_audience_with_403 t,
      rejects_a_token_with_no_audience_at_all_with_403 t,
      rejects_an_expired_token_even_if_keycloak_reports_it_active t,
      returns_503_when_keycloak_errors_rather_than_failing_open t,
      returns_503_when_keycloak_is_unreachable t, returns_503_when_the_response_is_not_valid_json t,
      returns_503_when_the_response_omits_the_subject t]"

section \<open>Lemmas\<close>

lemma crypto_tests_pass: "list_all (\<lambda>t. fst (run_state t w)) (crypto_tests demo_aead)"
proof -
  have "(of_nat (tick w) :: u8) \<noteq> of_nat (Suc (tick w))" by simp
  moreover have "c XOR 0xff \<noteq> (c :: u8)" for c
  proof
    assume "c XOR 0xff = c"
    then have "c XOR (c XOR 0xff) = 0" by simp
    then show False by (simp flip: xor.assoc)
  qed
  moreover have "replicate 12 x = x # replicate 11 x" for x :: u8 by (simp add: eval_nat_numeral)
  ultimately show ?thesis
    by (simp add: crypto_tests_def roundtrips_a_secret_def draws_a_fresh_nonce_for_every_call_def
        rejects_tampered_ciphertext_def rejects_a_different_key_def rejects_a_nonce_of_the_wrong_length_def
        encrypting_def run_encrypt decrypt_def is_err_def test_crypto_def test_plaintext_def crypto_new_def
        demo_aead_def NONCE_LEN_def)
qed

lemma config_tests_pass: "list_all id (config_tests base64_encode base64_decode)"
proof -
  have "accepts_a_32_byte_key_with_and_without_prefix base64_encode base64_decode"
    using parse_encryption_key_encode [OF base64_encode_laws, of "replicate 32 7"]
    by (auto simp: accepts_a_32_byte_key_with_and_without_prefix_def Let_def ENCRYPTION_KEY_LEN_def
        dest: meta_spec [of _ "[]"])
  moreover have "rejects_a_key_of_the_wrong_length base64_encode base64_decode"
  proof -
    let ?k = "base64_encode (replicate 16 7)"
    have chars: "list_all (\<lambda>c. \<not> is_whitespace c) ?k" "58 \<notin> set ?k"
      using base64_encode_laws by (auto simp: base64_laws_def list_all_iff)
    have "strip_prefix (lit ''base64:'') ?k = None"
      using chars(2) base64_prefix_colon by (cases "strip_prefix (lit ''base64:'') ?k") (auto simp: strip_prefix_Some)
    then show ?thesis
      by (simp add: rejects_a_key_of_the_wrong_length_def parse_encryption_key_def Let_def
          trim_no_whitespace [OF chars(1)] base64_roundtrip ENCRYPTION_KEY_LEN_def) (simp add: lit_def)
  qed
  moreover have "rejects_a_key_that_is_not_base64 base64_decode"
    by (simp add: rejects_a_key_that_is_not_base64_def parse_encryption_key_def is_err_def base64_decode_def
        decode_text_def base64_alphabet_def lit_def trim_def trim_end_by_def trim_end_matches_def
        is_whitespace_def)
  ultimately show ?thesis by (simp add: config_tests_def)
qed

lemma rfc_generated:
  "generated rfc_totp_rs sec t =
     Some \<lparr>pin = padded 6 (unat (rfc6238 sec (t div 30))), valid_for_seconds = 30 - t mod 30\<rparr>"
  by (simp add: generated_def generate_at_def generator_def rfc_totp_rs_def SERVER_DIGITS_def
      SERVER_STEP_SECONDS_def)

lemma padded_vectors:
  "padded 6 1094287082 = lit ''287082''" "padded 6 907081804 = lit ''081804''"
  "padded 6 137359152 = lit ''359152''" "padded 6 1726969429 = lit ''969429''"
  "padded 6 1773350769 = lit ''350769''"
  by (simp_all add: padded_def lit_def upt_rec)

lemmas rfc_vectors =
  rfc6238_step_1 rfc6238_step_2 rfc6238_step_3 rfc6238_step_37037036 rfc6238_other

lemma generate_tests_pass: "list_all id (generate_tests rfc_totp_rs)"
  by (simp add: generate_tests_def server_matches_the_rfc_6238_test_vector_def
      matches_a_later_rfc_6238_test_vector_def reports_the_time_left_in_the_current_step_def
      holds_the_pin_steady_within_a_step_and_changes_at_the_boundary_def
      always_pads_the_pin_to_six_digits_def different_secrets_give_different_pins_def rfc_generated
      rfc_vectors padded_vectors SERVER_DIGITS_def list_all_iff)

lemma provision_test_passes:
  "fst (run_state (provisions_a_usable_secret_and_url rfc_totp_rs base32_decode (\<lambda>t. 59)) world_init)"
proof -
  define sec :: bytes where "sec = map of_nat [0..<20]"
  let ?url = "lit ''otpauth://totp/urheilulaatikko:testuser?secret=AAAQEAYEAUDAOCAJBIFQYDIOB4IBCEQT&issuer=urheilulaatikko''"
  have b32: "base32_encode sec = lit ''AAAQEAYEAUDAOCAJBIFQYDIOB4IBCEQT''"
    unfolding sec_def by code_simp
  have url: "str_contains (lit ''issuer=urheilulaatikko'') ?url" "\<not> str_contains (lit ''algorithm='') ?url"
    "strip_prefix (lit ''otpauth://totp/urheilulaatikko:testuser?'') ?url \<noteq> None"
    by (simp_all add: lit_def)
  have "run_state (totp_provision rfc_totp_rs (lit ''testuser'')) world_init =
      (Inr \<lparr>raw = sec, secret_base32 = base32_encode sec, otpauth_url = ?url\<rparr>, world_init\<lparr>tick := 1\<rparr>)"
    by (simp add: totp_provision_def generator_def rfc_totp_rs_def world_init_def ISSUER_def b32 sec_def
        [symmetric]) (simp add: lit_def)
  then show ?thesis
    using url base32_roundtrip [of sec]
    by (simp add: provisions_a_usable_secret_and_url_def b32)
      (simp add: generate_def unix_now_def generate_at_def generator_def rfc_totp_rs_def SERVER_DIGITS_def lit_def)
qed

lemma rate_limit_tests_pass: "list_all id rate_limit_tests"
  by (simp add: rate_limit_tests_def extracts_the_subject_set_by_the_auth_middleware_def
      fails_when_the_request_was_not_authenticated_def extract_key_def empty_request_def)

lemma middleware_tests_pass: "list_all id middleware_tests"
  by (simp add: middleware_tests_def extracts_a_bearer_token_def accepts_any_casing_of_the_scheme_def
      rejects_other_schemes_and_empty_tokens_def rejects_a_request_without_the_header_def
      request_with_auth_def empty_request_def bearer_token_def lit_def eq_ignore_ascii_case_def
      to_ascii_lowercase_def trim_def trim_end_by_def is_whitespace_def Let_def)

lemma introspection_tests_pass: "list_all id (introspection_tests t d)"
  by (simp add: introspection_tests_def accepts_an_audience_given_as_a_bare_string_def
      accepts_an_audience_given_as_a_list_def rejects_a_missing_audience_def
      rejects_an_expired_token_even_when_keycloak_says_active_def rejects_an_inactive_token_def
      evaluated_def evaluate_def test_client_def test_response_def)

lemma fst_authenticate_alone:
  "inflight w = Map.empty \<Longrightarrow>
     fst (run_state (authenticate K self token) w) =
       outcome_result (call_outcome K self token (Suc (tick w)) (Suc (Suc (tick w))))"
  using run_authenticate_alone [of w K token self] by auto

lemma fst_bind_return:
  "fst (run_state (do { r \<leftarrow> m; State_Monad.return (f r) }) w) = f (fst (run_state m w))"
  by (simp split: prod.splits)

lemma keycloak_tests_pass:
  "inflight w = Map.empty \<Longrightarrow> list_all (\<lambda>test. fst (run_state test w)) (keycloak_tests t)"
  by (simp add: keycloak_tests_def accepts_an_active_token_with_the_expected_audience_def
      accepts_an_audience_delivered_as_a_list_def rejects_an_inactive_token_with_401_def
      rejects_a_token_for_another_audience_with_403_def rejects_a_token_with_no_audience_at_all_with_403_def
      rejects_an_expired_token_even_if_keycloak_reports_it_active_def
      returns_503_when_keycloak_errors_rather_than_failing_open_def
      returns_503_when_keycloak_is_unreachable_def returns_503_when_the_response_is_not_valid_json_def
      returns_503_when_the_response_omits_the_subject_def authenticated_def fst_bind_return
      fst_authenticate_alone del: State_Monad.run_state_bind)
    (simp add: call_outcome_def mock_response_def mock_reply_def introspection_request_def
      introspection_client_new_def introspection_url_def mock_config_def INTROSPECT_PATH_def
      active_token_def is_success_def evaluate_def is_err_def lit_def)

end
