(* ===== verification/Shared_Calls.thy ===== *)
theory Shared_Calls
  imports Single_Flight Server_Tests
begin

text \<open>
  What sharing a call saves (\<open>IntrospectionClient\<close> in \<^verbatim>\<open>totp-server/src/auth/introspection.rs\<close>):
  the calls to Keycloak along a schedule are counted, requests that arrive together are shown to
  cost one, and the tests of \<^verbatim>\<open>totp-server/tests/introspection.rs\<close> that count calls are replayed.
\<close>

section \<open>Counting calls\<close>

text \<open>Whether an action makes one of the requests \<open>I\<close> call Keycloak.\<close>

fun asks :: "nat set \<Rightarrow> action \<Rightarrow> flight \<Rightarrow> bool" where
  "asks I (Advance i) s =
     (i \<in> I \<and> (case tasks s i of
        Some T \<Rightarrow> task_stage T = Leading \<or> task_stage T = Asking
      | None \<Rightarrow> False))"
| "asks I _ s = False"

fun calls_by :: "nat set \<Rightarrow> keycloak \<Rightarrow> introspection_client \<Rightarrow> action list \<Rightarrow> flight \<Rightarrow> nat" where
  "calls_by I K self [] s = 0"
| "calls_by I K self (a # as) s =
     (if asks I a s then 1 else 0) +
     (case act K self a s of None \<Rightarrow> 0 | Some s' \<Rightarrow> calls_by I K self as s')"

section \<open>The tests that count calls\<close>

text \<open>What a request of the test got; \<open>is_ok\<close> of its result.\<close>

definition got_ok :: "flight \<Rightarrow> nat \<Rightarrow> bool" where
  "got_ok s i =
     (case tasks s i of
        None \<Rightarrow> False
      | Some T \<Rightarrow> (case task_stage T of Returned out \<Rightarrow> \<not> is_err (outcome_result out) | _ \<Rightarrow> False))"

text \<open>A test: the schedule is possible, its requests succeed and the mock server has seen the expected calls.\<close>

definition expects ::
  "nat \<Rightarrow> keycloak \<Rightarrow> action list \<Rightarrow> nat list \<Rightarrow> bool" where
  "expects n K as is =
     (let self = introspection_client_new (mock_config mock_uri) in
      case schedule K self as flight_init of
        None \<Rightarrow> False
      | Some s \<Rightarrow> list_all (got_ok s) is \<and> calls_by (set is) K self as flight_init = n)"

text \<open>
  A mock server that asks for the credentials and the form field. The header is matched by the
  client's credentials, the body by the form.
\<close>

definition credentials_mock :: "int \<Rightarrow> keycloak" where
  "credentials_mock t =
     (mock_response t (mock_reply 200 (Inr (active_token t (One (lit ''totp-server''))))))
       \<lparr>http_send := \<lambda>_ req.
          Inr (if post_url req = mock_uri @ INTROSPECT_PATH \<and>
                  basic_auth req = (lit ''totp-server'', lit ''dev-secret'') \<and>
                  (lit ''token'', lit ''a.valid.token'') \<in> set (form req)
               then mock_reply 200 (Inr (active_token t (One (lit ''totp-server''))))
               else mock_reply 404 (Inl []))\<rparr>"

text \<open>A request that runs by itself: it leads, is answered, publishes and returns.\<close>

definition on_its_own :: "nat \<Rightarrow> string \<Rightarrow> action list" where
  "on_its_own i token = [Arrive i (lit token), Advance i, Advance i, Advance i, Advance i]"

definition sends_client_credentials_and_the_token_as_a_form_field :: "int \<Rightarrow> bool" where
  "sends_client_credentials_and_the_token_as_a_form_field t =
     expects 1 (credentials_mock t) (on_its_own 0 ''a.valid.token'') [0]"

text \<open>
  The joined futures are polled in turn, so all four have arrived when the delayed reply comes;
  the leader then runs to its end and the others receive.
\<close>

definition deduplicates_concurrent_introspections_of_the_same_token :: "int \<Rightarrow> bool" where
  "deduplicates_concurrent_introspections_of_the_same_token t =
     expects 1 (mock_response t (mock_reply 200 (Inr (active_token t (One (lit ''totp-server''))))))
       (map (\<lambda>i. Arrive i (lit ''same.token'')) [0, 1, 2, 3] @ [Advance 0, Pass, Advance 0, Advance 0, Advance 0] @
        map Advance [1, 2, 3])
       [0, 1, 2, 3]"

definition does_not_cache_across_sequential_requests :: "int \<Rightarrow> bool" where
  "does_not_cache_across_sequential_requests t =
     expects 3 (mock_response t (mock_reply 200 (Inr (active_token t (One (lit ''totp-server''))))))
       (concat (map (\<lambda>i. on_its_own i ''same.token'') [0, 1, 2])) [0, 1, 2]"

section \<open>Requests that arrive together\<close>

text \<open>A crowd: \<open>i\<close> leads for \<open>key\<close>, the requests \<open>J\<close> have joined it, and \<open>n\<close> calls were made.\<close>

definition waiting :: "keycloak \<Rightarrow> flight \<Rightarrow> bytes \<Rightarrow> nat \<Rightarrow> nat set \<Rightarrow> bool" where
  "waiting K s key i J \<longleftrightarrow> channels s key = Some i \<and>
     (\<forall>j \<in> J. \<exists>U. tasks s j = Some U \<and> task_key K U = key \<and> task_stage U = Following i)"

definition told :: "flight \<Rightarrow> nat set \<Rightarrow> introspection_outcome \<Rightarrow> bool" where
  "told s J out \<longleftrightarrow>
     (\<forall>j \<in> J. \<exists>U. tasks s j = Some U \<and> (task_stage U = Received out \<or> task_stage U = Returned out))"

fun crowd_stage :: "keycloak \<Rightarrow> flight \<Rightarrow> bytes \<Rightarrow> nat \<Rightarrow> nat set \<Rightarrow> nat \<Rightarrow> stage \<Rightarrow> bool" where
  "crowd_stage K s key i J n Leading = (n = 0 \<and> waiting K s key i J)"
| "crowd_stage K s key i J n (LeadReplied d) = (n = 1 \<and> waiting K s key i J)"
| "crowd_stage K s key i J n (LeadDone out) = (n = 1 \<and> waiting K s key i J)"
| "crowd_stage K s key i J n (LeadSent out) = (n = 1 \<and> channels s key = Some i \<and> told s J out)"
| "crowd_stage K s key i J n (Returned out) = (n = 1 \<and> told s J out)"
| "crowd_stage K s key i J n _ = False"

definition crowd :: "keycloak \<Rightarrow> flight \<Rightarrow> bytes \<Rightarrow> nat \<Rightarrow> nat set \<Rightarrow> nat \<Rightarrow> bool" where
  "crowd K s key i J n \<longleftrightarrow>
     (\<exists>T. tasks s i = Some T \<and> task_key K T = key \<and> crowd_stage K s key i J n (task_stage T))"

text \<open>What others do does not touch the crowd.\<close>

lemma crowd_frame:
  assumes "crowd K s key i J n" and "\<And>j. j \<in> insert i J \<Longrightarrow> tasks s' j = tasks s j"
    and "channels s key = Some i \<Longrightarrow> channels s' key = Some i"
  shows "crowd K s' key i J n"
proof -
  obtain T where T: "tasks s i = Some T" "task_key K T = key" "crowd_stage K s key i J n (task_stage T)"
    using assms(1) by (auto simp: crowd_def)
  have "tasks s' i = Some T" using T(1) assms(2) by simp
  moreover have "crowd_stage K s' key i J n (task_stage T)"
    using T(3) assms(2,3) by (cases "task_stage T") (auto simp: waiting_def told_def)
  ultimately show ?thesis using T(2) by (auto simp: crowd_def)
qed

lemma crowd_present:
  assumes "crowd K s key i J n" and "j \<in> insert i J"
  shows "tasks s j \<noteq> None"
proof -
  obtain T where "tasks s i = Some T" "crowd_stage K s key i J n (task_stage T)"
    using assms(1) by (auto simp: crowd_def)
  then show ?thesis using assms(2) by (cases "task_stage T") (auto simp: waiting_def told_def)
qed

text \<open>A member of the crowd follows nobody but its leader.\<close>

lemma crowd_follows:
  assumes "crowd K s key i J n" and "j \<in> insert i J" and "tasks s j = Some U" and "task_stage U = Following x"
  shows "x = i"
proof -
  obtain T where T: "tasks s i = Some T" "crowd_stage K s key i J n (task_stage T)"
    using assms(1) by (auto simp: crowd_def)
  then show ?thesis using assms(2-4) by (cases "task_stage T") (auto simp: waiting_def told_def)
qed

lemma crowd_leads:
  assumes "crowd K s key i J n" and "channels_ok K s" and "channels s key = Some i"
    and "tasks s x = Some U" and "task_key K U = key" and "leads (task_stage U)"
  shows "x = i"
  using assms(2-6) unfolding channels_ok_def by (metis option.inject)

lemma crowd_deliver:
  assumes "crowd K s key i J n" and "x \<noteq> i"
  shows "crowd K (deliver x out s) key i J n"
proof (rule crowd_frame [OF assms(1)])
  fix j assume j: "j \<in> insert i J"
  show "tasks (deliver x out s) j = tasks s j"
    using crowd_follows [OF assms(1) j] assms(2) by (cases "tasks s j") (auto simp: deliver_def)
qed simp

lemma crowd_set_stage: "crowd K s key i J n \<Longrightarrow> x \<notin> insert i J \<Longrightarrow> crowd K (set_stage x U st s) key i J n"
  by (erule crowd_frame) auto

lemma crowd_remove_key:
  assumes "crowd K s key i J n" and "channels_ok K s" and "x \<noteq> i"
    and "tasks s x = Some U" and "leads (task_stage U)"
  shows "crowd K (remove_key (task_key K U) s) key i J n"
proof (rule crowd_frame [OF assms(1)])
  assume "channels s key = Some i"
  with crowd_leads [OF assms(1,2) _ assms(4) _ assms(5)] assms(3)
  show "channels (remove_key (task_key K U) s) key = Some i" by auto
qed simp

text \<open>A step of a request that is not of the crowd.\<close>

lemma crowd_others:
  assumes "crowd K s key i J n" and "channels_ok K s" and "act K self a s = Some s'"
    and "\<And>j. j \<in> insert i J \<Longrightarrow> a \<noteq> Advance j \<and> a \<noteq> Cancel j"
  shows "crowd K s' key i J n"
proof (cases a)
  case Pass
  with assms(3) show ?thesis by (auto intro: crowd_frame [OF assms(1)])
next
  case (Arrive x tok)
  then have x: "tasks s x = None" "s' = arrive K x tok s" using assms(3) by (auto split: if_splits)
  then have "x \<notin> insert i J" using crowd_present [OF assms(1)] by blast
  with x show ?thesis
    by (intro crowd_frame [OF assms(1)]) (auto simp: arrive_def split: option.splits)
next
  case (Cancel x)
  then have x: "x \<notin> insert i J" using assms(4) by blast
  from Cancel assms(3) obtain U where U: "tasks s x = Some U" "s' = cancel K x U s"
    by (auto split: option.splits if_splits)
  with x crowd_remove_key [OF assms(1,2) _ U(1)] assms(1) show ?thesis
    by (auto simp: cancel_def intro!: crowd_set_stage)
next
  case (Advance x)
  then have x: "x \<notin> insert i J" using assms(4) by blast
  from Advance assms(3) obtain U where U: "tasks s x = Some U" "advance K self x s = Some s'"
    by (auto simp: advance_def split: option.splits)
  have "channels s (task_key K U) = Some tx \<Longrightarrow> leads (task_stage U) \<Longrightarrow> tx = x" for tx
    using assms(2) U(1) unfolding channels_ok_def by (metis option.inject)
  with U x crowd_remove_key [OF assms(1,2) _ U(1)] assms(1) show ?thesis
    by (auto simp: advance_def intro!: crowd_set_stage crowd_deliver split: stage.splits option.splits if_splits)
qed

text \<open>A step of the crowd itself.\<close>

lemma crowd_leader_step:
  assumes "crowd K s key i J n" and "i \<notin> J" and "advance K self i s = Some s'"
  shows "crowd K s' key i J (n + (if asks (insert i J) (Advance i) s then 1 else 0))"
proof -
  obtain T where T: "tasks s i = Some T" "task_key K T = key" "crowd_stage K s key i J n (task_stage T)"
    using assms(1) by (auto simp: crowd_def)
  have stay: "waiting K (set_stage i T st s) key i J" if "waiting K s key i J" for st
    using that assms(2) by (auto simp: waiting_def)
  have told: "told (set_stage i T st s') J out" if "told s' J out" for st out s'
    using that assms(2) by (auto simp: told_def)
  have sent: "told (deliver i out s) J out" if "waiting K s key i J" for out
  proof -
    have "\<exists>U. tasks (deliver i out s) j = Some U \<and> task_stage U = Received out" if "j \<in> J" for j
    proof -
      obtain U where "tasks s j = Some U" "task_stage U = Following i"
        using \<open>waiting K s key i J\<close> \<open>j \<in> J\<close> unfolding waiting_def by blast
      then show ?thesis by (simp add: deliver_def)
    qed
    then show ?thesis unfolding told_def by blast
  qed
  have gone: "told (remove_key k s) J out" if "told s J out" for k out using that by (simp add: told_def)
  have key: "task_key K (T\<lparr>task_stage := st\<rparr>) = key" for st using T(2) by (simp add: task_key_def)
  show ?thesis
    using T assms(3) key stay told sent gone
    by (cases "task_stage T") (auto simp: crowd_def advance_def waiting_def)
qed

lemma crowd_follower_step:
  assumes "crowd K s key i J n" and "i \<notin> J" and "j \<in> J" and "advance K self j s = Some s'"
  shows "crowd K s' key i J (n + (if asks (insert i J) (Advance j) s then 1 else 0))"
proof -
  obtain T where T: "tasks s i = Some T" "task_key K T = key" "crowd_stage K s key i J n (task_stage T)"
    using assms(1) by (auto simp: crowd_def)
  have ij: "i \<noteq> j" using assms(2,3) by auto
  have blocked: "\<not> waiting K s key i J"
  proof
    assume "waiting K s key i J"
    then obtain U where "channels s key = Some i" "tasks s j = Some U" "task_key K U = key" "task_stage U = Following i"
      using assms(3) unfolding waiting_def by blast
    with assms(4) show False by (simp add: advance_def)
  qed
  have told: "crowd_stage K s' key i J n (task_stage T) \<and> tasks s' i = Some T \<and> \<not> asks (insert i J) (Advance j) s"
    if over: "told s J out" "task_stage T = LeadSent out \<or> task_stage T = Returned out" for out
  proof -
    obtain U where U: "tasks s j = Some U" "task_stage U = Received out \<or> task_stage U = Returned out"
      using over(1) assms(3) by (auto simp: told_def)
    then have "s' = set_stage j U (Returned out) s" using assms(4) by (auto simp: advance_def)
    with U over T ij show ?thesis by (auto simp: told_def)
  qed
  then show ?thesis using T blocked by (cases "task_stage T") (auto simp: crowd_def)
qed

lemma crowd_schedule:
  assumes "flight_reachable K self s" and "crowd K s key i J n" and "i \<notin> J"
    and "schedule K self as s = Some s'" and "\<forall>j \<in> insert i J. Cancel j \<notin> set as"
  shows "crowd K s' key i J (n + calls_by (insert i J) K self as s)"
  using assms
proof (induction as arbitrary: s n)
  case (Cons a as)
  obtain s1 where s1: "act K self a s = Some s1" "schedule K self as s1 = Some s'"
    using Cons.prems(4) by (auto simp: bind_eq_Some_conv)
  have reach: "flight_reachable K self s1" using Cons.prems(1) act_step [OF s1(1)] by (rule flight_reachable.step)
  have ok: "channels_ok K s" using flight_reachable_inv [OF Cons.prems(1)] by (simp add: flight_inv_def)
  have "crowd K s1 key i J (n + (if asks (insert i J) a s then 1 else 0))"
  proof (cases "\<exists>j \<in> insert i J. a = Advance j")
    case True
    then obtain j where j: "a = Advance j" "j = i \<or> j \<in> J" by blast
    with s1(1) have "advance K self j s = Some s1" by simp
    with j crowd_leader_step [OF Cons.prems(2,3)] crowd_follower_step [OF Cons.prems(2,3)] show ?thesis by blast
  next
    case False
    then have "\<not> asks (insert i J) a s" by (cases a) auto
    moreover have "crowd K s1 key i J n"
      using crowd_others [OF Cons.prems(2) ok s1(1)] False Cons.prems(5) by auto
    ultimately show ?thesis by simp
  qed
  from Cons.IH [OF reach this Cons.prems(3) s1(2)] Cons.prems(5) s1(1) show ?case by (simp add: add.assoc)
qed simp

text \<open>How a crowd forms.\<close>

lemma crowd_joins:
  assumes "crowd K s (sha256 K tok) i J 0" and "tasks s j = None"
  shows "crowd K (arrive K j tok s) (sha256 K tok) i (insert j J) 0"
proof -
  obtain T where T: "tasks s i = Some T" "task_key K T = sha256 K tok" "task_stage T = Leading"
      "waiting K s (sha256 K tok) i J"
  proof -
    obtain T where "tasks s i = Some T" "task_key K T = sha256 K tok" "crowd_stage K s (sha256 K tok) i J 0 (task_stage T)"
      using assms(1) by (auto simp: crowd_def)
    then show ?thesis using that by (cases "task_stage T") auto
  qed
  moreover have "j \<noteq> i" "j \<notin> J" using crowd_present [OF assms(1), of j] assms(2) by auto
  ultimately show ?thesis by (auto simp: crowd_def arrive_def waiting_def task_key_def)
qed

lemma crowd_forms:
  assumes "crowd K s (sha256 K tok) i J 0" and "distinct js" and "\<forall>j \<in> set js. tasks s j = None"
  shows "\<exists>s'. schedule K self (map (\<lambda>j. Arrive j tok) js) s = Some s' \<and> crowd K s' (sha256 K tok) i (J \<union> set js) 0"
  using assms
proof (induction js arbitrary: s J)
  case (Cons j js)
  have "\<forall>x \<in> set js. tasks (arrive K j tok s) x = None"
    using Cons.prems(2,3) by (auto simp: arrive_def split: option.splits)
  with Cons.IH [OF crowd_joins [OF Cons.prems(1)], of j] Cons.prems(2,3) show ?case by simp
qed auto

lemma crowd_starts:
  "channels s (sha256 K tok) = None \<Longrightarrow> tasks s i = None \<Longrightarrow> crowd K (arrive K i tok s) (sha256 K tok) i {} 0"
  by (simp add: crowd_def arrive_def waiting_def task_key_def)

lemma schedule_append:
  "schedule K self (as @ bs) s = Option.bind (schedule K self as s) (schedule K self bs)"
  by (induction as arbitrary: s) (auto simp: bind_eq_Some_conv split: bind_splits)

lemma calls_by_append:
  "schedule K self as s = Some s' \<Longrightarrow>
     calls_by I K self (as @ bs) s = calls_by I K self as s + calls_by I K self bs s'"
  by (induction as arbitrary: s) (auto simp: bind_eq_Some_conv)

lemma arrivals_do_not_ask: "calls_by I K self (map (\<lambda>j. Arrive j tok) js) s = 0"
  by (induction js arbitrary: s) (auto split: option.splits)

lemma told_outcome:
  "told s J out \<Longrightarrow> k \<in> J \<Longrightarrow> tasks s k = Some V \<Longrightarrow> task_stage V = Returned o' \<Longrightarrow> o' = out"
  by (auto simp: told_def)

lemma crowd_outcome:
  assumes "crowd K s key i J n" and "j \<in> insert i J" and "tasks s j = Some U" and "task_stage U = Returned out"
  shows "n = 1 \<and> (\<forall>k \<in> insert i J. \<forall>V o'. tasks s k = Some V \<longrightarrow> task_stage V = Returned o' \<longrightarrow> o' = out)"
proof -
  obtain T where T: "tasks s i = Some T" "crowd_stage K s key i J n (task_stage T)"
    using assms(1) by (auto simp: crowd_def)
  then show ?thesis using assms(2-4)
    by (cases "task_stage T") (auto simp: waiting_def dest: told_outcome)
qed

lemma crowd_calls: "crowd K s key i J n \<Longrightarrow> n \<le> 1"
  unfolding crowd_def by (elim exE conjE) (case_tac "task_stage T"; simp)

section \<open>The tests\<close>

definition mock_user :: authenticated_user where
  "mock_user = \<lparr>subject = lit ''8f14e45f-ea3a-4b1e-9c7e-000000000001'',
     realm_roles = [lit ''default-roles-lock-demo'']\<rparr>"

lemma mock_calls:
  fixes t :: int
  defines "self \<equiv> introspection_client_new (mock_config mock_uri)"
  shows "call_outcome (mock_response t (mock_reply 200 (Inr (active_token t (One (lit ''totp-server'')))))) self tok d now =
      Active mock_user"
    and "call_outcome (credentials_mock t) self (lit ''a.valid.token'') d now = Active mock_user"
  by (simp_all add: self_def call_outcome_def credentials_mock_def mock_response_def mock_reply_def introspection_request_def
      introspection_client_new_def introspection_url_def mock_config_def INTROSPECT_PATH_def
      active_token_def is_success_def evaluate_def lit_def mock_user_def)

lemmas replay_simps = mock_calls expects_def Let_def on_its_own_def arrive_def flight_init_def advance_def
  deliver_def set_stage_def task_key_def remove_key_def got_ok_def is_err_def

lemma counting_tests_pass:
  "sends_client_credentials_and_the_token_as_a_form_field t"
  "deduplicates_concurrent_introspections_of_the_same_token t"
  "does_not_cache_across_sequential_requests t"
  by (simp_all add: sends_client_credentials_and_the_token_as_a_form_field_def
      deduplicates_concurrent_introspections_of_the_same_token_def
      does_not_cache_across_sequential_requests_def replay_simps)

section \<open>Properties\<close>

text \<open>
  C14. Requests that arrive together cost one call: let requests with one token arrive one after the
  other while no call for it is in flight, and then let anything happen except that one of them is
  cancelled, other requests arriving, working and being cancelled as they like. Then these
  requests have made at most one call among them, and once one of them has returned they have made
  exactly one and all that return get its outcome.
\<close>

theorem arriving_together_costs_one_call:
  assumes "flight_reachable K self s0" and "channels s0 (sha256 K tok) = None"
    and "distinct (i # js)" and "\<forall>j \<in> set (i # js). tasks s0 j = None"
    and "schedule K self (map (\<lambda>j. Arrive j tok) (i # js) @ as) s0 = Some s"
    and "\<forall>j \<in> set (i # js). Cancel j \<notin> set as"
    and "n = calls_by (set (i # js)) K self (map (\<lambda>j. Arrive j tok) (i # js) @ as) s0"
  shows "n \<le> 1 \<and> (\<forall>j \<in> set (i # js). \<forall>T out. tasks s j = Some T \<longrightarrow> task_stage T = Returned out \<longrightarrow>
    n = 1 \<and> (\<forall>k \<in> set (i # js). \<forall>U out'. tasks s k = Some U \<longrightarrow> task_stage U = Returned out' \<longrightarrow> out' = out))"
proof -
  let ?all = "map (\<lambda>j. Arrive j tok) (i # js)"
  have "tasks (arrive K i tok s0) j = None" if "j \<in> set js" for j
    using that assms(3,4) by (auto simp: arrive_def split: option.splits)
  moreover have "crowd K (arrive K i tok s0) (sha256 K tok) i {} 0"
    using crowd_starts assms(2,4) by simp
  ultimately obtain s1 where
      s1: "schedule K self (map (\<lambda>j. Arrive j tok) js) (arrive K i tok s0) = Some s1"
      "crowd K s1 (sha256 K tok) i (set js) 0"
    using crowd_forms [where js = js and J = "{}"] assms(3) by fastforce
  then have all: "schedule K self ?all s0 = Some s1" using assms(4) by simp
  have reach: "flight_reachable K self s1" using schedule_reachable [OF all assms(1)] .
  have rest: "schedule K self as s1 = Some s" using assms(5) all by (simp only: schedule_append) simp
  have "n = calls_by (insert i (set js)) K self as s1"
    unfolding assms(7) calls_by_append [OF all] arrivals_do_not_ask by simp
  moreover have "i \<notin> set js" "\<forall>j \<in> insert i (set js). Cancel j \<notin> set as" using assms(3,6) by simp_all
  ultimately have crowd: "crowd K s (sha256 K tok) i (set js) n"
    using crowd_schedule [OF reach s1(2) _ rest] by simp
  from crowd_calls [OF crowd] crowd_outcome [OF crowd] show ?thesis unfolding list.set by blast
qed

theorem arriving_together_costs_one_call_witness:
  "\<exists>s T U. schedule demo_keycloak demo_client
       [Arrive 1 [116], Arrive 2 [116], Advance 1, Advance 1, Advance 1, Advance 2, Advance 1] flight_init = Some s \<and>
     tasks s 1 = Some T \<and> task_stage T = Returned (Active demo_user) \<and>
     tasks s 2 = Some U \<and> task_stage U = Returned (Active demo_user) \<and>
     calls_by {1, 2} demo_keycloak demo_client
       [Arrive 1 [116], Arrive 2 [116], Advance 1, Advance 1, Advance 1, Advance 2, Advance 1] flight_init = 1"
proof -
  let ?as = "[Advance 1, Advance 1, Advance 1, Advance 2, Advance 1]"
  have "\<exists>s T U. schedule demo_keycloak demo_client (map (\<lambda>j. Arrive j [116]) [1, 2] @ ?as) flight_init = Some s \<and>
      tasks s 1 = Some T \<and> task_stage T = Returned (Active demo_user) \<and>
      tasks s 2 = Some U \<and> task_stage U = Returned (Active demo_user)"
    by (simp add: replay_simps demo_call)
  then obtain s T U where s: "schedule demo_keycloak demo_client (map (\<lambda>j. Arrive j [116]) [1, 2] @ ?as) flight_init = Some s"
      "tasks s 1 = Some T" "task_stage T = Returned (Active demo_user)"
      "tasks s 2 = Some U" "task_stage U = Returned (Active demo_user)"
    by blast
  have "channels flight_init (sha256 demo_keycloak [116]) = None" "\<forall>j \<in> set [1, 2]. tasks flight_init j = None"
    by (simp_all add: flight_init_def)
  from arriving_together_costs_one_call [OF flight_reachable.start this(1) _ this(2) s(1) _ refl] s(2,3)
  have "calls_by {1, 2} demo_keycloak demo_client (map (\<lambda>j. Arrive j [116]) [1, 2] @ ?as) flight_init = 1" by simp
  with s show ?thesis unfolding list.map append.simps by blast
qed

text \<open>
  C38. Joining late costs a second call: there is a run in which nobody is cancelled and a request
  that joined a call in flight finds the channel closed and asks Keycloak itself, because it
  subscribed after the leader had published and before the leader removed its entry.
\<close>

theorem late_follower_asks_itself:
  "\<exists>K self as s T. schedule K self as flight_init = Some s \<and> (\<forall>j. Cancel j \<notin> set as) \<and>
     tasks s 2 = Some T \<and> task_joined T = Some 1 \<and> task_stage T = Returned (Active demo_user) \<and>
     calls_by {1} K self as flight_init = 1 \<and> calls_by {2} K self as flight_init = 1"
  by (intro exI [of _ demo_keycloak] exI [of _ demo_client] exI [of _ "[Arrive 1 [116], Advance 1, Advance 1,
        Advance 1, Arrive 2 [116], Advance 1, Advance 2, Advance 2, Advance 2]"])
    (simp add: replay_simps demo_call)

text \<open>
  The model passes the repository's own tests of the server that need no database: all 26 unit
  tests of \<^verbatim>\<open>totp-server/src\<close>, with AES-GCM played by a concrete cipher and the other libraries by
  RFC 6238, base32 and base64 themselves, and the thirteen introspection tests, those that count
  the calls to the mock server included, whatever the clock shows.
\<close>

lemma server_tests_pass:
  "list_all id
     (config_tests base64_encode base64_decode @ generate_tests rfc_totp_rs @ rate_limit_tests @
      middleware_tests @ introspection_tests t d) \<and>
   list_all (\<lambda>test. fst (run_state test world_init))
     (provisions_a_usable_secret_and_url rfc_totp_rs base32_decode (\<lambda>_. 59) #
      crypto_tests demo_aead @ keycloak_tests t) \<and>
   sends_client_credentials_and_the_token_as_a_form_field t \<and>
   deduplicates_concurrent_introspections_of_the_same_token t \<and>
   does_not_cache_across_sequential_requests t"
proof -
  have "inflight world_init = Map.empty" by (simp add: world_init_def)
  then show ?thesis
    by (simp add: config_tests_pass generate_tests_pass rate_limit_tests_pass middleware_tests_pass
        introspection_tests_pass provision_test_passes crypto_tests_pass keycloak_tests_pass counting_tests_pass)
qed

end
