(* ===== verification/Core_Tests.thy ===== *)
theory Core_Tests
  imports Lock_Controller Rfc6238
begin

text \<open>
  The unit tests of \<^verbatim>\<open>lock-client/core/src\<close>, as functions that say whether the test passes: an
  assertion that fails and a panic are \<open>False\<close>. Tests that call the third-party code generator
  take it as an argument. That the model passes all of them, with RFC 6238 for the generator, is
  a check of the model against the expectations its authors wrote down.
\<close>

section \<open>Tests of \<open>wiegand.rs\<close>\<close>

definition decodes_all_ten_digits :: bool where
  "decodes_all_ten_digits \<longleftrightarrow>
     list_all (\<lambda>d. decode_frame (nibble d) = Frame_Digit d) [0, 1, 2, 3, 4, 5, 6, 7, 8, 9]"

definition decodes_star_as_cancel_and_hash_as_enter :: bool where
  "decodes_star_as_cancel_and_hash_as_enter \<longleftrightarrow>
     decode_frame (nibble 10) = Frame_Cancel \<and> decode_frame (nibble 11) = Frame_Enter"

definition rejects_impossible_nibble_values_instead_of_guessing :: bool where
  "rejects_impossible_nibble_values_instead_of_guessing \<longleftrightarrow>
     decode_frame (nibble 12) = Frame_Unrecognized 4 \<and>
     decode_frame (nibble 15) = Frame_Unrecognized 4"

text \<open>\<open>bits[a..b].copy_from_slice(src)\<close>; it panics when the lengths differ.\<close>

definition copy_from_slice :: "nat \<Rightarrow> nat \<Rightarrow> 'a list \<Rightarrow> 'a list \<Rightarrow> 'a list option" where
  "copy_from_slice a b src bits =
     (if a \<le> b \<and> b \<le> length bits \<and> length src = b - a
      then Some (take a bits @ src @ drop b bits) else None)"

definition decodes_a_26_bit_card_frame :: bool where
  "decodes_a_26_bit_card_frame \<longleftrightarrow>
     (case Option.bind (copy_from_slice 1 9 (bits_msb_first 12 8) (replicate 26 False))
             (copy_from_slice 9 25 (bits_msb_first 3000 16)) of
        None \<Rightarrow> False
      | Some bits \<Rightarrow>
          (case decode_frame bits of
             Frame_Card fc cn \<Rightarrow> fc = 12 \<and> cn = 3000
           | _ \<Rightarrow> False))"

definition reports_unrecognized_lengths_instead_of_guessing :: bool where
  "reports_unrecognized_lengths_instead_of_guessing \<longleftrightarrow>
     decode_frame (replicate 8 True) = Frame_Unrecognized 8 \<and>
     decode_frame [] = Frame_Unrecognized 0"

definition wiegand_tests :: "bool list" where
  "wiegand_tests =
     [decodes_all_ten_digits, decodes_star_as_cancel_and_hash_as_enter,
      rejects_impossible_nibble_values_instead_of_guessing, decodes_a_26_bit_card_frame,
      reports_unrecognized_lengths_instead_of_guessing]"

section \<open>Tests of \<open>pin_entry.rs\<close>\<close>

fun enter_digits_from :: "submission \<Rightarrow> u8 list \<Rightarrow> pin_entry \<Rightarrow> submission \<times> pin_entry" where
  "enter_digits_from prev [] e = (prev, e)"
| "enter_digits_from prev (d # ds) e =
     (let (s, e') = push e (Key_Digit d) in enter_digits_from s ds e')"

definition enter_digits :: "u8 list \<Rightarrow> pin_entry \<Rightarrow> submission \<times> pin_entry" where
  "enter_digits ds e = enter_digits_from Pending ds e"

definition six_digits_then_enter_submits_the_code :: bool where
  "six_digits_then_enter_submits_the_code \<longleftrightarrow>
     (let (_, e1) = enter_digits [1, 2, 3, 4, 5, 6] pin_entry_new in
      fst (push e1 Key_Enter) = Ready [1, 2, 3, 4, 5, 6])"

definition enter_with_too_few_digits_is_ignored_and_clears_the_buffer :: bool where
  "enter_with_too_few_digits_is_ignored_and_clears_the_buffer \<longleftrightarrow>
     (let (_, e1) = enter_digits [1, 2, 3] pin_entry_new;
          (s, e2) = push e1 Key_Enter;
          (result, e3) = enter_digits [9, 9, 9, 9, 9, 9] e2
      in s = Pending \<and> result = Pending \<and> fst (push e3 Key_Enter) = Ready [9, 9, 9, 9, 9, 9])"

definition cancel_clears_a_partial_entry :: bool where
  "cancel_clears_a_partial_entry \<longleftrightarrow>
     (let (_, e1) = enter_digits [1, 2, 3] pin_entry_new;
          (_, e2) = push e1 Key_Cancel;
          (_, e3) = enter_digits [4, 5, 6, 7, 8, 9] e2
      in fst (push e3 Key_Enter) = Ready [4, 5, 6, 7, 8, 9])"

definition a_seventh_digit_restarts_the_attempt_instead_of_being_dropped :: bool where
  "a_seventh_digit_restarts_the_attempt_instead_of_being_dropped \<longleftrightarrow>
     (let (_, e1) = enter_digits [1, 2, 3, 4, 5, 6, 7] pin_entry_new;
          (_, e2) = enter_digits [2, 3, 4, 5, 6] e1
      in fst (push e2 Key_Enter) = Ready [7, 2, 3, 4, 5, 6])"

definition a_submitted_code_does_not_leak_into_the_next_attempt :: bool where
  "a_submitted_code_does_not_leak_into_the_next_attempt \<longleftrightarrow>
     (let (_, e1) = enter_digits [1, 1, 1, 1, 1, 1] pin_entry_new;
          (_, e2) = push e1 Key_Enter;
          (_, e3) = enter_digits [2, 2, 2] e2
      in fst (push e3 Key_Enter) = Pending)"

definition pin_entry_tests :: "bool list" where
  "pin_entry_tests =
     [six_digits_then_enter_submits_the_code,
      enter_with_too_few_digits_is_ignored_and_clears_the_buffer, cancel_clears_a_partial_entry,
      a_seventh_digit_restarts_the_attempt_instead_of_being_dropped,
      a_submitted_code_does_not_leak_into_the_next_attempt]"

section \<open>Tests of \<open>totp.rs\<close>\<close>

text \<open>A call \<open>matches(secret, &digits(code), now, skew)\<close>; \<open>None\<close> is the panic of \<open>digits\<close>.\<close>

definition matches_code :: "totp_fn \<Rightarrow> bytes \<Rightarrow> u32 \<Rightarrow> u64 \<Rightarrow> u8 \<Rightarrow> bool option" where
  "matches_code tc sec code t skew = map_option (\<lambda>ds. matches tc sec ds t skew) (digits code)"

definition matches_the_rfc_6238_test_vector :: "totp_fn \<Rightarrow> bool" where
  "matches_the_rfc_6238_test_vector tc \<longleftrightarrow> matches_code tc rfc_secret 287082 59 0 = Some True"

definition rejects_a_wrong_code :: "totp_fn \<Rightarrow> bool" where
  "rejects_a_wrong_code tc \<longleftrightarrow> matches_code tc rfc_secret 0 59 0 = Some False"

definition zero_skew_rejects_the_adjacent_window :: "totp_fn \<Rightarrow> bool" where
  "zero_skew_rejects_the_adjacent_window tc \<longleftrightarrow>
     (let earlier = ucast (tc 30 6 rfc_secret 0) in
      matches_code tc rfc_secret earlier 59 0 = Some False)"

definition skew_of_one_accepts_the_previous_and_next_window :: "totp_fn \<Rightarrow> bool" where
  "skew_of_one_accepts_the_previous_and_next_window tc \<longleftrightarrow>
     (let earlier = ucast (tc 30 6 rfc_secret 0);
          later = ucast (tc 30 6 rfc_secret 60)
      in matches_code tc rfc_secret earlier 59 1 = Some True \<and>
         matches_code tc rfc_secret later 59 1 = Some True)"

definition skew_of_one_still_rejects_two_windows_away :: "totp_fn \<Rightarrow> bool" where
  "skew_of_one_still_rejects_two_windows_away tc \<longleftrightarrow>
     (let two_away = ucast (tc 30 6 rfc_secret 90) in
      matches_code tc rfc_secret two_away 59 1 = Some False)"

definition a_leading_zero_code_converts_to_the_same_number_as_the_padded_string :: bool where
  "a_leading_zero_code_converts_to_the_same_number_as_the_padded_string \<longleftrightarrow>
     digits_to_value [0, 0, 7, 1, 2, 3] = 7123 \<and>
     map_option digits_to_value (digits 7123) = Some 7123"

definition totp_tests :: "totp_fn \<Rightarrow> bool list" where
  "totp_tests tc =
     [matches_the_rfc_6238_test_vector tc, rejects_a_wrong_code tc,
      zero_skew_rejects_the_adjacent_window tc, skew_of_one_accepts_the_previous_and_next_window tc,
      skew_of_one_still_rejects_two_windows_away tc,
      a_leading_zero_code_converts_to_the_same_number_as_the_padded_string]"

section \<open>Tests of \<open>lock.rs\<close>\<close>

definition fixed_clock :: "u64 clock_trait" where
  "fixed_clock = \<lparr>unix_seconds = (\<lambda>self. self)\<rparr>"

record recording_actuator =
  unlock_calls :: u32
  lock_calls :: u32

definition recording_actuator_trait :: "recording_actuator actuator_trait" where
  "recording_actuator_trait =
     \<lparr>unlock = (\<lambda>self. self\<lparr>unlock_calls := unlock_calls self + 1\<rparr>),
      lock = (\<lambda>self. self\<lparr>lock_calls := lock_calls self + 1\<rparr>)\<rparr>"

text \<open>The state of a test: the last outcome, the controller and the actuator.\<close>

type_synonym lock_test = "outcome \<times> lock_controller \<times> recording_actuator"

definition lock_test :: "bytes \<Rightarrow> u8 \<Rightarrow> lock_test" where
  "lock_test sec skew =
     (Waiting, lock_controller_new sec skew, \<lparr>unlock_calls = 0, lock_calls = 0\<rparr>)"

fun feed :: "totp_fn \<Rightarrow> u64 \<Rightarrow> frame list \<Rightarrow> lock_test \<Rightarrow> lock_test" where
  "feed tc clk [] test = test"
| "feed tc clk (frame # frames) (outcome, controller, actuator) =
     feed tc clk frames
       (on_frame tc fixed_clock recording_actuator_trait controller frame clk actuator)"

text \<open>The loop over \<open>frames_for(code)\<close>; \<open>None\<close> is its failed assertion.\<close>

definition feed_code :: "totp_fn \<Rightarrow> u64 \<Rightarrow> u32 \<Rightarrow> lock_test \<Rightarrow> lock_test option" where
  "feed_code tc clk code test = map_option (\<lambda>frames. feed tc clk frames test) (frames_for code)"

definition unlocks_on_a_correct_code :: "totp_fn \<Rightarrow> bool" where
  "unlocks_on_a_correct_code tc \<longleftrightarrow>
     (let code = ucast (tc 30 6 rfc_secret 59) in
      case feed_code tc 59 code (lock_test rfc_secret 0) of
        None \<Rightarrow> False
      | Some (outcome, controller, actuator) \<Rightarrow>
          outcome = Unlocked \<and> unlock_calls actuator = 1 \<and> lock_calls actuator = 0)"

definition rejects_a_wrong_code_without_unlocking :: "totp_fn \<Rightarrow> bool" where
  "rejects_a_wrong_code_without_unlocking tc \<longleftrightarrow>
     (case feed_code tc 59 0 (lock_test rfc_secret 0) of
        None \<Rightarrow> False
      | Some (outcome, controller, actuator) \<Rightarrow> outcome = Rejected \<and> unlock_calls actuator = 0)"

definition ignores_card_reads_and_garbage_frames :: "totp_fn \<Rightarrow> bool" where
  "ignores_card_reads_and_garbage_frames tc \<longleftrightarrow>
     (let test1 = feed tc 0 [Frame_Card 1 2] (lock_test (map of_char ''secret'') 0);
          test2 = feed tc 0 [Frame_Unrecognized 8] test1
      in fst test1 = Waiting \<and> fst test2 = Waiting \<and> unlock_calls (snd (snd test2)) = 0)"

definition cancel_clears_a_partial_entry_before_a_correct_code :: "totp_fn \<Rightarrow> bool" where
  "cancel_clears_a_partial_entry_before_a_correct_code tc \<longleftrightarrow>
     (let code = ucast (tc 30 6 rfc_secret 59);
          (_, partial) = feed tc 59 [Frame_Digit 9, Frame_Digit 9, Frame_Cancel] (lock_test rfc_secret 0)
      in case feed_code tc 59 code (Waiting, partial) of
           None \<Rightarrow> False
         | Some (outcome, controller, actuator) \<Rightarrow> outcome = Unlocked \<and> unlock_calls actuator = 1)"

definition a_wrong_attempt_does_not_poison_the_next_one :: "totp_fn \<Rightarrow> bool" where
  "a_wrong_attempt_does_not_poison_the_next_one tc \<longleftrightarrow>
     (let code = ucast (tc 30 6 rfc_secret 59) in
      case feed_code tc 59 0 (lock_test rfc_secret 0) of
        None \<Rightarrow> False
      | Some (_, wrong, actuator) \<Rightarrow>
          unlock_calls actuator = 0 \<and>
          (case feed_code tc 59 code (Waiting, wrong, actuator) of
             None \<Rightarrow> False
           | Some (outcome, controller, actuator) \<Rightarrow> outcome = Unlocked \<and> unlock_calls actuator = 1))"

definition honors_configured_skew :: "totp_fn \<Rightarrow> bool" where
  "honors_configured_skew tc \<longleftrightarrow>
     (let previous_window_code = ucast (tc 30 6 rfc_secret 0) in
      case feed_code tc 59 previous_window_code (lock_test rfc_secret 1) of
        None \<Rightarrow> False
      | Some (outcome, controller, actuator) \<Rightarrow> outcome = Unlocked)"

definition lock_tests :: "totp_fn \<Rightarrow> bool list" where
  "lock_tests tc =
     [unlocks_on_a_correct_code tc, rejects_a_wrong_code_without_unlocking tc,
      ignores_card_reads_and_garbage_frames tc,
      cancel_clears_a_partial_entry_before_a_correct_code tc,
      a_wrong_attempt_does_not_poison_the_next_one tc, honors_configured_skew tc]"

section \<open>The codes of the test secret\<close>

lemma rfc_codes:
  "rfc_totp_custom 30 6 rfc_secret 0 = 755224" "rfc_totp_custom 30 6 rfc_secret 29 = 755224"
  "rfc_totp_custom 30 6 rfc_secret 59 = 287082" "rfc_totp_custom 30 6 rfc_secret 60 = 359152"
  "rfc_totp_custom 30 6 rfc_secret 89 = 359152" "rfc_totp_custom 30 6 rfc_secret 90 = 969429"
  by (simp_all add: rfc_totp_custom_def rfc6238_step_0 rfc6238_step_1 rfc6238_step_2 rfc6238_step_3)

lemma card_frame_decoded: decodes_a_26_bit_card_frame
proof -
  have "copy_from_slice 1 9 (bits_msb_first 12 8) (replicate 26 False) =
      Some (False # bits_msb_first 12 8 @ replicate 17 False)"
    by (simp add: copy_from_slice_def take_replicate drop_replicate)
  moreover have "copy_from_slice 9 25 (bits_msb_first 3000 16) (False # bits_msb_first 12 8 @ replicate 17 False) =
      Some (False # bits_msb_first 12 8 @ bits_msb_first 3000 16 @ [False])"
    by (simp add: copy_from_slice_def)
  moreover have "decode_frame (False # bits_msb_first 12 8 @ bits_msb_first 3000 16 @ [False]) = Frame_Card 12 3000"
    using decode_card_roundtrip [of False 12 3000 False] by simp
  ultimately show ?thesis by (simp add: decodes_a_26_bit_card_frame_def)
qed

lemma wiegand_tests_pass: "list_all id wiegand_tests"
  using card_frame_decoded
  by (simp add: wiegand_tests_def decodes_all_ten_digits_def decodes_star_as_cancel_and_hash_as_enter_def
      rejects_impossible_nibble_values_instead_of_guessing_def
      reports_unrecognized_lengths_instead_of_guessing_def decode_frame_nibble)
    (simp add: decode_frame_def)

text \<open>The buffer after a history of keys; \<open>keypad.enter_submits\<close> says what it submits.\<close>

definition after_keys :: "key list \<Rightarrow> pin_entry" where
  "after_keys ks = snd (run_keys push pin_entry_new ks)"

lemma new_after: "pin_entry_new = after_keys []"
  by (simp add: after_keys_def)

lemma push_after: "snd (push (after_keys ks) k) = after_keys (ks @ [k])"
  by (simp add: after_keys_def run_keys_snoc split_beta Let_def)

lemma enter_digits_after:
  "enter_digits ds (after_keys ks) = (Pending, after_keys (ks @ map Key_Digit ds))"
proof -
  have "enter_digits_from Pending ds (after_keys ks) = (Pending, after_keys (ks @ map Key_Digit ds))"
  proof (induction ds arbitrary: ks)
    case (Cons d ds)
    have "push (after_keys ks) (Key_Digit d) = (Pending, after_keys (ks @ [Key_Digit d]))"
      using push_after [of ks "Key_Digit d"] by simp
    then show ?case using Cons [of "ks @ [Key_Digit d]"] by (simp del: push.simps)
  qed simp
  then show ?thesis by (simp add: enter_digits_def)
qed

lemma pin_entry_tests_pass: "list_all id pin_entry_tests"
proof -
  have enter: "fst (push (after_keys ks) Key_Enter) =
      (if attempt ks \<noteq> [] \<and> length (attempt ks) mod PIN_LEN = 0
       then Ready (last_n PIN_LEN (attempt ks)) else Pending)" for ks
    unfolding after_keys_def by (rule keypad.enter_submits)
  show ?thesis
    by (simp add: pin_entry_tests_def six_digits_then_enter_submits_the_code_def
        enter_with_too_few_digits_is_ignored_and_clears_the_buffer_def cancel_clears_a_partial_entry_def
        a_seventh_digit_restarts_the_attempt_instead_of_being_dropped_def
        a_submitted_code_does_not_leak_into_the_next_attempt_def new_after split_beta Let_def
        enter_digits_after enter push_after attempt_def last_n_def PIN_LEN_def del: push.simps)
qed

lemma rfc_matches_0: "matches rfc_totp_custom rfc_secret ds 59 0 \<longleftrightarrow> digits_to_value ds = 287082"
  by (auto simp: matches_def STEP_SECONDS_def DIGITS_def saturating_add_signed_def rfc_codes)

lemma rfc_matches_1:
  "matches rfc_totp_custom rfc_secret ds 59 1 \<longleftrightarrow> digits_to_value ds \<in> {755224, 287082, 359152}"
proof -
  have "[- 1 .. 1 :: int] = [- 1, 0, 1]" by (simp add: upto.simps)
  then show ?thesis
    by (auto simp: matches_def STEP_SECONDS_def DIGITS_def saturating_add_signed_def Let_def rfc_codes)
qed

lemma code_slots:
  "digit_slots 6 0 = [0, 0, 0, 0, 0, 0]" "digit_slots 6 755224 = [7, 5, 5, 2, 2, 4]"
  "digit_slots 6 287082 = [2, 8, 7, 0, 8, 2]" "digit_slots 6 359152 = [3, 5, 9, 1, 5, 2]"
  "digit_slots 6 969429 = [9, 6, 9, 4, 2, 9]"
  by code_simp+

lemma totp_tests_pass: "list_all id (totp_tests rfc_totp_custom)"
proof -
  have "matches_the_rfc_6238_test_vector rfc_totp_custom" "rejects_a_wrong_code rfc_totp_custom"
    "zero_skew_rejects_the_adjacent_window rfc_totp_custom"
    "skew_of_one_accepts_the_previous_and_next_window rfc_totp_custom"
    "skew_of_one_still_rejects_two_windows_away rfc_totp_custom"
    by (simp_all add: matches_the_rfc_6238_test_vector_def rejects_a_wrong_code_def
        zero_skew_rejects_the_adjacent_window_def skew_of_one_accepts_the_previous_and_next_window_def
        skew_of_one_still_rejects_two_windows_away_def matches_code_def digits_def PIN_LEN_def
        code_slots rfc_codes rfc_matches_0 rfc_matches_1 digits_to_value_def)
  moreover have "a_leading_zero_code_converts_to_the_same_number_as_the_padded_string"
    by code_simp
  ultimately show ?thesis by (simp add: totp_tests_def)
qed

lemma empty_buffer: "replicate 6 0 = [0 :: u8, 0, 0, 0, 0, 0]"
  by code_simp

lemmas lock_test_simps =
  lock_test_def empty_buffer feed_code_def frames_for_def code_slots rfc_codes on_frame_def lock_controller_new_def
  pin_entry_new_def reset_def PIN_LEN_def fixed_clock_def recording_actuator_trait_def
  rfc_matches_0 rfc_matches_1 digits_to_value_def Let_def

lemma lock_tests_pass: "list_all id (lock_tests rfc_totp_custom)"
proof -
  have "unlocks_on_a_correct_code rfc_totp_custom"
    by (simp add: unlocks_on_a_correct_code_def lock_test_simps)
  moreover have "rejects_a_wrong_code_without_unlocking rfc_totp_custom"
    by (simp add: rejects_a_wrong_code_without_unlocking_def lock_test_simps)
  moreover have "ignores_card_reads_and_garbage_frames rfc_totp_custom"
    by (simp add: ignores_card_reads_and_garbage_frames_def lock_test_simps)
  moreover have "cancel_clears_a_partial_entry_before_a_correct_code rfc_totp_custom"
    by (simp add: cancel_clears_a_partial_entry_before_a_correct_code_def lock_test_simps)
  moreover have "a_wrong_attempt_does_not_poison_the_next_one rfc_totp_custom"
    by (simp add: a_wrong_attempt_does_not_poison_the_next_one_def lock_test_simps)
  moreover have "honors_configured_skew rfc_totp_custom"
    by (simp add: honors_configured_skew_def lock_test_simps)
  ultimately show ?thesis by (simp add: lock_tests_def)
qed

section \<open>Properties\<close>

text \<open>
  The model passes the repository's own unit tests of the lock's core: with RFC 6238 (HMAC-SHA-1
  evaluated) for the third-party generator, all 22 tests of \<^verbatim>\<open>wiegand.rs\<close>, \<^verbatim>\<open>pin_entry.rs\<close>, \<^verbatim>\<open>totp.rs\<close>
  and \<^verbatim>\<open>lock.rs\<close> succeed, the RFC's test vector among them.
\<close>

lemma core_unit_tests_pass:
  "list_all id
     (wiegand_tests @ pin_entry_tests @ totp_tests rfc_totp_custom @ lock_tests rfc_totp_custom)"
  by (simp only: list_all_append wiegand_tests_pass pin_entry_tests_pass totp_tests_pass lock_tests_pass
      simp_thms)

end
