(* ===== verification/Noninterference.thy ===== *)
theory Noninterference
  imports Interleaving
begin

text \<open>
  What the log and the tables give away. Comments in \<^verbatim>\<open>totp/mod.rs\<close> and \<^verbatim>\<open>crypto.rs\<close> ask that secrets
  are never logged and never stored in the clear. Here this is proved as a property of two runs:
  servers that differ in encryption key, cipher, random secrets and code generator, started on
  databases that differ in the stored ciphertexts, answer the same requests with the same
  statuses and write the same log lines and the same audit rows.
\<close>

section \<open>Programs run side by side\<close>

definition twin ::
  "(world \<Rightarrow> world \<Rightarrow> bool) \<Rightarrow> ('a \<Rightarrow> 'b \<Rightarrow> bool) \<Rightarrow> 'a server \<Rightarrow> 'b server \<Rightarrow> bool" where
  "twin L R m m' \<longleftrightarrow>
     (\<forall>w w'. L w w' \<longrightarrow>
        R (fst (run_state m w)) (fst (run_state m' w')) \<and> L (snd (run_state m w)) (snd (run_state m' w')))"

lemma twin_return: "R a b \<Longrightarrow> twin L R (State_Monad.return a) (State_Monad.return b)"
  by (simp add: twin_def)

lemma twin_bind:
  assumes "twin L R m m'" and "\<And>a b. R a b \<Longrightarrow> twin L S (f a) (g b)"
  shows "twin L S (State_Monad.bind m f) (State_Monad.bind m' g)"
  using assms by (fastforce simp: twin_def split: prod.splits)

text \<open>Results that look alike from outside: the same error, or both successful.\<close>

abbreviation alike :: "('e, 'a) result \<Rightarrow> ('e, 'b) result \<Rightarrow> bool" where
  "alike \<equiv> rel_sum (=) (\<lambda>_ _. True)"

text \<open>
  What the rules ask of a relation between two worlds: time and the log are the same on both
  sides and stay so when both move.
\<close>

locale two_runs =
  fixes L :: "world \<Rightarrow> world \<Rightarrow> bool"
  assumes same_tick: "L w w' \<Longrightarrow> tick w' = tick w"
    and later: "L w w' \<Longrightarrow> L (w\<lparr>tick := n\<rparr>) (w'\<lparr>tick := n\<rparr>)"
    and logged: "L w w' \<Longrightarrow> L (w\<lparr>trace := trace w @ ls\<rparr>) (w'\<lparr>trace := trace w' @ ls\<rparr>)"
begin

lemma twin_draw: "(\<And>t. R (f t) (g t)) \<Longrightarrow> twin L R (draw f) (draw g)"
  using same_tick later by (auto simp: twin_def)

lemma twin_draw_same: "twin L (=) (draw f) (draw f)"
  by (rule twin_draw) simp

lemma twin_emit: "twin L (=) (emit l) (emit l)"
  using logged by (simp add: twin_def)

lemma twin_execute:
  assumes "\<And>t w w'. L w w' \<Longrightarrow>
      R (fst (stmt t w)) (fst (stmt' t w')) \<and> L (snd (stmt t w)) (snd (stmt' t w'))"
    and "\<And>err. R (Inl err) (Inl err)"
  shows "twin L R (execute D stmt) (execute D stmt')"
  unfolding twin_def
proof (intro allI impI)
  fix w w' assume L: "L w w'"
  note tick = same_tick [OF L] and next_tick = later [OF L, of "Suc (tick w)"]
  from assms(1) [OF next_tick, of "pg_now D (tick w)"] next_tick assms(2)
  show "R (fst (run_state (execute D stmt) w)) (fst (run_state (execute D stmt') w')) \<and>
      L (snd (run_state (execute D stmt) w)) (snd (run_state (execute D stmt') w'))"
    by (simp add: run_execute tick Let_def split_beta split: option.splits)
qed

end

section \<open>What is visible\<close>

definition row_times :: "world \<Rightarrow> ustr \<Rightarrow> (nat \<times> nat option) option" where
  "row_times w s = map_option (\<lambda>r. (created_at r, last_used_at r)) (totp_secrets w s)"

text \<open>
  Everything of the state but ciphertexts and nonces is the same; on both sides every stored
  secret can be decrypted.
\<close>

definition visibly_same ::
  "aead \<Rightarrow> secret_store \<Rightarrow> aead \<Rightarrow> secret_store \<Rightarrow> world \<Rightarrow> world \<Rightarrow> bool" where
  "visibly_same A self A' self' w w' \<longleftrightarrow>
     tick w' = tick w \<and> request_log w' = request_log w \<and> inflight w' = inflight w \<and>
     limiter_log w' = limiter_log w \<and> trace w' = trace w \<and> row_times w' = row_times w \<and>
     vault_ok A self w \<and> vault_ok A' self' w'"

lemma row_times_fields [simp]:
  "row_times (w\<lparr>tick := n\<rparr>) = row_times w" "row_times (w\<lparr>trace := ls\<rparr>) = row_times w"
  "row_times (w\<lparr>inflight := m\<rparr>) = row_times w" "row_times (w\<lparr>limiter_log := q\<rparr>) = row_times w"
  "row_times (w\<lparr>request_log := rs\<rparr>) = row_times w"
  by (simp_all add: row_times_def fun_eq_iff)

lemma vault_ok_fields [simp]:
  "vault_ok A self (w\<lparr>trace := ls\<rparr>) = vault_ok A self w"
  "vault_ok A self (w\<lparr>inflight := m\<rparr>) = vault_ok A self w"
  "vault_ok A self (w\<lparr>limiter_log := q\<rparr>) = vault_ok A self w"
  "vault_ok A self (w\<lparr>request_log := rs\<rparr>) = vault_ok A self w"
  by (simp_all add: vault_ok_def)

interpretation low: two_runs "visibly_same A self A' self'" for A self A' self'
  by unfold_locales (auto simp: visibly_same_def)

lemma row_times_eq_None: "row_times w' = row_times w \<Longrightarrow> totp_secrets w' s = None \<longleftrightarrow> totp_secrets w s = None"
  by (metis option.map_disc_iff row_times_def)

section \<open>Each operation\<close>

lemma row_times_touch:
  "row_times (snd (update_last_used s t w)) =
     (row_times w)(s := map_option (\<lambda>(c, u). (c, Some t)) (row_times w s))"
  by (auto simp: update_last_used_def row_times_def fun_eq_iff split: option.splits)

lemma row_times_upsert:
  "row_times (snd (upsert_secret s ct n t w)) = (row_times w)(s \<mapsto> (t, None))"
  by (auto simp: upsert_secret_def row_times_def fun_eq_iff split: option.splits)

lemma statement_limiter [simp]:
  "limiter_log (snd (update_last_used s t w)) = limiter_log w"
  "limiter_log (snd (upsert_secret s ct n t w)) = limiter_log w"
  by (simp_all add: update_last_used_def upsert_secret_def split: option.splits)

lemma twin_touch:
  "twin (visibly_same A self A' self') (=) (touch_last_used D st s) (touch_last_used D st' s)"
proof -
  have "twin (visibly_same A self A' self') (=) (execute D (update_last_used s)) (execute D (update_last_used s))"
    by (rule low.twin_execute) (simp_all add: visibly_same_def row_times_touch vault_touch,
      simp add: update_last_used_def)
  then show ?thesis
    unfolding touch_last_used_def by (rule twin_bind) (auto intro: twin_return)
qed

lemma twin_select:
  "twin (visibly_same A self A' self')
     (rel_sum (=) (rel_option (\<lambda>(ct, n) (ct', n').
        (\<exists>p. decrypt A (crypto_of self) ct n = Inr p) \<and> (\<exists>p. decrypt A' (crypto_of self') ct' n' = Inr p))))
     (execute D (select_secret s)) (execute D (select_secret s))"
proof (rule low.twin_execute)
  fix t w w' assume L: "visibly_same A self A' self' w w'"
  then have "totp_secrets w' s = None \<longleftrightarrow> totp_secrets w s = None"
    by (intro row_times_eq_None) (simp add: visibly_same_def)
  with L show "rel_sum (=) (rel_option (\<lambda>(ct, n) (ct', n').
        (\<exists>p. decrypt A (crypto_of self) ct n = Inr p) \<and> (\<exists>p. decrypt A' (crypto_of self') ct' n' = Inr p)))
      (fst (select_secret s t w)) (fst (select_secret s t w')) \<and>
      visibly_same A self A' self' (snd (select_secret s t w)) (snd (select_secret s t w'))"
    by (cases "totp_secrets w s"; cases "totp_secrets w' s")
      (auto simp: select_secret_def visibly_same_def vault_ok_def row_secret_Some)
qed simp

lemma twin_secret_get:
  "twin (visibly_same A self A' self') (rel_sum (=) (rel_option (\<lambda>_ _. True)))
     (secret_get A D self s) (secret_get A' D self' s)"
  unfolding secret_get_def
  by (rule twin_bind [OF twin_select], rule twin_return)
    (auto elim!: rel_sum.cases option.rel_cases split: prod.splits)

text \<open>The cipher fails on both sides or on neither.\<close>

definition seal_alike :: "aead \<Rightarrow> secret_store \<Rightarrow> aead \<Rightarrow> secret_store \<Rightarrow> bool" where
  "seal_alike A self A' self' \<longleftrightarrow>
     (\<forall>n p n' p'. seal A (cipher_key (crypto_of self)) n p = None \<longleftrightarrow>
        seal A' (cipher_key (crypto_of self')) n' p' = None)"

lemma twin_encrypt:
  assumes "seal_alike A self A' self'"
  shows "twin (visibly_same A self A' self')
     (rel_sum (=) (\<lambda>(ct, n) (ct', n').
        decrypt A (crypto_of self) ct n = Inr p \<and> decrypt A' (crypto_of self') ct' n' = Inr p'))
     (encrypt A (crypto_of self) p) (encrypt A' (crypto_of self') p')" (is "twin ?L ?R _ _")
  unfolding twin_def
proof (intro allI impI)
  fix w w' assume L: "?L w w'"
  then have laws: "aead_laws A" "aead_laws A'" and tick: "tick w' = tick w"
    by (simp_all add: visibly_same_def vault_ok_def)
  have alike: "seal A (cipher_key (crypto_of self)) (gen_nonce A (tick w)) p = None \<longleftrightarrow>
      seal A' (cipher_key (crypto_of self')) (gen_nonce A' (tick w')) p' = None"
    using assms unfolding seal_alike_def by blast
  have "?R (fst (run_state (encrypt A (crypto_of self) p) w))
      (fst (run_state (encrypt A' (crypto_of self') p') w'))"
    using alike decrypt_encrypt [OF laws(1), of "crypto_of self" p w]
      decrypt_encrypt [OF laws(2), of "crypto_of self'" p' w']
    by (cases "seal A (cipher_key (crypto_of self)) (gen_nonce A (tick w)) p";
        cases "seal A' (cipher_key (crypto_of self')) (gen_nonce A' (tick w')) p'")
      (auto simp: run_encrypt)
  with L show "?R (fst (run_state (encrypt A (crypto_of self) p) w))
      (fst (run_state (encrypt A' (crypto_of self') p') w')) \<and>
      ?L (snd (run_state (encrypt A (crypto_of self) p) w)) (snd (run_state (encrypt A' (crypto_of self') p') w'))"
    by (simp add: run_encrypt visibly_same_def)
qed

lemma twin_upsert_row:
  assumes "decrypt A (crypto_of self) ct n = Inr p" and "decrypt A' (crypto_of self') ct' n' = Inr p'"
  shows "twin (visibly_same A self A' self') (=) (execute D (upsert_secret s ct n)) (execute D (upsert_secret s ct' n'))"
  by (rule low.twin_execute)
    (auto simp: visibly_same_def row_times_upsert vault_upsert(2) [OF assms(1)] vault_upsert(2) [OF assms(2)],
      simp add: upsert_secret_def)

text \<open>What the generator is built from.\<close>

definition builder_for :: "bytes \<Rightarrow> ustr \<Rightarrow> totp_builder" where
  "builder_for secret account =
     \<lparr>b_algorithm = ALGORITHM, b_digits = SERVER_DIGITS, b_step_duration = SERVER_STEP_SECONDS,
      b_secret = secret, b_issuer = Some ISSUER, b_account_name = account\<rparr>"

text \<open>
  The libraries fail on both sides or on neither, and the text of an error does not tell the
  secret.
\<close>

definition generators_alike :: "totp_rs \<Rightarrow> totp_rs \<Rightarrow> bool" where
  "generators_alike T T' \<longleftrightarrow>
     (\<forall>s s' a. alike (builder_build T (builder_for s a)) (builder_build T' (builder_for s' a)) \<and>
        (\<forall>b b'. builder_build T (builder_for s a) = Inr b \<longrightarrow>
           builder_build T' (builder_for s' a) = Inr b' \<longrightarrow> alike (totp_to_url T b) (totp_to_url T' b')))"

text \<open>Two servers that differ in nothing but what handles secrets.\<close>

definition same_but_secrets :: "externals \<Rightarrow> app_state \<Rightarrow> externals \<Rightarrow> app_state \<Rightarrow> bool" where
  "same_but_secrets X st X' st' \<longleftrightarrow>
     db X' = db X \<and> keycloak X' = keycloak X \<and> governor X' = governor X \<and>
     system_time X' = system_time X \<and> missing_extension X' = missing_extension X \<and>
     introspection st' = introspection st \<and>
     (\<exists>k. app_config st' = (app_config st)\<lparr>encryption_key := k\<rparr>) \<and>
     seal_alike (aead X) (secrets st) (aead X') (secrets st') \<and>
     generators_alike (totp_rs X) (totp_rs X')"

abbreviation low where
  "low X st X' st' \<equiv> visibly_same (aead X) (secrets st) (aead X') (secrets st')"

lemma generator_alike:
  "generators_alike T T' \<Longrightarrow> alike (generator T s a) (generator T' s' a)"
  unfolding generators_alike_def generator_def builder_for_def [symmetric]
  by (drule spec [of _ s], drule spec [of _ s'], drule spec [of _ a]) (auto elim!: rel_sum.cases)

lemma generate_at_alike:
  assumes "generators_alike T T'"
  shows "alike (generate_at T s t) (generate_at T' s' t)"
  using generator_alike [OF assms, of s "lit ''user''" s'] unfolding generate_at_def
  by (auto elim!: rel_sum.cases)

lemma twin_totp_provision:
  assumes "generators_alike T T'"
  shows "twin (visibly_same A self A' self') alike (totp_provision T a) (totp_provision T' a)"
  unfolding totp_provision_def
proof (rule twin_bind [where R = "\<lambda>_ _. True"], rule low.twin_draw, simp, rule twin_return)
  fix s s' :: bytes
  from assms have "alike (builder_build T (builder_for s a)) (builder_build T' (builder_for s' a)) \<and>
      (\<forall>b b'. builder_build T (builder_for s a) = Inr b \<longrightarrow>
         builder_build T' (builder_for s' a) = Inr b' \<longrightarrow> alike (totp_to_url T b) (totp_to_url T' b'))"
    unfolding generators_alike_def by blast
  then show "alike
      (and_then (generator T s a) (\<lambda>totp.
        and_then (map_err (\<lambda>e. Internal (Msg (lit ''could not build the otpauth URL: '' @ e)))
          (totp_to_url T totp)) (\<lambda>url.
        Inr \<lparr>raw = s, secret_base32 = secret_to_base32 T s, otpauth_url = url\<rparr>)))
      (and_then (generator T' s' a) (\<lambda>totp.
        and_then (map_err (\<lambda>e. Internal (Msg (lit ''could not build the otpauth URL: '' @ e)))
          (totp_to_url T' totp)) (\<lambda>url.
        Inr \<lparr>raw = s', secret_base32 = secret_to_base32 T' s', otpauth_url = url\<rparr>)))"
    unfolding generator_def builder_for_def [symmetric]
    by (cases "builder_build T (builder_for s a)"; cases "builder_build T' (builder_for s' a)")
      (auto elim!: rel_sum.cases)
qed

section \<open>Tasks side by side\<close>

text \<open>
  Two tasks that hold the same guards, send the same messages and wait on the same channels, and
  whose steps keep the relation between the two worlds.
\<close>

inductive twin_task ::
  "(world \<Rightarrow> world \<Rightarrow> bool) \<Rightarrow> ('a \<Rightarrow> 'b \<Rightarrow> bool) \<Rightarrow> 'a task \<Rightarrow> 'b task \<Rightarrow> bool"
  for L :: "world \<Rightarrow> world \<Rightarrow> bool" and R :: "'a \<Rightarrow> 'b \<Rightarrow> bool" where
  Done: "R a b \<Longrightarrow> twin_task L R (Done a) (Done b)"
| Step: "(\<And>w w'. L w w' \<Longrightarrow> twin_task L R (fst (g w)) (fst (g' w'))) \<Longrightarrow>
     (\<And>w w'. L w w' \<Longrightarrow> L (snd (g w)) (snd (g' w'))) \<Longrightarrow> twin_task L R (Step h g) (Step h g')"
| Publish: "twin_task L R t t' \<Longrightarrow> twin_task L R (Publish h key out t) (Publish h key out t')"
| Await: "(\<And>r. twin_task L R (f r) (f' r)) \<Longrightarrow> twin_task L R (Await h key rx f) (Await h key rx f')"

inductive_cases twin_DoneE: "twin_task L R (Done a) t'"
inductive_cases twin_StepE: "twin_task L R (Step h g) t'"
inductive_cases twin_PublishE: "twin_task L R (Publish h key out t) t'"
inductive_cases twin_AwaitE: "twin_task L R (Await h key rx f) t'"

lemma twin_held: "twin_task L R t t' \<Longrightarrow> held t' = held t"
  by (erule twin_task.cases) simp_all

lemma twin_tbind:
  assumes "twin_task L R t t'" and "\<And>a b. R a b \<Longrightarrow> twin_task L S (f a) (f' b)"
  shows "twin_task L S (tbind t f) (tbind t' f')"
  using assms(1) by induction (auto intro!: twin_task.intros assms(2))

lemma twin_guarded: "twin_task L R t t' \<Longrightarrow> twin_task L R (guarded key t) (guarded key t')"
  by (induction rule: twin_task.induct) (auto intro!: twin_task.intros)

lemma twin_atomically: "twin L R m m' \<Longrightarrow> twin_task L R (atomically m) (atomically m')"
  unfolding atomically_def twin_def by (auto intro!: twin_task.intros)

text \<open>The rule for one atomic operation after another.\<close>

lemma twin_then:
  assumes "twin L R m m'" and "\<And>a b. R a b \<Longrightarrow> twin_task L S (f a) (f' b)"
  shows "twin_task L S (tbind (atomically m) f) (tbind (atomically m') f')"
  by (rule twin_tbind [OF twin_atomically [OF assms(1)] assms(2)])

lemma twin_channel:
  "twin_task L (=) (send_outcome key out) (send_outcome key out)"
  "twin_task L (=) (recv_outcome key rx) (recv_outcome key rx)"
  by (auto simp: send_outcome_def recv_outcome_def intro!: twin_task.intros)

lemma twin_log_request:
  "twin_task (visibly_same A self A' self') (=) (log_request_task D st s r) (log_request_task D st' s r)"
proof -
  have "twin (visibly_same A self A' self') (=) (execute D (insert_log u s res)) (execute D (insert_log u s res))"
    for u res
    by (rule low.twin_execute) (auto simp: visibly_same_def insert_log_def)
  then show ?thesis
    unfolding log_request_task_def
    by (intro twin_then [OF low.twin_draw_same])
      (auto intro!: twin_then twin_atomically low.twin_emit twin_task.Done split: sum.splits)
qed

lemma twin_upsert:
  assumes "seal_alike A self A' self'"
  shows "twin_task (visibly_same A self A' self') (=)
     (secret_upsert_task A D self s p) (secret_upsert_task A' D self' s p')"
  unfolding secret_upsert_task_def
  by (rule twin_then [OF twin_encrypt [OF assms]])
    (auto elim!: rel_sum.cases intro!: twin_then [OF twin_upsert_row] twin_task.Done)

section \<open>The handlers\<close>

text \<open>Handlers that agree up to the body of a success.\<close>

abbreviation same_verdict where
  "same_verdict \<equiv> rel_option alike"

text \<open>What is left to do once the PIN is computed.\<close>

lemma twin_hand_out:
  "twin_task (visibly_same A self A' self') same_verdict
      (tbind (atomically (touch_last_used D st s)) (\<lambda>touched.
         case touched of
           Inl e \<Rightarrow> Done (Some (Inl e))
         | Inr _ \<Rightarrow> tbind (log_request_task D st subj res) (\<lambda>_. tbind (atomically (emit l)) (\<lambda>_. Done (Some (Inr j))))))
      (tbind (atomically (touch_last_used D st' s)) (\<lambda>touched.
         case touched of
           Inl e \<Rightarrow> Done (Some (Inl e))
         | Inr _ \<Rightarrow> tbind (log_request_task D st' subj res) (\<lambda>_. tbind (atomically (emit l)) (\<lambda>_. Done (Some (Inr j'))))))"
  by (rule twin_then [OF twin_touch])
    (auto intro!: twin_task.Done twin_tbind [OF twin_log_request] twin_then [OF low.twin_emit] split: sum.splits)

lemma twin_issue_pin:
  assumes "same_but_secrets X st X' st'"
  shows "twin_task (low X st X' st') same_verdict (issue_pin_task X st user s) (issue_pin_task X' st' user s')"
proof -
  have eqs: "db X' = db X" "system_time X' = system_time X" and gens: "generators_alike (totp_rs X) (totp_rs X')"
    using assms by (simp_all add: same_but_secrets_def)
  have gen: "rel_option alike (generate (totp_rs X) t s) (generate (totp_rs X') t s')" for t
    using generate_at_alike [OF gens] by (simp add: generate_def option.rel_map option.rel_refl)
  show ?thesis
    unfolding issue_pin_task_def eqs
    apply (rule twin_then [OF low.twin_draw_same])
    subgoal for t t'
      using gen [of t] by (auto elim!: option.rel_cases rel_sum.cases intro!: twin_task.Done twin_hand_out)
    done
qed

lemma twin_request_pin:
  assumes "same_but_secrets X st X' st'"
  shows "twin_task (low X st X' st') same_verdict (request_pin_task X st user) (request_pin_task X' st' user)"
proof -
  have db: "db X' = db X" using assms by (simp add: same_but_secrets_def)
  show ?thesis
    unfolding request_pin_task_def db
    by (rule twin_then [OF twin_secret_get])
      (auto elim!: rel_sum.cases option.rel_cases
        intro!: twin_task.Done twin_tbind [OF twin_log_request] twin_issue_pin [OF assms])
qed

lemma twin_provision:
  assumes "same_but_secrets X st X' st'"
  shows "twin_task (low X st X' st') same_verdict (provision_task X st admin payload) (provision_task X' st' admin payload)"
proof -
  have db: "db X' = db X" and role: "admin_role (app_config st') = admin_role (app_config st)"
    and seals: "seal_alike (aead X) (secrets st) (aead X') (secrets st')"
    and gens: "generators_alike (totp_rs X) (totp_rs X')"
    using assms by (auto simp: same_but_secrets_def)
  have stored: "twin_task (low X st X' st') same_verdict
      (tbind (secret_upsert_task (aead X) (db X) (secrets st) subj p) (\<lambda>stored. case stored of
           Inl e \<Rightarrow> Done (Some (Inl e))
         | Inr _ \<Rightarrow>
             tbind (log_request_task (db X) (secrets st) (Some subj) Provisioned) (\<lambda>_.
             tbind (atomically (emit (provisioned_line subj (subject admin)))) (\<lambda>_. Done (Some (Inr j))))))
      (tbind (secret_upsert_task (aead X') (db X) (secrets st') subj p') (\<lambda>stored. case stored of
           Inl e \<Rightarrow> Done (Some (Inl e))
         | Inr _ \<Rightarrow>
             tbind (log_request_task (db X) (secrets st') (Some subj) Provisioned) (\<lambda>_.
             tbind (atomically (emit (provisioned_line subj (subject admin)))) (\<lambda>_. Done (Some (Inr j'))))))" for subj p p' j j'
    by (rule twin_tbind [OF twin_upsert [OF seals]])
      (auto intro!: twin_task.Done twin_tbind [OF twin_log_request] twin_then [OF low.twin_emit] split: sum.splits)
  show ?thesis
    unfolding provision_task_def db role Let_def
    by (auto intro!: twin_task.Done twin_then [OF low.twin_emit] twin_then [OF twin_totp_provision [OF gens]]
        stored elim!: rel_sum.cases)
qed

text \<open>Responses with the same status, and the same body unless it is a success.\<close>

definition same_status :: "response \<Rightarrow> response \<Rightarrow> bool" where
  "same_status r r' \<longleftrightarrow> status r' = status r \<and> (status r \<noteq> 200 \<longrightarrow> r' = r)"

lemma same_status_refl [simp]: "same_status r r"
  by (simp add: same_status_def)

lemma twin_reply_error:
  "twin_task (visibly_same A self A' self') (rel_option same_status) (reply_error_task e) (reply_error_task e)"
  unfolding reply_error_task_def by (auto intro!: twin_then [OF low.twin_emit] twin_task.Done)

lemma twin_respond:
  "same_verdict r r' \<Longrightarrow> twin_task (visibly_same A self A' self') (rel_option same_status) (respond_task r) (respond_task r')"
  by (auto elim!: option.rel_cases rel_sum.cases intro!: twin_task.Done twin_reply_error simp: same_status_def)

lemma twin_services:
  assumes "same_but_secrets X st X' st'"
  shows "twin_task (low X st X' st') (rel_option same_status)
      (request_pin_task_service X st req) (request_pin_task_service X' st' req)"
    and "twin_task (low X st X' st') (rel_option same_status)
      (provision_task_service X st req) (provision_task_service X' st' req)"
proof -
  have missing: "missing_extension X' = missing_extension X"
    using assms by (simp add: same_but_secrets_def)
  show "twin_task (low X st X' st') (rel_option same_status)
      (request_pin_task_service X st req) (request_pin_task_service X' st' req)"
    unfolding request_pin_task_service_def missing
    by (auto intro!: twin_task.Done twin_tbind [OF twin_request_pin [OF assms]] twin_respond split: option.splits)
  show "twin_task (low X st X' st') (rel_option same_status)
      (provision_task_service X st req) (provision_task_service X' st' req)"
    unfolding provision_task_service_def missing
    by (auto intro!: twin_task.Done twin_tbind [OF twin_provision [OF assms]] twin_respond
        split: option.splits sum.splits)
qed

section \<open>The layers\<close>

lemma twin_inflight:
  "twin (visibly_same A self A' self') (=) (join_or_lead k) (join_or_lead k)"
  "twin (visibly_same A self A' self') (=) (drop_guard k) (drop_guard k)"
  by (auto simp: twin_def join_or_lead_def drop_guard_def visibly_same_def split: option.splits)

lemma twin_call: "twin_task (visibly_same A self A' self') (=) (call_task K c tok) (call_task K c tok)"
  unfolding call_task_def
  by (auto intro!: twin_then [OF low.twin_draw_same] twin_task.Done split: sum.splits)

lemma twin_authenticate:
  "twin_task (visibly_same A self A' self') (=) (authenticate_task K c tok) (authenticate_task K c tok)"
proof -
  have "twin_task (visibly_same A self A' self') (=) (introspect_task K c tok) (introspect_task K c tok)"
    unfolding introspect_task_def Let_def
    by (auto intro!: twin_then [OF twin_inflight(1)] twin_then [OF twin_inflight(2)] twin_guarded
        twin_tbind [OF twin_channel(1)] twin_tbind [OF twin_channel(2)] twin_tbind [OF twin_call] twin_call
        twin_task.Done split: option.splits)
  then show ?thesis unfolding authenticate_task_def by (rule twin_tbind) (auto intro!: twin_task.Done)
qed

lemma twin_limiter:
  "twin (visibly_same A self A' self') (=) (limiter_check G g k) (limiter_check G g k)"
  by (auto simp: twin_def limiter_check_def visibly_same_def)

lemma twin_governor_layer:
  assumes "twin_task (visibly_same A self A' self') (rel_option same_status) (h req) (h' req)"
  shows "twin_task (visibly_same A self A' self') (rel_option same_status)
     (governor_layer_task G g h req) (governor_layer_task G g h' req)"
  unfolding governor_layer_task_def
  by (auto intro!: twin_task.Done twin_then [OF twin_limiter] assms split: sum.splits)

lemma twin_audit_rate_limited:
  assumes "db X' = db X"
    and "twin_task (visibly_same A self A' self') (rel_option same_status) (h req) (h' req)"
  shows "twin_task (visibly_same A self A' self') (rel_option same_status)
     (audit_rate_limited_task X st h req) (audit_rate_limited_task X' st' h' req)"
  unfolding audit_rate_limited_task_def Let_def assms(1)
  by (rule twin_tbind [OF assms(2)])
    (auto elim!: option.rel_cases intro!: twin_task.Done twin_then [OF low.twin_emit] twin_tbind [OF twin_log_request]
      simp: same_status_def)

lemma twin_require_authentication:
  assumes "db X' = db X" and "keycloak X' = keycloak X" and "introspection st' = introspection st"
    and "\<And>req. twin_task (visibly_same A self A' self') (rel_option same_status) (h req) (h' req)"
  shows "twin_task (visibly_same A self A' self') (rel_option same_status)
     (require_authentication_task X st h req) (require_authentication_task X' st' h' req)"
  unfolding require_authentication_task_def assms(1-3)
  by (auto intro!: twin_tbind [OF twin_log_request] twin_tbind [OF twin_authenticate] twin_then [OF low.twin_emit]
      twin_reply_error assms(4) split: option.splits sum.splits)

lemma twin_protected:
  assumes "same_but_secrets X st X' st'"
    and "\<And>req. twin_task (low X st X' st') (rel_option same_status) (h req) (h' req)"
  shows "twin_task (low X st X' st') (rel_option same_status)
     (protected_task X st g h req) (protected_task X' st' g h' req)"
proof -
  have eqs: "db X' = db X" "keycloak X' = keycloak X" "introspection st' = introspection st"
      "governor X' = governor X"
    using assms(1) by (simp_all add: same_but_secrets_def)
  show ?thesis
    unfolding protected_task_def eqs(4)
    by (intro twin_require_authentication eqs twin_audit_rate_limited twin_governor_layer assms(2))
qed

lemma twin_routes:
  assumes "same_but_secrets X st X' st'"
  shows "twin_task (low X st X' st') (rel_option same_status) (task_routes X st g route req) (task_routes X' st' g route req)"
  by (cases route) (auto simp: task_routes_def same_status_def
      intro!: twin_task.Done twin_protected [OF assms] twin_services [OF assms])

section \<open>Servers side by side\<close>

text \<open>A request served by both: the same route and request, and alike in what is left to do.\<close>

definition twin_job :: "(world \<Rightarrow> world \<Rightarrow> bool) \<Rightarrow> job \<Rightarrow> job \<Rightarrow> bool" where
  "twin_job L j j' \<longleftrightarrow> job_route j' = job_route j \<and> job_request j' = job_request j \<and>
     L (arrived j) (arrived j') \<and> twin_task L (rel_option same_status) (left j) (left j')"

text \<open>
  Two servers whose tasks for a request go side by side: every run of the one is matched step by
  step by a run of the other.
\<close>

locale two_servers = two_runs L for L +
  fixes serve serve' :: "route \<Rightarrow> task_service"
  assumes same_flights: "L w w' \<Longrightarrow> inflight w' = inflight w"
    and released: "L w w' \<Longrightarrow> L (release h w) (release h w')"
    and twin_serve: "L w w' \<Longrightarrow> twin_task L (rel_option same_status) (serve route req) (serve' route req)"
begin

lemma twin_go_on:
  "twin_job L j j' \<Longrightarrow> twin_task L (rel_option same_status) t t' \<Longrightarrow> twin_job L (j\<lparr>left := t\<rparr>) (j'\<lparr>left := t'\<rparr>)"
  by (simp add: twin_job_def)

lemma twin_hand_over: "twin_job L j j' \<Longrightarrow> twin_job L (hand_over key tx out j) (hand_over key tx out j')"
proof -
  assume j: "twin_job L j j'"
  then have "twin_task L (rel_option same_status) (left j) (left j')" by (simp add: twin_job_def)
  then show ?thesis
    by cases (use j in \<open>auto simp: hand_over_def intro: twin_go_on\<close>)
qed

text \<open>That the other server makes the step as well.\<close>

definition matched :: "job list \<times> world \<Rightarrow> job list \<times> world \<Rightarrow> bool" where
  "matched s s' \<longleftrightarrow> list_all2 (twin_job L) (fst s) (fst s') \<and> L (snd s) (snd s')"

lemma matched_at:
  assumes "matched (jobs, w) (jobs', w')" and "i < length jobs"
  shows "i < length jobs'" and "twin_job L (jobs ! i) (jobs' ! i)"
    and "twin_task L (rel_option same_status) (left (jobs ! i)) (left (jobs' ! i))"
proof -
  have jobs: "list_all2 (twin_job L) jobs jobs'" using assms(1) by (simp add: matched_def)
  then show "i < length jobs'" using assms(2) by (simp add: list_all2_lengthD)
  show "twin_job L (jobs ! i) (jobs' ! i)" by (rule list_all2_nthD [OF jobs assms(2)])
  then show "twin_task L (rel_option same_status) (left (jobs ! i)) (left (jobs' ! i))" by (simp add: twin_job_def)
qed

lemma matched_update:
  assumes "matched (jobs, w) (jobs', w')" and "i < length jobs" and "twin_task L (rel_option same_status) t t'" and "L v v'"
  shows "matched (jobs[i := (jobs ! i)\<lparr>left := t\<rparr>], v) (jobs'[i := (jobs' ! i)\<lparr>left := t'\<rparr>], v')"
  using assms matched_at(2) [OF assms(1,2)]
  by (auto simp: matched_def intro!: list_all2_update_cong twin_go_on)

lemma publish_matched:
  assumes m: "matched (jobs, w) (jobs', w')" and i: "i < length jobs" and "left (jobs ! i) = Publish h key out t"
  shows "\<exists>s'. serving_step serve' (jobs', w') s' \<and>
    matched ((map (hand_over key (inflight w key) out) jobs)[i := (jobs ! i)\<lparr>left := t\<rparr>], w) s'"
proof -
  have L: "L w w'" and jobs: "list_all2 (twin_job L) jobs jobs'" using m by (simp_all add: matched_def)
  obtain t' where t': "left (jobs' ! i) = Publish h key out t'" "twin_task L (rel_option same_status) t t'"
    using matched_at(3) [OF m i, unfolded assms(3)] by (elim twin_PublishE) auto
  let ?send = "map (hand_over key (inflight w key) out)"
  have "list_all2 (twin_job L) (?send jobs) (?send jobs')"
    using jobs by (auto simp: list.rel_map intro: list_all2_mono twin_hand_over)
  then have "list_all2 (twin_job L) ((?send jobs)[i := (jobs ! i)\<lparr>left := t\<rparr>]) ((?send jobs')[i := (jobs' ! i)\<lparr>left := t'\<rparr>])"
    by (intro list_all2_update_cong twin_go_on matched_at(2) [OF m i] t'(2))
  moreover have "serving_step serve' (jobs', w') ((?send jobs')[i := (jobs' ! i)\<lparr>left := t'\<rparr>], w')"
    using serving_step.publish [OF matched_at(1) [OF m i] t'(1), of serve' w'] same_flights [OF L] by simp
  ultimately show ?thesis using L by (auto simp: matched_def)
qed

lemma disconnect_matched:
  assumes m: "matched (jobs, w) (jobs', w')" and i: "i < length jobs" and "\<forall>r. left (jobs ! i) \<noteq> Done r"
  shows "\<exists>s'. serving_step serve' (jobs', w') s' \<and>
    matched (take i jobs @ drop (Suc i) jobs, release (held (left (jobs ! i))) w) s'"
proof -
  note t = matched_at(3) [OF m i]
  have "\<forall>r. left (jobs' ! i) \<noteq> Done r" using t assms(3) by (auto elim: twin_task.cases)
  from serving_step.disconnect [OF matched_at(1) [OF m i] this, of serve' w'] m released twin_held [OF t] show ?thesis
    by (auto simp: matched_def intro!: exI list_all2_appendI list_all2_takeI list_all2_dropI)
qed

lemma step_matched:
  assumes "serving_step serve s s1" and m: "matched s s'"
  shows "\<exists>s1'. serving_step serve' s' s1' \<and> matched s1 s1'"
proof -
  obtain jobs' w' where s': "s' = (jobs', w')" by fastforce
  from assms(1) show ?thesis
  proof cases
    case (arrive jobs w route req)
    then have L: "L w w'" using m by (simp add: matched_def s')
    have "twin_job L \<lparr>job_route = route, job_request = req, arrived = w, left = serve route req\<rparr>
        \<lparr>job_route = route, job_request = req, arrived = w', left = serve' route req\<rparr>"
      using L twin_serve [OF L] by (simp add: twin_job_def)
    with arrive m serving_step.arrive [of serve' jobs' w' route req] show ?thesis
      by (auto simp: s' matched_def intro!: exI list_all2_appendI)
  next
    case (progress i jobs h g w t w1)
    note m = m [unfolded progress(1) s']
    have L: "L w w'" using m by (simp add: matched_def)
    obtain g' where g': "left (jobs' ! i) = Step h g'" "twin_task L (rel_option same_status) (fst (g w)) (fst (g' w'))"
        "L (snd (g w)) (snd (g' w'))"
      using matched_at(3) [OF m progress(3), unfolded progress(4)] L by (elim twin_StepE) auto
    have "serving_step serve' (jobs', w') (jobs'[i := (jobs' ! i)\<lparr>left := fst (g' w')\<rparr>], snd (g' w'))"
      by (rule serving_step.progress [OF matched_at(1) [OF m progress(3)] g'(1)]) simp
    with matched_update [OF m progress(3) g'(2,3)] progress(2,5) show ?thesis unfolding s' by auto
  next
    case (publish i jobs h key out t w)
    with publish_matched [of jobs w jobs' w' i h key out t] m show ?thesis by (simp add: s')
  next
    case (closed i jobs h key rx f w)
    note m = m [unfolded closed(1) s']
    have L: "L w w'" using m by (simp add: matched_def)
    obtain f' where f': "left (jobs' ! i) = Await h key rx f'" "twin_task L (rel_option same_status) (f None) (f' None)"
      using matched_at(3) [OF m closed(3), unfolded closed(4)] by (elim twin_AwaitE) auto
    have "serving_step serve' (jobs', w') (jobs'[i := (jobs' ! i)\<lparr>left := f' None\<rparr>], w')"
      by (rule serving_step.closed [OF matched_at(1) [OF m closed(3)] f'(1)]) (use closed(5) same_flights [OF L] in simp)
    with matched_update [OF m closed(3) f'(2) L] closed(2) show ?thesis unfolding s' by blast
  next
    case (disconnect i jobs w)
    with disconnect_matched [of jobs w jobs' w' i] m show ?thesis by (simp add: s')
  qed
qed

lemma run_matched:
  assumes "serving_run serve ([], w0) ws s" and "L w0 w0'"
  shows "\<exists>ws' s'. serving_run serve' ([], w0') ws' s' \<and> list_all2 L ws ws' \<and> matched s s'"
  using assms(1)
proof (induction rule: serving_run.induct)
  case start
  show ?case using assms(2) serving_run.start [of serve' "([], w0')"]
    by (intro exI [of _ "[w0']"] exI [of _ "([], w0')"]) (simp add: matched_def)
next
  case (step ws s1 s2)
  then obtain ws' s1' where m: "serving_run serve' ([], w0') ws' s1'" "list_all2 L ws ws'" "matched s1 s1'"
    by blast
  obtain s2' where s2': "serving_step serve' s1' s2'" "matched s2 s2'"
    using step_matched [OF step.hyps(2) m(3)] by blast
  with m(2) serving_run.step [OF m(1)] show ?case
    by (intro exI [of _ "ws' @ [snd s2']"] exI [of _ s2']) (simp add: list_all2_appendI matched_def)
qed

lemma jobs_matched:
  assumes "serving_run serve ([], w0) ws (jobs, w)" and "L w0 w0'"
  shows "\<exists>ws' jobs' w'. serving_run serve' ([], w0') ws' (jobs', w') \<and> list_all2 L ws ws' \<and>
    list_all2 (twin_job L) jobs jobs'"
  using run_matched [OF assms] by (force simp: matched_def)

end

text \<open>The interface holds of two servers that differ in nothing but what handles secrets.\<close>

definition low_pair :: "externals \<Rightarrow> app_state \<Rightarrow> externals \<Rightarrow> app_state \<Rightarrow> world \<Rightarrow> world \<Rightarrow> bool" where
  "low_pair X st X' st' w w' \<longleftrightarrow> same_but_secrets X st X' st' \<and> low X st X' st' w w'"

lemma low_pair_eq: "same_but_secrets X st X' st' \<Longrightarrow> low_pair X st X' st' = low X st X' st'"
  by (simp add: low_pair_def fun_eq_iff)

interpretation pair: two_servers "low_pair X st X' st'" "task_routes X st g" "task_routes X' st' g" for X st X' st' g
proof unfold_locales
  fix w w' assume L: "low_pair X st X' st' w w'"
  show "tick w' = tick w" "inflight w' = inflight w" using L by (simp_all add: low_pair_def visibly_same_def)
  show "low_pair X st X' st' (w\<lparr>tick := n\<rparr>) (w'\<lparr>tick := n\<rparr>)" for n
    using L low.later by (simp add: low_pair_def)
  show "low_pair X st X' st' (w\<lparr>trace := trace w @ ls\<rparr>) (w'\<lparr>trace := trace w' @ ls\<rparr>)" for ls
    using L low.logged by (simp add: low_pair_def)
  show "low_pair X st X' st' (release h w) (release h w')" for h
    using L twin_inflight(2) by (cases h) (simp_all add: low_pair_def twin_def)
  show "twin_task (low_pair X st X' st') (rel_option same_status) (task_routes X st g route req) (task_routes X' st' g route req)"
    for route req using L twin_routes by (simp add: low_pair_def low_pair_eq)
qed

section \<open>Properties\<close>

text \<open>What a client has been answered, if it has been.\<close>

definition answer_of :: "job \<Rightarrow> response option option" where
  "answer_of j = (case left j of Done r \<Rightarrow> Some r | _ \<Rightarrow> None)"

definition same_answers :: "job \<Rightarrow> job \<Rightarrow> bool" where
  "same_answers j j' \<longleftrightarrow> job_route j' = job_route j \<and> job_request j' = job_request j \<and>
     rel_option (rel_option same_status) (answer_of j) (answer_of j')"

lemma twin_same_answers: "twin_job L j j' \<Longrightarrow> same_answers j j'"
  unfolding twin_job_def same_answers_def answer_of_def by (auto elim: twin_task.cases)

definition same_outside :: "world \<Rightarrow> world \<Rightarrow> bool" where
  "same_outside w w' \<longleftrightarrow>
     trace w' = trace w \<and> request_log w' = request_log w \<and> row_times w' = row_times w \<and> tick w' = tick w"

text \<open>
  C11. Secrets do not reach the log. Take two servers that differ only in the encryption key, the
  cipher with its nonces, the random secrets and the functions that turn secrets into codes and
  URLs, and two databases that differ only in ciphertexts and nonces. Whatever requests the one
  serves at the same time, in whatever interleaving and with whatever disconnections, the other
  can do so too, with the same outside world and step by step: after each step both have logged
  the same lines and written the same audit rows at the same times, and they have answered the
  same requests with the same statuses, and with the same bodies but for those of success. So
  neither log nor audit table nor any error depends on a secret, a key or a PIN. The libraries are
  asked to fail alike: with an error text that does not tell the secret.
\<close>

theorem secrets_do_not_reach_the_log:
  assumes "create_task_router X st = Inr serve" and "create_task_router X' st' = Inr serve'"
    and "same_but_secrets X st X' st'"
    and "visibly_same (aead X) (secrets st) (aead X') (secrets st') w0 w0'"
    and "serving_run serve ([], w0) ws (jobs, w)"
  shows "\<exists>ws' jobs' w'. serving_run serve' ([], w0') ws' (jobs', w') \<and>
    list_all2 same_outside ws ws' \<and> list_all2 same_answers jobs jobs'"
proof -
  have config: "rate_limit_config (governor X') (app_config st') = rate_limit_config (governor X) (app_config st)"
    using assms(3) by (auto simp: same_but_secrets_def rate_limit_config_def refill_millis_def)
  obtain g where g: "serve = task_routes X st g" "serve' = task_routes X' st' g"
    using assms(1,2) config by (auto simp: create_task_router_def)
  have "low_pair X st X' st' w0 w0'" using assms(3,4) by (simp add: low_pair_def)
  from pair.jobs_matched [OF assms(5) [unfolded g(1)] this] obtain ws' jobs' w' where
    "serving_run serve' ([], w0') ws' (jobs', w')" "list_all2 (low_pair X st X' st') ws ws'"
    "list_all2 (twin_job (low_pair X st X' st')) jobs jobs'"
    unfolding g(2) by blast
  moreover from this have "list_all2 same_outside ws ws'" "list_all2 same_answers jobs jobs'"
    by (auto elim!: list_all2_mono simp: low_pair_def visibly_same_def same_outside_def twin_same_answers)
  ultimately show ?thesis by blast
qed

text \<open>The demonstration server with other random secrets, on a database with another secret.\<close>

definition other_externals :: externals where
  "other_externals = demo_externals\<lparr>totp_rs := demo_totp_rs\<lparr>secret_generate := \<lambda>t. replicate 20 9\<rparr>\<rparr>"

theorem secrets_do_not_reach_the_log_witness:
  "\<exists>serve serve' ws ws' r r' w w' j j'. create_task_router demo_externals demo_state = Inr serve \<and>
     create_task_router other_externals demo_state = Inr serve' \<and>
     serving_run serve ([], demo_world) ws ([j], w) \<and> left j = Done r \<and>
     serving_run serve' ([], demo_world_with [9]) ws' ([j'], w') \<and> left j' = Done r' \<and>
     list_all2 same_outside ws ws' \<and> rel_option same_status r r'"
proof -
  obtain tasks g where tasks: "create_task_router demo_externals demo_state = Inr tasks"
      "tasks = task_routes demo_externals demo_state g"
    using demo_router demo_tasks by (fastforce simp: create_task_router_def)
  obtain tasks' where tasks': "create_task_router other_externals demo_state = Inr tasks'"
    using tasks(1) by (auto simp: create_task_router_def other_externals_def)
  have alike: "same_but_secrets demo_externals demo_state other_externals demo_state"
    by (auto simp: same_but_secrets_def other_externals_def demo_externals_def demo_totp_rs_def seal_alike_def
        demo_aead_def generators_alike_def intro: exI [of _ "encryption_key (app_config demo_state)"])
  have "vault_ok demo_aead (secrets demo_state) (demo_world_with s)" for s
    using demo_server_inv_with [of s] by (simp add: server_inv_def demo_externals_def)
  then have worlds: "visibly_same (aead demo_externals) (secrets demo_state)
      (aead other_externals) (secrets demo_state) demo_world (demo_world_with [9])"
    by (simp add: visibly_same_def demo_world_def other_externals_def demo_externals_def demo_world_with_def
        world_init_def row_times_def fun_eq_iff)
  let ?t = "tasks Provision demo_request"
  let ?j = "\<lparr>job_route = Provision, job_request = demo_request, arrived = demo_world, left = ?t\<rparr>"
  obtain r w where served: "run_state (alone (keycloak demo_externals) ?t) demo_world = (r, w)" by fastforce
  have "inflight demo_world = Map.empty" using demo_server_inv by (simp add: server_inv_def)
  then have "(serving_step tasks)\<^sup>*\<^sup>* ([?j], demo_world) ([?j\<lparr>left := Done r\<rparr>], w)"
    using task_completes [of ?j, OF _ _ served] unblocked_routes tasks(2) by simp
  then have "(serving_step tasks)\<^sup>*\<^sup>* ([], demo_world) ([?j\<lparr>left := Done r\<rparr>], w)"
    using serving_step.arrive [of tasks "[]" demo_world Provision demo_request] by (simp add: converse_rtranclp_into_rtranclp)
  then obtain ws where run: "serving_run tasks ([], demo_world) ws ([?j\<lparr>left := Done r\<rparr>], w)"
    using serving_run_exists by blast
  from secrets_do_not_reach_the_log [OF tasks(1) tasks' alike worlds run] obtain ws' j' w' where
    "serving_run tasks' ([], demo_world_with [9]) ws' ([j'], w')" "list_all2 same_outside ws ws'"
    "same_answers (?j\<lparr>left := Done r\<rparr>) j'"
    by (auto simp: list_all2_Cons1)
  moreover from this(3) obtain r' where "left j' = Done r'" "rel_option same_status r r'"
    by (auto simp: same_answers_def answer_of_def option_rel_Some1 split: task.splits)
  ultimately show ?thesis using tasks(1) tasks' run
    by (intro exI [of _ tasks] exI [of _ tasks'] exI [of _ ws] exI [of _ ws'] exI [of _ r] exI [of _ r'] exI [of _ w]
        exI [of _ w'] exI [of _ "?j\<lparr>left := Done r\<rparr>"] exI [of _ j']) simp
qed

end
