(* ===== verification/Concurrent_Flights.thy ===== *)
theory Concurrent_Flights
  imports Interleaving
begin

text \<open>
  The map of calls in flight (\<open>inflight\<close> in \<^verbatim>\<open>auth/introspection.rs\<close>) while the whole server runs
  concurrently. Every entry has a request that holds its guard, whichever requests are dropped
  and when; the argument is a condition on tasks, \<open>tidy\<close>, that composes along the handlers and
  layers.
\<close>

section \<open>The map of calls in flight\<close>

text \<open>
  The entries after a step: each was there before and is not the one the task held, or the task
  now holds its guard.
\<close>

definition tidy_step :: "bytes option \<Rightarrow> bytes option \<Rightarrow> world \<Rightarrow> world \<Rightarrow> bool" where
  "tidy_step h h' w w' \<longleftrightarrow>
     (\<forall>k. inflight w' k \<noteq> None \<longrightarrow> (inflight w k \<noteq> None \<and> h \<noteq> Some k) \<or> h' = Some k)"

primrec tidy :: "'a task \<Rightarrow> bool" where
  "tidy (Done a) \<longleftrightarrow> True"
| "tidy (Step h g) \<longleftrightarrow> (\<forall>w. case map_prod tidy id (g w) of (ok, w') \<Rightarrow> ok \<and> tidy_step h (held (fst (g w))) w w')"
| "tidy (Publish h key out t) \<longleftrightarrow> tidy t \<and> (\<forall>k. h = Some k \<longrightarrow> held t = Some k)"
| "tidy (Await h key rx f) \<longleftrightarrow> h = None \<and> (\<forall>r. tidy (f r))"

lemma tidyD: "tidy (Step h g) \<Longrightarrow> g w = (t, w') \<Longrightarrow> tidy t \<and> tidy_step h (held t) w w'"
  by (auto dest: spec [of _ w])

lemma tidyI: "(\<And>w t w'. g w = (t, w') \<Longrightarrow> tidy t \<and> tidy_step h (held t) w w') \<Longrightarrow> tidy (Step h g)"
  by (simp add: split_beta) (metis prod.collapse)

lemma tidy_step_more: "tidy_step h None w w' \<Longrightarrow> tidy_step h h' w w'"
  by (auto simp: tidy_step_def)

lemma held_tbind: "held t = Some k \<Longrightarrow> held (tbind t f) = Some k"
  by (cases t) simp_all

lemma held_guarded: "\<forall>r. t \<noteq> Done r \<Longrightarrow> held (guarded k t) = Some k"
  by (cases t) simp_all

lemma tidy_tbind: "tidy t \<Longrightarrow> (\<And>a. tidy (f a)) \<Longrightarrow> tidy (tbind t f)"
proof (induction t rule: task_induct)
  case (Step h g)
  show ?case
    unfolding tbind.simps
  proof (rule tidyI)
    fix w u w' assume "map_prod (\<lambda>t. tbind t f) id (g w) = (u, w')"
    then obtain t where g: "g w = (t, w')" "u = tbind t f" by (cases "g w") auto
    have "tidy t" "tidy_step h (held t) w w'" using tidyD [OF Step.prems(1) g(1)] by simp_all
    then show "tidy u \<and> tidy_step h (held u) w w'"
      using Step.IH [OF g(1)] Step.prems(2) by (cases t) (auto simp: g(2) intro: tidy_step_more)
  qed
qed (simp_all add: held_tbind)

lemma tidy_atomically:
  assumes "state_io_rel same_inflight m"
  shows "tidy (atomically m)"
  unfolding atomically_def
proof (rule tidyI)
  fix w t w' assume "map_prod Done id (run_state m w) = (t, w')"
  then obtain a where "run_state m w = (a, w')" "t = Done a" by (cases "run_state m w") auto
  then show "tidy t \<and> tidy_step None (held t) w w'"
    using flights.keeps_run [OF assms] by (auto simp: same_inflight_def tidy_step_def)
qed

text \<open>A leader holds its guard until it has removed its entry.\<close>

lemma tidy_guarded_drop: "tidy (guarded k (tbind (atomically (drop_guard k)) (\<lambda>_. Done out)))"
  by (simp add: atomically_def drop_guard_def tidy_step_def)

lemma held_guarded_drop: "held (guarded k (tbind (atomically (drop_guard k)) f)) = Some k"
  by (simp add: atomically_def)

lemma tidy_lead:
  assumes "steps_within same_inflight t" and "prompt t"
    and "\<And>a. tidy (guarded k (f a))" and "\<And>a r. f a \<noteq> Done r"
  shows "tidy (guarded k (tbind t f))"
  using assms(1,2)
proof (induction t rule: task_induct)
  case (Step h g)
  show ?case
    unfolding tbind.simps guarded.simps
  proof (rule tidyI)
    fix w u w'
    assume "map_prod (guarded k) id (map_prod (\<lambda>t. tbind t f) id (g w)) = (u, w')"
    then obtain t where g: "g w = (t, w')" "u = guarded k (tbind t f)" by (cases "g w") auto
    have t: "same_inflight w w'" "steps_within same_inflight t" "prompt t"
      using within_step [OF Step.prems(1) g(1)] promptD [OF Step.prems(2) g(1)] by simp_all
    have "held u = Some k" unfolding g(2) using assms(4) by (intro held_guarded) (cases t; simp)
    with t Step.IH [OF g(1)] show "tidy u \<and> tidy_step (Some k) (held u) w w'"
      unfolding g(2) by (simp add: tidy_step_def) (simp add: same_inflight_def)
  qed
next
  case (Publish h key out t)
  have "held (guarded k (tbind t f)) = Some k" using assms(4) by (intro held_guarded) (cases t; simp)
  with Publish show ?case by simp
qed (simp_all add: assms(3))

lemma within_call: "steps_within same_inflight (call_task K c tok)"
  unfolding call_task_def by (auto intro!: within_intros split: sum.splits)

lemma tidy_call: "tidy (call_task K c tok)"
  unfolding call_task_def by (auto intro!: tidy_tbind tidy_atomically frame_simps split: sum.splits)

lemma tidy_introspect: "tidy (introspect_task K c tok)"
proof -
  define k where "k = sha256 K tok"
  define lead where "lead = guarded k (tbind (call_task K c tok) (\<lambda>out.
      tbind (send_outcome k out) (\<lambda>_. tbind (atomically (drop_guard k)) (\<lambda>_. Done out))))"
  define follow where "follow rx = tbind (recv_outcome k rx) (\<lambda>received.
      case received of Some outcome \<Rightarrow> Done outcome | None \<Rightarrow> call_task K c tok)" for rx
  have lead_ok: "tidy lead" "held lead = Some k"
    unfolding lead_def
    by (rule tidy_lead [OF within_call prompt_call], simp add: send_outcome_def tidy_guarded_drop held_guarded_drop,
        simp add: send_outcome_def, simp add: call_task_def atomically_def)
  have follow_ok: "tidy (follow rx)" for rx
    unfolding follow_def recv_outcome_def by (auto simp: tidy_call split: option.splits)
  have "tidy (tbind (atomically (join_or_lead k)) (\<lambda>r. case r of Some rx \<Rightarrow> follow rx | None \<Rightarrow> lead))"
    unfolding atomically_def tbind.simps
  proof (rule tidyI)
    fix w u w'
    assume "map_prod (\<lambda>t. tbind t (\<lambda>r. case r of Some rx \<Rightarrow> follow rx | None \<Rightarrow> lead)) id
        (map_prod Done id (run_state (join_or_lead k) w)) = (u, w')"
    then show "tidy u \<and> tidy_step None (held u) w w'"
      using lead_ok follow_ok by (auto simp: join_or_lead_def tidy_step_def split: option.splits)
  qed
  then show ?thesis unfolding introspect_task_def Let_def lead_def follow_def k_def .
qed

lemma tidy_log_request: "tidy (log_request_task D st s r)"
  unfolding log_request_task_def by (auto intro!: tidy_tbind tidy_atomically frame_simps split: sum.splits)

lemma flights_limiter [frame_simps]: "state_io_rel same_inflight (limiter_check G g k)"
  by (auto simp: state_io_rel_def limiter_check_def same_inflight_def)

lemmas tidy_intros = tidy_tbind tidy_atomically tidy_log_request frame_simps

lemma tidy_reply_error: "tidy (reply_error_task e)"
  unfolding reply_error_task_def by (auto intro!: tidy_intros)

lemma tidy_respond: "tidy (respond_task r)"
  by (cases r rule: respond.cases) (simp_all add: tidy_reply_error)

lemma tidy_services: "tidy (request_pin_task_service X st req)" "tidy (provision_task_service X st req)"
  unfolding request_pin_task_service_def request_pin_task_def issue_pin_task_def
    provision_task_service_def provision_task_def secret_upsert_task_def Let_def
  by (auto intro!: tidy_intros tidy_respond tidy_reply_error split: option.splits sum.splits)

lemma tidy_protected: "(\<And>req. tidy (h req)) \<Longrightarrow> tidy (protected_task X st g h req)"
  unfolding protected_task_def require_authentication_task_def audit_rate_limited_task_def
    governor_layer_task_def authenticate_task_def Let_def
  by (auto intro!: tidy_intros tidy_introspect tidy_reply_error split: option.splits sum.splits)

lemma tidy_routes: "tidy (task_routes X st g route req)"
  by (cases route) (auto simp: task_routes_def intro: tidy_protected tidy_services)

lemma nth_in_without:
  assumes "m < length xs" and "m \<noteq> i"
  shows "xs ! m \<in> set (take i xs) \<or> xs ! m \<in> set (drop (Suc i) xs)"
proof (cases "m < i")
  case True
  then show ?thesis using assms(1) by (auto simp: in_set_conv_nth intro: exI [of _ m])
next
  case False
  then have "drop (Suc i) xs ! (m - Suc i) = xs ! m" "m - Suc i < length (drop (Suc i) xs)"
    using assms by simp_all
  then show ?thesis by (metis nth_mem)
qed

text \<open>Every entry of the map has its leader, and all tasks are tidy.\<close>

definition led :: "job list \<Rightarrow> world \<Rightarrow> bool" where
  "led jobs w \<longleftrightarrow> (\<forall>j \<in> set jobs. tidy (left j)) \<and>
     (\<forall>k. inflight w k \<noteq> None \<longrightarrow> (\<exists>j \<in> set jobs. held (left j) = Some k))"

lemma led_update:
  assumes "led jobs w" and "i < length jobs" and "tidy t" and "tidy_step (held (left (jobs ! i))) (held t) w w'"
  shows "led (jobs[i := (jobs ! i)\<lparr>left := t\<rparr>]) w'"
proof -
  let ?jobs = "jobs[i := (jobs ! i)\<lparr>left := t\<rparr>]"
  have "\<exists>j \<in> set ?jobs. held (left j) = Some k" if k: "inflight w' k \<noteq> None" for k
  proof (cases "held t = Some k")
    case True
    then show ?thesis using assms(2) by (auto intro!: bexI [OF _ set_update_memI])
  next
    case False
    then have other: "inflight w k \<noteq> None" "held (left (jobs ! i)) \<noteq> Some k"
      using assms(4) k by (auto simp: tidy_step_def)
    then obtain m where m: "m < length jobs" "held (left (jobs ! m)) = Some k"
      using assms(1) unfolding led_def by (metis in_set_conv_nth)
    with other(2) have "m \<noteq> i" by auto
    with m show ?thesis by (metis length_list_update nth_list_update_neq nth_mem)
  qed
  with assms(1-3) show ?thesis by (auto simp: led_def dest!: set_update_subset_insert [THEN subsetD])
qed

lemma led_hand_over: "led jobs w \<Longrightarrow> led (map (hand_over key tx out) jobs) w"
proof -
  assume led: "led jobs w"
  have j: "tidy (left (hand_over key tx out j)) \<and> (held (left j) = Some k \<longrightarrow> held (left (hand_over key tx out j)) = Some k)"
    if "tidy (left j)" for j k
    using that by (cases "left j") (simp_all add: hand_over_def)
  with led show ?thesis by (auto simp: led_def) metis
qed

lemma led_without:
  assumes "led jobs w" and "i < length jobs"
  shows "led (take i jobs @ drop (Suc i) jobs) (release (held (left (jobs ! i))) w)"
proof -
  let ?h = "held (left (jobs ! i))"
  have "\<exists>j \<in> set (take i jobs @ drop (Suc i) jobs). held (left j) = Some k"
    if k: "inflight (release ?h w) k \<noteq> None" for k
  proof -
    have "inflight w k \<noteq> None" "?h \<noteq> Some k"
      using k by (cases ?h; auto simp: drop_guard_def split: if_splits)+
    then obtain m where m: "m < length jobs" "held (left (jobs ! m)) = Some k" "m \<noteq> i"
      using assms(1) unfolding led_def by (metis in_set_conv_nth)
    then have "jobs ! m \<in> set (take i jobs @ drop (Suc i) jobs)" using nth_in_without [of m jobs i] by simp
    with m(2) show ?thesis by blast
  qed
  with assms(1) show ?thesis by (auto simp: led_def dest: in_set_takeD in_set_dropD)
qed

lemma led_step:
  assumes "serving_step (task_routes X st g) (jobs, w) (jobs', w')" and "led jobs w"
  shows "led jobs' w'"
  using assms(1)
proof cases
  case (arrive route req)
  with assms(2) tidy_routes show ?thesis by (auto simp: led_def)
next
  case (progress i h f t)
  have "tidy (Step h f)" using assms(2) progress(2,3) unfolding led_def by (metis nth_mem)
  from tidyD [OF this progress(4)] assms(2) progress show ?thesis by (auto intro: led_update)
next
  case (publish i h key out t)
  let ?jobs = "map (hand_over key (inflight w key) out) jobs"
  have same: "?jobs ! i = jobs ! i" using publish(3,4) by (simp add: hand_over_def)
  have "tidy (Publish h key out t)" using assms(2) publish(3,4) unfolding led_def by (metis nth_mem)
  then have "led (?jobs[i := (?jobs ! i)\<lparr>left := t\<rparr>]) w"
    using publish(3,4) same by (intro led_update [OF led_hand_over [OF assms(2)]]) (auto simp: tidy_step_def)
  with publish(1,2) same show ?thesis by simp
next
  case (closed i h key rx f)
  have "tidy (Await h key rx f)" using assms(2) closed(3,4) unfolding led_def by (metis nth_mem)
  then show ?thesis unfolding closed(1,2) using closed(3,4)
    by (intro led_update [OF assms(2)]) (auto simp: tidy_step_def)
next
  case (disconnect i)
  then show ?thesis using led_without [OF assms(2)] by simp
qed

lemma flights_have_leaders:
  assumes "(serving_step (task_routes X st g))\<^sup>*\<^sup>* ([], w0) (jobs, w)" and "inflight w0 = Map.empty"
  shows "led jobs w"
  using assms(1)
proof (induction "(jobs, w)" arbitrary: jobs w rule: rtranclp_induct)
  case base
  show ?case by (simp add: led_def assms(2))
next
  case (step s)
  then show ?case using led_step by (cases s) simp
qed

text \<open>The first step of a request whose token nobody is asking about makes it the leader.\<close>

lemma first_step_leads:
  assumes "bearer_token req = Some tok" and "inflight w (sha256 (keycloak X) tok) = None"
  shows "\<exists>f u w1. task_routes X st g RequestPin req = Step None f \<and>
    f w = (Step (Some (sha256 (keycloak X) tok)) u, w1) \<and> inflight w1 (sha256 (keycloak X) tok) \<noteq> None"
  using assms
  by (simp add: task_routes_def protected_task_def require_authentication_task_def authenticate_task_def
      introspect_task_def call_task_def atomically_def join_or_lead_def Let_def)

text \<open>A request whose token somebody is asking about waits.\<close>

lemma first_step_joins:
  assumes "bearer_token req = Some tok" and "inflight w (sha256 (keycloak X) tok) = Some rx"
  shows "\<exists>f u w1. task_routes X st g RequestPin req = Step None f \<and>
    f w = (Await None (sha256 (keycloak X) tok) rx u, w1) \<and> inflight w1 = inflight w"
  using assms
  by (simp add: task_routes_def protected_task_def require_authentication_task_def authenticate_task_def
      introspect_task_def atomically_def recv_outcome_def join_or_lead_def Let_def)

section \<open>Nobody waits for ever\<close>

text \<open>Steps with which no request arrives, and those with which none arrives or leaves.\<close>

definition without_arrival :: "(route \<Rightarrow> task_service) \<Rightarrow> job list \<times> world \<Rightarrow> job list \<times> world \<Rightarrow> bool" where
  "without_arrival serve s s' \<longleftrightarrow> serving_step serve s s' \<and> length (fst s') \<le> length (fst s)"

definition working_step :: "(route \<Rightarrow> task_service) \<Rightarrow> job list \<times> world \<Rightarrow> job list \<times> world \<Rightarrow> bool" where
  "working_step serve s s' \<longleftrightarrow> serving_step serve s s' \<and> length (fst s') = length (fst s)"

text \<open>The same requests in the same order; those that were answered still are, with the same answer.\<close>

definition same_jobs :: "job list \<Rightarrow> job list \<Rightarrow> bool" where
  "same_jobs jobs jobs' \<longleftrightarrow> length jobs' = length jobs \<and>
     (\<forall>k < length jobs. job_route (jobs' ! k) = job_route (jobs ! k) \<and>
        job_request (jobs' ! k) = job_request (jobs ! k) \<and> arrived (jobs' ! k) = arrived (jobs ! k) \<and>
        (\<forall>r. left (jobs ! k) = Done r \<longrightarrow> left (jobs' ! k) = Done r))"

lemma same_jobs_update:
  "i < length jobs \<Longrightarrow> \<forall>r. left (jobs ! i) \<noteq> Done r \<Longrightarrow> same_jobs jobs (jobs[i := (jobs ! i)\<lparr>left := t\<rparr>])"
  by (auto simp: same_jobs_def nth_list_update)

lemma hand_over_done: "left j = Done r \<Longrightarrow> hand_over key tx out j = j"
  by (simp add: hand_over_def)

lemma same_jobs_publish:
  "i < length jobs \<Longrightarrow> left (jobs ! i) = Publish h k out' t \<Longrightarrow>
     same_jobs jobs ((map (hand_over key tx out) jobs)[i := (jobs ! i)\<lparr>left := t'\<rparr>])"
  by (auto simp: same_jobs_def nth_list_update hand_over_done)

lemma working_same_jobs: "working_step serve s s' \<Longrightarrow> same_jobs (fst s) (fst s')"
proof -
  assume a: "working_step serve s s'"
  then have "serving_step serve s s'" "length (fst s') = length (fst s)" by (simp_all add: working_step_def)
  then show ?thesis
    by cases (auto simp: same_jobs_update same_jobs_publish)
qed

lemma working_run:
  assumes "(working_step serve)\<^sup>*\<^sup>* s s'"
  shows "(serving_step serve)\<^sup>*\<^sup>* s s' \<and> same_jobs (fst s) (fst s')"
  using assms
proof (induction rule: rtranclp_induct)
  case base
  show ?case by (simp add: same_jobs_def)
next
  case (step s1 s2)
  with working_same_jobs [OF step.hyps(2)] show ?case
    by (auto simp: working_step_def same_jobs_def)
qed

text \<open>What is left to do of a task after a step of it is part of what was left before.\<close>

inductive subtask :: "'a task \<Rightarrow> 'a task \<Rightarrow> bool" where
  step: "g w = (t, w') \<Longrightarrow> subtask t (Step h g)"
| publish: "subtask t (Publish h key out t)"
| await: "subtask (f r) (Await h key rx f)"

inductive_simps subtask_simps:
  "subtask t (Done a)" "subtask t (Step h g)" "subtask t (Publish h key out t')" "subtask t (Await h key rx f)"

lemma wf_subtask: "wf {(t, t' :: 'a task). subtask t t'}"
proof (rule wfUNIVI)
  fix P and t :: "'a task"
  assume hyp: "\<forall>t. (\<forall>t'. (t', t :: 'a task) \<in> {(t, t'). subtask t t'} \<longrightarrow> P t') \<longrightarrow> P t"
  show "P t"
    by (induction t rule: task_induct) (rule hyp [rule_format], force simp: subtask_simps)+
qed

text \<open>Along the list of requests, the first that has moved has less to do.\<close>

lemma moved_less:
  "list_all2 (\<lambda>t t'. t' = t \<or> (t', t) \<in> r) ts ts' \<Longrightarrow> ts' = ts \<or> (ts', ts) \<in> lex r"
  by (induction rule: list_all2_induct) (auto simp: list_all2_lengthD)

lemma hand_over_less:
  "left (hand_over key tx out j) = left j \<or> subtask (left (hand_over key tx out j)) (left j)"
  by (auto simp: hand_over_def subtask_simps split: task.splits)

lemma subtask_neq: "subtask t t' \<Longrightarrow> t \<noteq> t'"
  using wf_not_refl [OF wf_subtask] by blast

lemma without_arrival_less:
  assumes "without_arrival serve s s'"
  shows "(map left (fst s'), map left (fst s)) \<in> lenlex {(t, t'). subtask t t'}"
proof -
  let ?r = "{(t, t'). subtask t (t' :: response option task)}"
  have less: "(map left jobs', map left jobs) \<in> lenlex ?r"
    if "length jobs' = length jobs" "i < length jobs" "subtask (left (jobs' ! i)) (left (jobs ! i))"
      "\<forall>k < length jobs. left (jobs' ! k) = left (jobs ! k) \<or> subtask (left (jobs' ! k)) (left (jobs ! k))" for jobs jobs' i
  proof -
    have "list_all2 (\<lambda>t t'. t' = t \<or> (t', t) \<in> ?r) (map left jobs) (map left jobs')"
      using that(1,4) by (simp add: list_all2_conv_all_nth)
    moreover have "map left jobs' \<noteq> map left jobs"
      using subtask_neq [OF that(3)] that(1,2) by (metis nth_map)
    ultimately have "(map left jobs', map left jobs) \<in> lex ?r" using moved_less by blast
    then show ?thesis using that(1) by (simp add: lenlex_conv)
  qed
  from assms have "serving_step serve s s'" "length (fst s') \<le> length (fst s)" by (simp_all add: without_arrival_def)
  then show ?thesis
  proof cases
    case (progress i jobs h g w t w')
    then have "subtask t (left (jobs ! i))" using subtask.step by metis
    with progress show ?thesis by (auto intro!: less [of _ _ i] simp: nth_list_update)
  next
    case (publish i jobs h key out t w)
    then show ?thesis
      by (auto intro!: less [of _ _ i] simp: nth_list_update subtask_simps split: if_splits) (use hand_over_less in blast)
  next
    case (closed i jobs h key rx f w)
    then have "subtask (f None) (left (jobs ! i))" using subtask.await by metis
    with closed show ?thesis by (auto intro!: less [of _ _ i] simp: nth_list_update)
  next
    case (disconnect i jobs w)
    then show ?thesis by (auto simp: lenlex_conv)
  qed simp
qed

lemma wf_without_arrival: "wf {(s', s). without_arrival serve s s'}"
  by (rule wf_subset [OF wf_inv_image [OF wf_lenlex [OF wf_subtask], where f = "\<lambda>s. map left (fst s)"]])
    (clarsimp simp: inv_image_def dest!: without_arrival_less)

lemma working_ends: "\<exists>s'. (working_step serve)\<^sup>*\<^sup>* s s' \<and> (\<nexists>s''. working_step serve s' s'')"
proof (induction s rule: wf_induct_rule [OF wf_without_arrival [of serve]])
  case (1 s)
  show ?case
  proof (cases "\<exists>s1. working_step serve s s1")
    case True
    then obtain s1 where s1: "working_step serve s s1" by blast
    then have "(s1, s) \<in> {(s', s). without_arrival serve s s'}"
      by (simp add: working_step_def without_arrival_def)
    from 1 [OF this] s1 show ?thesis by (meson converse_rtranclp_into_rtranclp)
  qed blast
qed

text \<open>While a request has no answer, one of those at hand can go on: who waits has a leader.\<close>

lemma some_request_works:
  assumes "led jobs w" and "j \<in> set jobs" and "\<forall>r. left j \<noteq> Done r"
  shows "\<exists>s'. working_step serve (jobs, w) s'"
proof -
  have works: "\<exists>s'. working_step serve (jobs, w) s'"
    if i: "i < length jobs" and t: "(\<exists>h g. left (jobs ! i) = Step h g) \<or> (\<exists>h k out t. left (jobs ! i) = Publish h k out t)" for i
  proof -
    consider (step) h g where "left (jobs ! i) = Step h g" | (publish) h k out t where "left (jobs ! i) = Publish h k out t"
      using t by blast
    then show ?thesis
    proof cases
      case step
      obtain t w' where "g w = (t, w')" by fastforce
      from serving_step.progress [OF i step this] show ?thesis by (fastforce simp: working_step_def)
    next
      case publish
      from serving_step.publish [OF i publish] show ?thesis by (fastforce simp: working_step_def)
    qed
  qed
  obtain i where i: "i < length jobs" "jobs ! i = j" using assms(2) by (auto simp: in_set_conv_nth)
  show ?thesis
  proof (cases "left j")
    case (Await h key rx f)
    show ?thesis
    proof (cases "inflight w key = Some rx")
      case True
      then obtain m where m: "m < length jobs" "held (left (jobs ! m)) = Some key"
        using assms(1) unfolding led_def by (metis in_set_conv_nth option.distinct(1))
      moreover have "tidy (left (jobs ! m))" using assms(1) m(1) by (simp add: led_def)
      ultimately show ?thesis using works [of m] by (cases "left (jobs ! m)") auto
    next
      case False
      from serving_step.closed [OF i(1) _ False] i(2) Await show ?thesis by (fastforce simp: working_step_def)
    qed
  qed (use works [of i] i assms(3) in auto)
qed

section \<open>Properties\<close>

text \<open>
  No call in flight is ever forgotten: while requests are served concurrently and dropped at any
  point when clients go away, every entry in the map of calls in flight belongs to a request at
  hand that holds its guard. So when no request is left unfinished, the map is empty and the
  state satisfies the invariant of the sequential server again.
\<close>

theorem flights_are_not_leaked:
  assumes "create_task_router X st = Inr serve" and "server_inv X st w0"
    and "(serving_step serve)\<^sup>*\<^sup>* ([], w0) (jobs, w)"
  shows "(\<forall>k. inflight w k \<noteq> None \<longrightarrow> (\<exists>j \<in> set jobs. held (left j) = Some k)) \<and>
    ((\<forall>j \<in> set jobs. \<exists>r. left j = Done r) \<longrightarrow> server_inv X st w)"
proof -
  obtain g where serve: "serve = task_routes X st g" using assms(1) by (auto simp: create_task_router_def)
  note run = assms(3) [unfolded serve]
  have inv: "inflight w0 = Map.empty" "vault_ok (aead X) (secrets st) w0"
    using assms(2) by (simp_all add: server_inv_def)
  have "vault_ok (aead X) (secrets st) w"
    using serving_steps_sound [OF run] inv(2) by (simp add: sound_step_def)
  moreover note leaders = flights_have_leaders [OF run inv(1), unfolded led_def]
  moreover have "inflight w = Map.empty" if "\<forall>j \<in> set jobs. \<exists>r. left j = Done r"
    using leaders that by (metis ext held.simps(1) option.distinct(1))
  ultimately show ?thesis by (simp add: server_inv_def)
qed

theorem flights_are_not_leaked_witness:
  "\<exists>serve j w w'. create_task_router demo_externals demo_state = Inr serve \<and>
     (serving_step serve)\<^sup>*\<^sup>* ([], demo_world) ([j], w) \<and> inflight w \<noteq> Map.empty \<and>
     serving_step serve ([j], w) ([], w') \<and> server_inv demo_externals demo_state w'"
proof -
  let ?k = "sha256 (keycloak demo_externals) [116]"
  obtain tasks g where tasks: "create_task_router demo_externals demo_state = Inr tasks"
      "tasks = task_routes demo_externals demo_state g"
    using demo_router by (auto simp: create_router_def create_task_router_def)
  let ?job = "\<lparr>job_route = RequestPin, job_request = demo_request, arrived = demo_world,
      left = tasks RequestPin demo_request\<rparr>"
  have "inflight demo_world ?k = None" using demo_server_inv by (simp add: server_inv_def)
  from first_step_leads [OF demo_bearer this, of demo_state g]
  obtain f g' w where f: "left ?job = Step None f" "f demo_world = (Step (Some ?k) g', w)" "inflight w ?k \<noteq> None"
    using tasks(2) by auto
  let ?led = "?job\<lparr>left := Step (Some ?k) g'\<rparr>"
  have "serving_step tasks ([], demo_world) ([?job], demo_world)"
    using serving_step.arrive [of tasks "[]"] by simp
  moreover have "serving_step tasks ([?job], demo_world) ([?led], w)"
    using serving_step.progress [of 0 "[?job]" None f demo_world "Step (Some ?k) g'" w tasks] f(1,2) by simp
  moreover have last: "serving_step tasks ([?led], w) ([], release (Some ?k) w)"
    using serving_step.disconnect [of 0 "[?led]" tasks w] by simp
  ultimately have reach: "(serving_step tasks)\<^sup>*\<^sup>* ([], demo_world) ([?led], w)"
      "(serving_step tasks)\<^sup>*\<^sup>* ([], demo_world) ([], release (Some ?k) w)"
    by (auto intro: rtranclp.rtrancl_into_rtrancl)
  from flights_are_not_leaked [OF tasks(1) demo_server_inv reach(2)]
  have "server_inv demo_externals demo_state (release (Some ?k) w)" by simp
  with tasks(1) reach(1) last f(3) show ?thesis by (metis (no_types, lifting))
qed

text \<open>
  C6. Concurrent requests get their answers, however they are scheduled. In whatever state requests
  have brought the server by arriving, working, joining calls of others and being dropped: without
  further arrivals only finitely many steps can follow; and when the requests at hand have gone
  on among themselves until none of them can make a step, which comes to pass, every one has its
  answer, those that had one before keep it, no call is left in flight and the server's invariant
  holds again. So there is neither deadlock nor livelock.
\<close>

theorem concurrent_requests_finish:
  assumes "create_task_router X st = Inr serve" and "server_inv X st w0"
    and "(serving_step serve)\<^sup>*\<^sup>* ([], w0) (jobs, w)"
  shows "(\<nexists>run. run 0 = (jobs, w) \<and> (\<forall>n. without_arrival serve (run n) (run (Suc n)))) \<and>
    (\<exists>s. (working_step serve)\<^sup>*\<^sup>* (jobs, w) s \<and> (\<nexists>s'. working_step serve s s')) \<and>
    (\<forall>jobs' w'. (working_step serve)\<^sup>*\<^sup>* (jobs, w) (jobs', w') \<and> (\<nexists>s'. working_step serve (jobs', w') s') \<longrightarrow>
       same_jobs jobs jobs' \<and> (\<forall>j \<in> set jobs'. \<exists>r. left j = Done r) \<and> server_inv X st w')"
proof -
  obtain g where serve: "serve = task_routes X st g" using assms(1) by (auto simp: create_task_router_def)
  have inv: "inflight w0 = Map.empty" "vault_ok (aead X) (secrets st) w0"
    using assms(2) by (simp_all add: server_inv_def)
  have "\<nexists>run. \<forall>n. without_arrival serve (run n) (run (Suc n))"
    using wf_without_arrival [of serve] by (auto simp: wf_iff_no_infinite_down_chain)
  moreover have "same_jobs jobs jobs' \<and> (\<forall>j \<in> set jobs'. \<exists>r. left j = Done r) \<and> server_inv X st w'"
    if "(working_step serve)\<^sup>*\<^sup>* (jobs, w) (jobs', w')" "\<nexists>s'. working_step serve (jobs', w') s'" for jobs' w'
  proof -
    have run: "(serving_step (task_routes X st g))\<^sup>*\<^sup>* ([], w0) (jobs', w')" and same: "same_jobs jobs jobs'"
      using working_run [OF that(1)] assms(3) serve by auto
    have led: "led jobs' w'" by (rule flights_have_leaders [OF run inv(1)])
    then have all: "\<forall>j \<in> set jobs'. \<exists>r. left j = Done r" using some_request_works that(2) by blast
    then have "inflight w' = Map.empty" using led unfolding led_def by (metis ext held.simps(1) option.distinct(1))
    moreover have "vault_ok (aead X) (secrets st) w'"
      using serving_steps_sound [OF run] inv(2) by (simp add: sound_step_def)
    ultimately show ?thesis using same all by (simp add: server_inv_def)
  qed
  ultimately show ?thesis using working_ends [of serve "(jobs, w)"] by blast
qed

theorem concurrent_requests_finish_witness:
  "\<exists>serve lead wait key rx f w jobs' w'. create_task_router demo_externals demo_state = Inr serve \<and>
     (serving_step serve)\<^sup>*\<^sup>* ([], demo_world) ([lead, wait], w) \<and>
     left wait = Await None key rx f \<and> inflight w key = Some rx \<and>
     (working_step serve)\<^sup>*\<^sup>* ([lead, wait], w) (jobs', w') \<and> (\<forall>j \<in> set jobs'. \<exists>r. left j = Done r)"
proof -
  let ?k = "sha256 (keycloak demo_externals) [116]"
  obtain tasks g where tasks: "create_task_router demo_externals demo_state = Inr tasks"
      "tasks = task_routes demo_externals demo_state g"
    using demo_router by (auto simp: create_router_def create_task_router_def)
  let ?job = "\<lparr>job_route = RequestPin, job_request = demo_request, arrived = demo_world,
      left = tasks RequestPin demo_request\<rparr>"
  have "inflight demo_world ?k = None" using demo_server_inv by (simp add: server_inv_def)
  from first_step_leads [OF demo_bearer this, of demo_state g]
  obtain f g' w rx where f: "left ?job = Step None f" "f demo_world = (Step (Some ?k) g', w)" "inflight w ?k = Some rx"
    using tasks(2) by auto
  from first_step_joins [OF demo_bearer f(3), of demo_state g]
  obtain u w1 where u: "f w = (Await None ?k rx u, w1)" "inflight w1 ?k = Some rx"
    using tasks(2) f(1,3) by auto
  let ?led = "?job\<lparr>left := Step (Some ?k) g'\<rparr>" and ?wait = "?job\<lparr>left := Await None ?k rx u\<rparr>"
  have "serving_step tasks ([], demo_world) ([?job], demo_world)"
    "serving_step tasks ([?job], demo_world) ([?job, ?job], demo_world)"
    using serving_step.arrive [of tasks "[]" demo_world RequestPin demo_request]
      serving_step.arrive [of tasks "[?job]" demo_world RequestPin demo_request] by simp_all
  moreover have "serving_step tasks ([?job, ?job], demo_world) ([?led, ?job], w)"
    using serving_step.progress [of 0 "[?job, ?job]" None f demo_world "Step (Some ?k) g'" w tasks] f(1,2) by simp
  moreover have "serving_step tasks ([?led, ?job], w) ([?led, ?wait], w1)"
    using serving_step.progress [of 1 "[?led, ?job]" None f w "Await None ?k rx u" w1 tasks] f(1) u(1) by simp
  ultimately have reach: "(serving_step tasks)\<^sup>*\<^sup>* ([], demo_world) ([?led, ?wait], w1)"
    by (meson converse_rtranclp_into_rtranclp r_into_rtranclp)
  note finish = concurrent_requests_finish [OF tasks(1) demo_server_inv reach]
  then obtain jobs' w' where last: "(working_step tasks)\<^sup>*\<^sup>* ([?led, ?wait], w1) (jobs', w')"
      "\<nexists>s'. working_step tasks (jobs', w') s'"
    by (metis prod.collapse)
  with finish have "\<forall>j \<in> set jobs'. \<exists>r. left j = Done r" by blast
  moreover have "left ?wait = Await None ?k rx u" by simp
  ultimately show ?thesis using last(1) reach tasks(1) u(2) by blast
qed

end
