(* ===== verification/Issue_Budget.thy ===== *)
theory Issue_Budget
  imports Interleaving
begin

text \<open>
  How many PINs a subject can get from the concurrent server, and what is recorded of them: every PIN
  that is given out was paid for by a check of the limiter that passed, and has an audit row of its
  own or a line that says the row was lost. The argument is an account for each task: something the
  task does earns one, the log line of an issued PIN or the answer itself spends one, and no task
  spends what it has not earned (\<open>affords\<close>). The locale \<open>pin_books\<close> carries the argument through the
  handlers and layers; it is interpreted for the checks of the limiter, for the rows of a subject,
  and for the rows and the answers. So the limiter's bound is a bound on PINs, and answers with a PIN
  are at most as many as rows, however requests are interleaved and dropped.
\<close>

section \<open>Accounts\<close>

text \<open>
  \<open>affords S E t n Q\<close>: with \<open>n\<close> in hand the task \<open>t\<close> pays for what it adds to \<open>S\<close> out of \<open>n\<close> and what it
  adds to \<open>E\<close>; when it is done with \<open>a\<close> and has \<open>m\<close> left, \<open>Q a m\<close> holds.
\<close>

primrec affords ::
  "(world \<Rightarrow> nat) \<Rightarrow> (world \<Rightarrow> nat) \<Rightarrow> 'a task \<Rightarrow> nat \<Rightarrow> ('a \<Rightarrow> nat \<Rightarrow> bool) \<Rightarrow> bool" where
  "affords S E (Done a) = (\<lambda>n Q. Q a n)"
| "affords S E (Step h g) = (\<lambda>n Q. \<forall>w. case map_prod (affords S E) id (g w) of (m, w') \<Rightarrow>
     \<exists>n'. S w' + n' + E w \<le> S w + n + E w' \<and> m n' Q)"
| "affords S E (Publish h key out t) = affords S E t"
| "affords S E (Await h key rx f) = (\<lambda>n Q. \<forall>r. affords S E (f r) n Q)"

locale account =
  fixes S E :: "world \<Rightarrow> nat"
  assumes release_free: "S (release h w) = S w" "E (release h w) = E w"
begin

lemma affords_step:
  assumes "affords S E (Step h g) n Q" and "g w = (t, w')"
  shows "\<exists>n'. S w' + n' + E w \<le> S w + n + E w' \<and> affords S E t n' Q"
  using spec [OF assms(1) [unfolded affords.simps], of w] assms(2) by simp

lemma affords_stepI:
  "(\<And>w t w'. g w = (t, w') \<Longrightarrow> \<exists>n'. S w' + n' + E w \<le> S w + n + E w' \<and> affords S E t n' Q) \<Longrightarrow>
     affords S E (Step h g) n Q"
  by (simp add: split_beta)

lemma affords_mono: "affords S E t n Q \<Longrightarrow> (\<And>a m. Q a m \<Longrightarrow> Q' a m) \<Longrightarrow> affords S E t n Q'"
proof (induction t arbitrary: n rule: task_induct)
  case (Step h g)
  show ?case
    by (rule affords_stepI) (use affords_step [OF Step.prems(1)] Step.IH Step.prems(2) in blast)
qed simp_all

lemma affords_tbind: "affords S E t n (\<lambda>a m. affords S E (f a) m Q) \<Longrightarrow> affords S E (tbind t f) n Q"
proof (induction t arbitrary: n rule: task_induct)
  case (Step h g)
  show ?case
    unfolding tbind.simps
  proof (rule affords_stepI)
    fix w u w' assume "map_prod (\<lambda>t. tbind t f) id (g w) = (u, w')"
    then obtain t where g: "g w = (t, w')" "u = tbind t f" by (cases "g w") auto
    from affords_step [OF Step.prems g(1)] Step.IH [OF g(1)] g(2)
    show "\<exists>n'. S w' + n' + E w \<le> S w + n + E w' \<and> affords S E u n' Q" by blast
  qed
qed simp_all

lemma affords_seq:
  "affords S E t n Q \<Longrightarrow> (\<And>a m. Q a m \<Longrightarrow> affords S E (f a) m Q') \<Longrightarrow> affords S E (tbind t f) n Q'"
  by (rule affords_tbind) (rule affords_mono)

lemma affords_guarded: "affords S E t n Q \<Longrightarrow> affords S E (guarded key t) n Q"
proof (induction t arbitrary: n rule: task_induct)
  case (Step h g)
  show ?case
    unfolding guarded.simps
  proof (rule affords_stepI)
    fix w u w' assume "map_prod (guarded key) id (g w) = (u, w')"
    then obtain t where g: "g w = (t, w')" "u = guarded key t" by (cases "g w") auto
    from affords_step [OF Step.prems g(1)] Step.IH [OF g(1)] g(2)
    show "\<exists>n'. S w' + n' + E w \<le> S w + n + E w' \<and> affords S E u n' Q" by blast
  qed
qed simp_all

lemma affords_atomically:
  assumes "\<And>w a w'. run_state m w = (a, w') \<Longrightarrow> \<exists>n'. S w' + n' + E w \<le> S w + n + E w' \<and> Q a n'"
  shows "affords S E (atomically m) n Q"
  unfolding atomically_def
proof (rule affords_stepI)
  fix w t w' assume "map_prod Done id (run_state m w) = (t, w')"
  then obtain a where "run_state m w = (a, w')" "t = Done a" by (cases "run_state m w") auto
  with assms show "\<exists>n'. S w' + n' + E w \<le> S w + n + E w' \<and> affords S E t n' Q" by force
qed

text \<open>Effects that do not spend.\<close>

lemma affords_free:
  assumes "state_io_rel (\<lambda>w w'. S w' = S w \<and> E w \<le> E w') m" and "\<And>a. Q a n"
  shows "affords S E (atomically m) n Q"
proof (rule affords_atomically)
  fix w a w' assume "run_state m w = (a, w')"
  with state_io_relD [OF assms(1), of w] have "S w' = S w" "E w \<le> E w'" by simp_all
  with assms(2) show "\<exists>n'. S w' + n' + E w \<le> S w + n + E w' \<and> Q a n'" by (intro exI [of _ n]) simp
qed

lemma affords_free_seq:
  assumes "state_io_rel (\<lambda>w w'. S w' = S w \<and> E w \<le> E w') m" and "\<And>a. affords S E (f a) n Q"
  shows "affords S E (tbind (atomically m) f) n Q"
  by (rule affords_tbind, rule affords_free [OF assms(1)]) (rule assms(2))

text \<open>
  Jobs that start with nothing in hand spend no more than they earn, and those that are done have
  in hand what \<open>P\<close> asks for their route and answer.
\<close>

definition solvent :: "(route \<Rightarrow> response option \<Rightarrow> nat \<Rightarrow> bool) \<Rightarrow> world \<Rightarrow> job list \<Rightarrow> world \<Rightarrow> bool" where
  "solvent P w0 jobs w \<longleftrightarrow> (\<exists>ns. length ns = length jobs \<and>
     (\<forall>i < length jobs. affords S E (left (jobs ! i)) (ns ! i) (P (job_route (jobs ! i)))) \<and>
     S w + sum_list ns + E w0 \<le> S w0 + E w)"

lemma solvent_update:
  assumes "length ns = length jobs" and "\<forall>k < length jobs. affords S E (left (jobs ! k)) (ns ! k) (P (job_route (jobs ! k)))"
    and "S w + sum_list ns + E w0 \<le> S w0 + E w" and "i < length jobs"
    and "affords S E t n (P (job_route (jobs ! i)))" and "S w' + n + E w \<le> S w + ns ! i + E w'"
  shows "solvent P w0 (jobs[i := (jobs ! i)\<lparr>left := t\<rparr>]) w'"
proof -
  let ?jobs = "jobs[i := (jobs ! i)\<lparr>left := t\<rparr>]" and ?ns = "ns[i := n]"
  have "sum_list ?ns + ns ! i = sum_list ns + n"
    using assms(1,4) by (simp add: sum_list_update) (metis add.commute elem_le_sum_list le_add_diff_inverse2 trans_le_add2)
  then have "S w' + sum_list ?ns + E w0 \<le> S w0 + E w'" using assms(3,6) by linarith
  moreover have "affords S E (left (?jobs ! k)) (?ns ! k) (P (job_route (?jobs ! k)))" if "k < length ?jobs" for k
    using that assms(1,2,5) by (cases "k = i") simp_all
  ultimately show ?thesis using assms(1) unfolding solvent_def by (intro exI [of _ ?ns]) simp
qed

lemma affords_hand_over:
  "affords S E (left j) n Q \<Longrightarrow> affords S E (left (hand_over key tx out j)) n Q" for Q :: "response option \<Rightarrow> nat \<Rightarrow> bool"
  by (cases "left j") (simp_all add: hand_over_def)

lemma hand_over_same_route: "job_route (hand_over key tx out j) = job_route j"
  by (simp add: hand_over_def split: task.splits)

lemma solvent_without:
  assumes "length ns = length jobs" and "\<forall>k < length jobs. affords S E (left (jobs ! k)) (ns ! k) (P (job_route (jobs ! k)))"
    and "S w + sum_list ns + E w0 \<le> S w0 + E w" and "i < length jobs"
  shows "solvent P w0 (take i jobs @ drop (Suc i) jobs) (release h w)"
proof -
  let ?ns = "take i ns @ drop (Suc i) ns"
  have "sum_list ns = sum_list ?ns + ns ! i"
    using assms(1,4) by (subst id_take_nth_drop [of i ns]) simp_all
  then have "S (release h w) + sum_list ?ns + E w0 \<le> S w0 + E (release h w)" using assms(3) release_free by simp
  moreover have "affords S E (left ((take i jobs @ drop (Suc i) jobs) ! k)) (?ns ! k)
      (P (job_route ((take i jobs @ drop (Suc i) jobs) ! k)))"
    if "k < length jobs - 1" for k
    using that assms(1,2,4) by (simp add: nth_append)
  ultimately show ?thesis using assms(1,4) unfolding solvent_def by (intro exI [of _ ?ns]) auto
qed

lemma solvent_step:
  assumes "\<And>route req. affords S E (serve route req) 0 (P route)"
    and "serving_step serve (jobs, w) (jobs', w')" and "solvent P w0 jobs w"
  shows "solvent P w0 jobs' w'"
proof -
  obtain ns where ns: "length ns = length jobs"
      "\<forall>k < length jobs. affords S E (left (jobs ! k)) (ns ! k) (P (job_route (jobs ! k)))"
      "S w + sum_list ns + E w0 \<le> S w0 + E w"
    using assms(3) unfolding solvent_def by blast
  from assms(2) show ?thesis
  proof cases
    case (arrive route req)
    then show ?thesis
      using ns assms(1) unfolding solvent_def by (intro exI [of _ "ns @ [0]"]) (auto simp: nth_append less_Suc_eq)
  next
    case (progress i h g t)
    then have "affords S E (Step h g) (ns ! i) (P (job_route (jobs ! i)))" using ns(2) by metis
    from affords_step [OF this progress(4)] solvent_update [OF ns] progress(1-3) show ?thesis by blast
  next
    case (publish i h key out t)
    let ?jobs = "map (hand_over key (inflight w key) out) jobs"
    have "affords S E t (ns ! i) (P (job_route (jobs ! i)))" using ns(2) publish(3,4) by (metis affords.simps(3))
    moreover have "\<forall>k < length ?jobs. affords S E (left (?jobs ! k)) (ns ! k) (P (job_route (?jobs ! k)))"
      using ns(2) affords_hand_over by (simp add: hand_over_same_route)
    moreover have "?jobs ! i = jobs ! i" using publish(3,4) by (simp add: hand_over_def)
    ultimately show ?thesis
      using solvent_update [of ns ?jobs P w w0 i t "ns ! i" w] ns(1,3) publish(1-3) by simp
  next
    case (closed i h key rx f)
    then have "affords S E (f None) (ns ! i) (P (job_route (jobs ! i)))" using ns(2) by (metis affords.simps(4))
    then show ?thesis using solvent_update [OF ns closed(3)] closed(1,2) by simp
  next
    case (disconnect i)
    then show ?thesis using solvent_without [OF ns] by simp
  qed
qed

lemma jobs_solvent:
  assumes "\<And>route req. affords S E (serve route req) 0 (P route)"
    and "(serving_step serve)\<^sup>*\<^sup>* ([], w0) (jobs, w)"
  shows "solvent P w0 jobs w"
  using assms(2)
proof (induction "(jobs, w)" arbitrary: jobs w rule: rtranclp_induct)
  case base
  show ?case by (simp add: solvent_def)
next
  case (step s)
  then show ?case using solvent_step [OF assms(1)] by (cases s) simp
qed

lemma earned_pays_for_spent: "solvent P w0 jobs w \<Longrightarrow> S w + E w0 \<le> S w0 + E w"
  unfolding solvent_def by auto

text \<open>When a kind of answer is only given with one in hand, there are no more of them than was earned.\<close>

lemma earned_pays_for_answers:
  assumes "solvent P w0 jobs w" and "\<And>j r m. kind j \<Longrightarrow> left j = Done r \<Longrightarrow> P (job_route j) r m \<Longrightarrow> 1 \<le> m"
    and "\<And>j. kind j \<Longrightarrow> \<exists>r. left j = Done r"
  shows "length (filter kind jobs) + S w + E w0 \<le> S w0 + E w"
proof -
  obtain ns where ns: "length ns = length jobs"
      "\<forall>i < length jobs. affords S E (left (jobs ! i)) (ns ! i) (P (job_route (jobs ! i)))"
      "S w + sum_list ns + E w0 \<le> S w0 + E w"
    using assms(1) unfolding solvent_def by blast
  have "list_all2 (\<lambda>j n. kind j \<longrightarrow> 1 \<le> n) jobs ns"
    unfolding list_all2_conv_all_nth
  proof (intro conjI allI impI)
    fix i assume i: "i < length jobs" "kind (jobs ! i)"
    obtain r where r: "left (jobs ! i) = Done r" using assms(3) [OF i(2)] by blast
    have "P (job_route (jobs ! i)) r (ns ! i)" using ns(2) i(1) r by (metis affords.simps(1))
    with assms(2) [OF i(2) r] show "1 \<le> ns ! i" by blast
  qed (simp add: ns(1))
  then have "length (filter kind jobs) \<le> sum_list ns" by (induction rule: list_all2_induct) auto
  with ns(3) show ?thesis by linarith
qed

end

section \<open>PINs\<close>

definition pins_logged :: "ustr \<Rightarrow> world \<Rightarrow> nat" where
  "pins_logged k w = length (filter (\<lambda>l. l = issued_line k) (trace w))"

lemma pins_logged_emit:
  "pins_logged k (w\<lparr>trace := trace w @ [l]\<rparr>) = pins_logged k w + (if l = issued_line k then 1 else 0)"
  by (simp add: pins_logged_def)

subsection \<open>Effects that touch no book\<close>

definition same_books :: "world \<Rightarrow> world \<Rightarrow> bool" where
  "same_books w w' \<longleftrightarrow> limiter_log w' = limiter_log w \<and> trace w' = trace w \<and> request_log w' = request_log w"

interpretation books: effect_relation same_books
  by unfold_locales (auto simp: same_books_def)

lemma books_statements [frame_simps]:
  "state_io_rel same_books (execute D (select_secret s))"
  "state_io_rel same_books (execute D (upsert_secret s ct n))"
  "state_io_rel same_books (execute D (update_last_used s))"
  by (rule execute_effect; auto simp: same_books_def select_secret_def upsert_secret_def update_last_used_def
      split: option.splits)+

lemma books_effects [frame_simps]:
  "state_io_rel same_books (draw f)"
  "state_io_rel same_books (join_or_lead key)" "state_io_rel same_books (drop_guard key)"
  by (auto simp: state_io_rel_def same_books_def join_or_lead_def drop_guard_def split: option.splits)

lemma books_operations [frame_simps]:
  "state_io_rel same_books (secret_get A D self s)" "state_io_rel same_books (touch_last_used D self s)"
  "state_io_rel same_books (encrypt A c p)" "state_io_rel same_books (totp_provision T s)"
  unfolding secret_get_def touch_last_used_def encrypt_def totp_provision_def
  by (auto intro!: books.keeps_bind books.keeps_return frame_simps)

lemma release_books: "same_books w (release h w)"
  by (cases h) (simp_all add: drop_guard_def same_books_def)

lemma other_lines [simp]:
  "authenticated_line s \<noteq> issued_line k" "rate_limited_line s' \<noteq> issued_line k" "not_admin_line s \<noteq> issued_line k"
  "provisioned_line s a \<noteq> issued_line k" "error_log e \<noteq> issued_line k"
  by (simp_all add: authenticated_line_def rate_limited_line_def not_admin_line_def provisioned_line_def issued_line_def)
    (cases e; simp)

lemma other_level [simp]: "level l \<noteq> Info \<Longrightarrow> l \<noteq> issued_line k"
  by (auto simp: issued_line_def)

subsection \<open>What pays for a PIN\<close>

text \<open>
  Books \<open>E\<close> in which nothing is ever crossed out, for the subjects of \<open>who\<close>: a check of the limiter
  \<open>G\<close> that passes for one of them adds \<open>c\<close>, an attempt to record a PIN issued to one of them adds \<open>r\<close>.
  The log line of such a PIN costs \<open>d\<close> of \<open>S\<close>, which one of the two pays for; what is left is in hand
  when the PIN is answered.
\<close>

locale pin_books = account S E for S E +
  fixes who :: "ustr \<Rightarrow> bool" and G :: governor and g :: governor_config and c r d :: nat
  assumes books_kept: "same_books w w' \<Longrightarrow> S w' = S w \<and> E w' = E w"
    and line_kept: "E w \<le> E (w\<lparr>trace := trace w @ [l]\<rparr>)"
    and other_line: "(\<And>s. who s \<Longrightarrow> l \<noteq> issued_line s) \<Longrightarrow> S (w\<lparr>trace := trace w @ [l]\<rparr>) = S w"
    and issued_line_costs: "S (w\<lparr>trace := trace w @ [issued_line s]\<rparr>) \<le> S w + d"
    and row_kept: "state_io_rel (\<lambda>w w'. S w' = S w \<and> E w \<le> E w') (execute D (insert_log u s' res))"
    and check_free: "run_state (limiter_check G g key) w = (admitted, w') \<Longrightarrow> S w' = S w"
    and check_earns: "run_state (limiter_check G g key) w = (admitted, w') \<Longrightarrow>
      E w + (if admitted \<and> who key then c else 0) \<le> E w'"
    and row_earns: "0 < r \<Longrightarrow> who s \<Longrightarrow> affords S E (log_request_task D st (Some s) Issued) n (\<lambda>_ m. n + r \<le> m)"
    and funded: "d \<le> c + r"
begin

abbreviation pays :: "'a task \<Rightarrow> nat \<Rightarrow> ('a \<Rightarrow> nat \<Rightarrow> bool) \<Rightarrow> bool" where
  "pays \<equiv> affords S E"

lemma books_free:
  assumes "state_io_rel same_books m"
  shows "state_io_rel (\<lambda>w w'. S w' = S w \<and> E w \<le> E w') m"
proof -
  have "S w' = S w \<and> E w \<le> E w'" if "same_books w w'" for w w' using books_kept [OF that] by simp
  with assms show ?thesis by (auto simp: state_io_rel_def)
qed

lemma emit_free:
  "(\<And>s. who s \<Longrightarrow> l \<noteq> issued_line s) \<Longrightarrow> state_io_rel (\<lambda>w w'. S w' = S w \<and> E w \<le> E w') (emit l)"
  using line_kept other_line by (auto simp: state_io_rel_def)

lemmas free_step = affords_free_seq [OF books_free] and free_line = affords_free_seq [OF emit_free]

lemma pays_log_request: "pays (log_request_task D st s res) n (\<lambda>_ m. m = n)"
  unfolding log_request_task_def
  by (auto intro!: free_step frame_simps affords_free_seq [OF row_kept] affords_free [OF emit_free] split: sum.splits)

lemma pays_issued_row: "who s \<Longrightarrow> pays (log_request_task D st (Some s) Issued) n (\<lambda>_ m. n + r \<le> m)"
  by (cases "0 < r") (use row_earns in \<open>auto intro: affords_mono [OF pays_log_request]\<close>)

lemma pays_reply_error: "pays (reply_error_task e) n (\<lambda>a m. a = Some (fst (into_response e)) \<and> m = n)"
  unfolding reply_error_task_def by (auto simp: into_response_def intro!: free_line)

lemma pays_call: "pays (call_task K cl tok) n (\<lambda>_ m. m = n)"
  unfolding call_task_def by (auto intro!: free_step frame_simps split: sum.splits)

lemma pays_introspect: "pays (introspect_task K cl tok) n (\<lambda>_ m. m = n)"
proof -
  have lead: "pays (tbind (call_task K cl tok) (\<lambda>outcome.
      tbind (send_outcome key outcome) (\<lambda>_. tbind (atomically (drop_guard key)) (\<lambda>_. Done outcome)))) n (\<lambda>_ m. m = n)"
    for key
    by (rule affords_seq [OF pays_call]) (auto simp: send_outcome_def intro!: free_step frame_simps)
  show ?thesis
    unfolding introspect_task_def Let_def
    by (rule free_step) (auto intro!: frame_simps affords_guarded lead pays_call
        simp: recv_outcome_def split: option.splits)
qed

text \<open>The line of an issued PIN is the one thing that costs.\<close>

definition fee :: "authenticated_user \<Rightarrow> nat" where
  "fee user = (if who (subject user) then c else 0)"

lemma pays_issued_line:
  assumes "who (subject user) \<Longrightarrow> d + m \<le> n" and "\<not> who (subject user) \<Longrightarrow> m = n" and "\<And>m'. m \<le> m' \<Longrightarrow> Q a m'"
  shows "pays (tbind (atomically (emit (issued_line (subject user)))) (\<lambda>_. Done a)) n Q"
proof (rule affords_tbind, rule affords_atomically)
  fix w u w' assume "run_state (emit (issued_line (subject user))) w = (u, w')"
  then have w': "w' = w\<lparr>trace := trace w @ [issued_line (subject user)]\<rparr>" by simp
  have "S w' + m + E w \<le> S w + n + E w'"
  proof (cases "who (subject user)")
    case True
    then show ?thesis
      using issued_line_costs [of w "subject user"] line_kept [of w "issued_line (subject user)"] assms(1) w' by fastforce
  next
    case False
    then have "S w' = S w" unfolding w' by (intro other_line) (auto simp: issued_line_def)
    then show ?thesis using line_kept [of w "issued_line (subject user)"] assms(2) False w' by simp
  qed
  then show "\<exists>n'. S w' + n' + E w \<le> S w + n + E w' \<and> pays (Done a) n' Q"
    using assms(3) by (intro exI [of _ m]) simp
qed

text \<open>What is in hand with a result: for a PIN of one of the subjects, what its line has left.\<close>

definition left_over :: "authenticated_user \<Rightarrow> (app_error, json) result option \<Rightarrow> nat \<Rightarrow> bool" where
  "left_over user a m \<longleftrightarrow> (who (subject user) \<longrightarrow> (\<forall>j. a = Some (Inr j) \<longrightarrow> c + r - d \<le> m))"

lemma pays_issue_pin: "pays (issue_pin_task X st user secret) (fee user) (left_over user)"
proof -
  have logged: "pays (tbind (log_request_task D self (Some (subject user)) Issued) (\<lambda>_.
      tbind (atomically (emit (issued_line (subject user)))) (\<lambda>_. Done a))) (fee user) (left_over user)" for D self a
  proof (cases "who (subject user)")
    case True
    show ?thesis
      by (rule affords_seq [OF pays_issued_row [OF True]], rule pays_issued_line [where m = "c + r - d"])
        (use True funded in \<open>auto simp: fee_def left_over_def\<close>)
  next
    case False
    then show ?thesis
      by (intro affords_seq [OF pays_log_request] pays_issued_line) (auto simp: left_over_def)
  qed
  show ?thesis
    unfolding issue_pin_task_def
    by (rule free_step, rule frame_simps)
      (auto intro!: free_step frame_simps logged simp: left_over_def split: option.splits sum.splits)
qed

lemma pays_request_pin: "pays (request_pin_task X st user) (fee user) (left_over user)"
  unfolding request_pin_task_def
  by (rule free_step, rule frame_simps)
    (auto intro!: pays_issue_pin affords_seq [OF pays_log_request] simp: left_over_def split: sum.splits option.splits)

text \<open>
  What is in hand with a response, when every subject counts: for a 200, what the line of its PIN
  has left. \<open>Refusals\<close> are the other responses.
\<close>

definition in_hand :: "response option \<Rightarrow> nat \<Rightarrow> bool" where
  "in_hand a m \<longleftrightarrow> ((\<forall>s. who s) \<and> status (error_response G TooManyRequests) \<noteq> 200 \<longrightarrow>
     (\<forall>resp. a = Some resp \<and> status resp = 200 \<longrightarrow> c + r - d \<le> m))"

definition asks_nothing_of_refusals :: "(response option \<Rightarrow> nat \<Rightarrow> bool) \<Rightarrow> bool" where
  "asks_nothing_of_refusals Q \<longleftrightarrow> (\<forall>m. Q None m \<and> Q (Some (error_response G TooManyRequests)) m \<and>
     (\<forall>e. Q (Some (fst (into_response e))) m))"

lemma refusals_free: "asks_nothing_of_refusals in_hand" "asks_nothing_of_refusals (\<lambda>_ _. True)"
proof -
  have "status (fst (into_response e)) \<noteq> 200" for e by (cases e) (simp_all add: into_response_def)
  then show "asks_nothing_of_refusals in_hand" by (auto simp: asks_nothing_of_refusals_def in_hand_def)
qed (simp add: asks_nothing_of_refusals_def)

lemma pays_refusal:
  assumes "asks_nothing_of_refusals Q"
  shows "pays (reply_error_task e) n Q"
  by (rule affords_mono [OF pays_reply_error]) (use assms in \<open>auto simp: asks_nothing_of_refusals_def\<close>)

lemma pays_respond:
  assumes "asks_nothing_of_refusals Q" and "\<And>j. a = Some (Inr j) \<Longrightarrow> Q (Some \<lparr>status = 200, body = Json j\<rparr>) n"
  shows "pays (respond_task a) n Q"
  using assms(2) by (cases a rule: respond.cases)
    (auto intro: pays_refusal [OF assms(1)] assms(1) [unfolded asks_nothing_of_refusals_def, THEN spec, THEN conjunct1])

lemma pays_pin_service:
  assumes "extension_user req = Some user"
  shows "pays (request_pin_task_service X st req) (fee user) in_hand"
  unfolding request_pin_task_service_def assms option.case
  by (rule affords_seq [OF pays_request_pin], rule pays_respond [OF refusals_free(1)])
    (auto simp: left_over_def in_hand_def)

lemma pays_upsert: "pays (secret_upsert_task A D self s p) n (\<lambda>_ m. m = n)"
  unfolding secret_upsert_task_def by (rule free_step, rule frame_simps) (auto intro!: free_step frame_simps split: sum.splits)

lemma pays_provision: "pays (provision_task X st admin payload) n (\<lambda>_ _. True)"
proof -
  have stored: "pays (tbind (secret_upsert_task A D self s p) (\<lambda>stored.
      case stored of
        Inl e \<Rightarrow> Done (Some (Inl e))
      | Inr _ \<Rightarrow> tbind (log_request_task D self s' res) (\<lambda>_.
          tbind (atomically (emit (provisioned_line s a))) (\<lambda>_. Done j)))) n (\<lambda>_ _. True)"
    for A D self s p s' res a and j :: "(app_error, json) result option"
    by (rule affords_seq [OF pays_upsert])
      (auto intro!: affords_seq [OF pays_log_request] free_line split: sum.splits)
  have "pays (tbind (atomically (totp_provision T s)) (\<lambda>made.
      case made of Inl e \<Rightarrow> Done (Some (Inl e)) | Inr p \<Rightarrow> f p)) n (\<lambda>_ _. True)"
    if "\<And>p. pays (f p) n (\<lambda>_ _. True)" for T s and f :: "provisioned_secret \<Rightarrow> (app_error, json) result option task"
    by (rule free_step, rule frame_simps) (auto intro: that split: sum.splits)
  note made = this
  show ?thesis unfolding provision_task_def Let_def by (auto intro!: free_line made stored)
qed

lemma pays_provision_service: "pays (provision_task_service X st req) n (\<lambda>_ _. True)"
  unfolding provision_task_service_def
  by (auto intro!: affords_seq [OF pays_provision] pays_respond [OF refusals_free(2)] split: option.splits sum.splits)

text \<open>A request that has passed the limiter has the fee in hand.\<close>

lemma pays_limiter:
  "pays (atomically (limiter_check G g s)) 0 (\<lambda>admitted m. m = (if admitted \<and> who s then c else 0))"
proof (rule affords_atomically)
  fix w admitted w' assume run: "run_state (limiter_check G g s) w = (admitted, w')"
  from check_free [OF run] check_earns [OF run] show "\<exists>n'. S w' + n' + E w \<le> S w + 0 + E w' \<and>
      n' = (if admitted \<and> who s then c else 0)" by simp
qed

lemma pays_governor:
  assumes "extension_user req = Some user" and "pays (h req) (fee user) Q" and "asks_nothing_of_refusals Q"
  shows "pays (governor_layer_task G g h req) 0 Q"
proof -
  have "pays (tbind (atomically (limiter_check G g (subject user))) (\<lambda>admitted.
      if admitted then h req else Done (Some (error_response G TooManyRequests)))) 0 Q"
    by (rule affords_seq [OF pays_limiter])
      (use assms(2,3) in \<open>auto simp: fee_def asks_nothing_of_refusals_def\<close>)
  with assms(1) show ?thesis by (simp add: governor_layer_task_def extract_key_def)
qed

lemma pays_audit_layer:
  assumes "pays (h req) 0 Q"
  shows "pays (audit_rate_limited_task X st h req) 0 Q"
  unfolding audit_rate_limited_task_def Let_def
  by (rule affords_seq [OF assms])
    (auto intro!: free_line affords_seq [OF pays_log_request] split: option.splits)

lemma pays_protected:
  assumes "governor X = G" and "\<And>req user. extension_user req = Some user \<Longrightarrow> pays (h req) (fee user) Q"
    and "asks_nothing_of_refusals Q"
  shows "pays (protected_task X st g h req) 0 Q"
proof -
  have inner: "pays (audit_rate_limited_task X st (governor_layer_task G g h) (req\<lparr>extension_user := Some user\<rparr>)) 0 Q"
    for req user by (rule pays_audit_layer, rule pays_governor [OF _ _ assms(3)]) (auto intro: assms(2))
  note refused = pays_refusal [OF assms(3)]
  have denied: "pays (tbind (log_request_task D self s res) (\<lambda>_. reply_error_task e)) 0 Q"
    for D self s res e
    by (rule affords_seq [OF pays_log_request]) (simp add: refused)
  have "pays (authenticate_task K cl tok) 0 (\<lambda>_ m. m = 0)" for K cl tok
    unfolding authenticate_task_def by (rule affords_seq [OF pays_introspect]) simp
  note auth = affords_seq [OF this]
  show ?thesis
    unfolding protected_task_def require_authentication_task_def assms(1)
    by (auto intro!: auth free_line inner refused denied split: option.splits sum.splits)
qed

text \<open>Every route pays; a 200 of the PIN route leaves something in hand.\<close>

definition promised :: "route \<Rightarrow> response option \<Rightarrow> nat \<Rightarrow> bool" where
  "promised route a m \<longleftrightarrow> (route = RequestPin \<longrightarrow> in_hand a m)"

lemma promised_pin:
  "promised RequestPin (Some resp) m \<Longrightarrow> (\<And>s. who s) \<Longrightarrow> status (error_response G TooManyRequests) \<noteq> 200 \<Longrightarrow>
     status resp = 200 \<Longrightarrow> c + r - d \<le> m"
  by (simp add: promised_def in_hand_def)

lemma pays_routes:
  assumes "governor X = G"
  shows "pays (task_routes X st g route req) 0 (promised route)"
proof (cases route)
  case RequestPin
  then show ?thesis
    using pays_protected [OF assms pays_pin_service refusals_free(1)] by (simp add: task_routes_def promised_def [abs_def])
next
  case Provision
  then show ?thesis
    using pays_protected [OF assms pays_provision_service refusals_free(2)] by (simp add: task_routes_def promised_def [abs_def])
qed (simp add: task_routes_def promised_def)

lemma routes_solvent:
  assumes "governor X = G" and "(serving_step (task_routes X st g))\<^sup>*\<^sup>* ([], w0) (jobs, w)"
  shows "solvent promised w0 jobs w"
  by (rule jobs_solvent [OF pays_routes [OF assms(1)] assms(2)])

lemmas pins_are_paid_for = earned_pays_for_spent [OF routes_solvent]

end

subsection \<open>Checks of the limiter pay\<close>

definition checks_passed :: "governor \<Rightarrow> governor_config \<Rightarrow> ustr \<Rightarrow> world \<Rightarrow> nat" where
  "checks_passed G g k w = length (granted G g k [] (limiter_log w))"

lemma granted_snoc:
  "granted G g k past (h @ [(k', t)]) =
     granted G g k past h @ (if k' = k \<and> admits G g (past @ h) k t then [t] else [])"
  by (induction h arbitrary: past) auto

lemma row_lines: "state_io_rel (\<lambda>w w'. trace w' = trace w) (execute D (insert_log u s res))"
  by (rule execute_effect) (auto simp: insert_log_def)

lemma log_request_limiter:
  "state_io_rel (\<lambda>w w'. checks_passed G g k w \<le> checks_passed G g k w') (execute D (insert_log u s res))"
proof -
  have "state_io_rel (\<lambda>w w'. limiter_log w' = limiter_log w) (execute D (insert_log u s res))"
    by (rule execute_effect) (auto simp: insert_log_def)
  then show ?thesis by (auto simp: state_io_rel_def checks_passed_def)
qed

interpretation checks: pin_books "pins_logged k" "checks_passed G g k" "\<lambda>s. s = k" G g 1 0 1 for k G g
proof unfold_locales
  show "same_books w w' \<Longrightarrow> pins_logged k w' = pins_logged k w \<and> checks_passed G g k w' = checks_passed G g k w" for w w'
    by (simp add: same_books_def checks_passed_def pins_logged_def)
  show "run_state (limiter_check G g s) w = (admitted, w') \<Longrightarrow>
      checks_passed G g k w + (if admitted \<and> s = k then 1 else 0) \<le> checks_passed G g k w'" for s w admitted w'
    by (auto simp: limiter_check_def checks_passed_def granted_snoc)
  show "checks_passed G g k w \<le> checks_passed G g k (w\<lparr>trace := trace w @ [l]\<rparr>)" for w l
    by (simp add: checks_passed_def)
  show "state_io_rel (\<lambda>w w'. pins_logged k w' = pins_logged k w \<and> checks_passed G g k w \<le> checks_passed G g k w')
      (execute D (insert_log u s res))" for D u s res
    using log_request_limiter row_lines by (auto simp: state_io_rel_def pins_logged_def)
  show "pins_logged k (release h w) = pins_logged k w" "checks_passed G g k (release h w) = checks_passed G g k w" for h w
    using release_books [of w h] by (simp_all add: pins_logged_def checks_passed_def same_books_def)
qed (auto simp: pins_logged_emit limiter_check_def pins_logged_def)

subsection \<open>Rows of the audit table pay\<close>

text \<open>
  The rows that say a PIN was issued to one of the subjects, and the lines that say that such a row
  was lost.
\<close>

definition rows_issued :: "(ustr \<Rightarrow> bool) \<Rightarrow> world \<Rightarrow> nat" where
  "rows_issued who w = length (filter (\<lambda>r. (\<exists>s. log_subject r = Some s \<and> who s) \<and> log_result r = as_str Issued) (request_log w))"

definition rows_lost :: "(ustr \<Rightarrow> bool) \<Rightarrow> world \<Rightarrow> nat" where
  "rows_lost who w = length (filter (\<lambda>l. \<exists>s. who s \<and> audit_lost (Some s) Issued l) (trace w))"

definition accounted :: "(ustr \<Rightarrow> bool) \<Rightarrow> world \<Rightarrow> nat" where
  "accounted who w = rows_issued who w + rows_lost who w"

lemma accounted_fields:
  "same_books w w' \<Longrightarrow> accounted who w' = accounted who w" "accounted who (w\<lparr>tick := n\<rparr>) = accounted who w"
  "accounted who w \<le> accounted who (w\<lparr>trace := trace w @ [l]\<rparr>)"
  "audit_lost (Some s) Issued l \<Longrightarrow> who s \<Longrightarrow> accounted who (w\<lparr>trace := trace w @ [l]\<rparr>) = Suc (accounted who w)"
  by (auto simp: same_books_def accounted_def rows_issued_def rows_lost_def)

lemma accounted_row:
  assumes "run_state (execute D (insert_log u s res)) w = (a, w')"
  shows "accounted who w \<le> accounted who w'"
    and "a = Inr x \<Longrightarrow> s = Some k \<Longrightarrow> who k \<Longrightarrow> res = as_str Issued \<Longrightarrow> Suc (accounted who w) \<le> accounted who w'"
  using assms
  by (auto simp: run_execute insert_log_def Let_def accounted_def rows_issued_def rows_lost_def
      split: option.splits if_splits)

text \<open>The log lines of the PINs issued to the subjects of \<open>P\<close>.\<close>

definition pin_lines :: "(ustr \<Rightarrow> bool) \<Rightarrow> world \<Rightarrow> nat" where
  "pin_lines P w = length (filter (\<lambda>l. \<exists>s. P s \<and> l = issued_line s) (trace w))"

lemma pin_lines_simps [simp]:
  "pin_lines (\<lambda>s. s = k) w = pins_logged k w" "pin_lines (\<lambda>_. False) w = 0" "pin_lines P (w\<lparr>tick := n\<rparr>) = pin_lines P w"
  "level l = Error \<Longrightarrow> pin_lines P (w\<lparr>trace := trace w @ [l]\<rparr>) = pin_lines P w"
  by (auto simp: pin_lines_def pins_logged_def issued_line_def)

lemma pin_lines_kept:
  "trace w' = trace w \<Longrightarrow> pin_lines P w' = pin_lines P w" "same_books w w' \<Longrightarrow> pin_lines P w' = pin_lines P w"
  by (simp_all add: pin_lines_def same_books_def)

interpretation row_account: account "pin_lines P" "accounted who" for P who
  by unfold_locales (rule pin_lines_kept(2) [OF release_books] accounted_fields(1) [OF release_books])+

lemma audit_row_kept:
  "state_io_rel (\<lambda>w w'. pin_lines P w' = pin_lines P w \<and> accounted who w \<le> accounted who w') (execute D (insert_log u s res))"
  unfolding state_io_rel_def
proof
  fix w
  obtain a w' where run: "run_state (execute D (insert_log u s res)) w = (a, w')" by fastforce
  have "trace w' = trace w" using state_io_relD [OF row_lines, of D u s res w] by (simp add: run)
  then have "pin_lines P w' = pin_lines P w" by (rule pin_lines_kept(1))
  with accounted_row(1) [OF run, of who] show "pin_lines P (snd (run_state (execute D (insert_log u s res)) w)) = pin_lines P w \<and>
      accounted who w \<le> accounted who (snd (run_state (execute D (insert_log u s res)) w))"
    by (simp add: run)
qed

lemma issued_row_earns:
  assumes "who k"
  shows "affords (pin_lines P) (accounted who) (log_request_task D st (Some k) Issued) n (\<lambda>_ m. n + 1 \<le> m)"
  unfolding log_request_task_def
proof (rule row_account.affords_free_seq)
  show "state_io_rel (\<lambda>w w'. pin_lines P w' = pin_lines P w \<and> accounted who w \<le> accounted who w') (draw (new_v4 D))"
    by (auto simp: state_io_rel_def accounted_fields(2))
  fix uuid
  let ?lost = "\<lambda>err. \<lparr>level = Error,
      log_fields = [(lit ''subject'', Display (case Some k of None \<Rightarrow> lit ''<unauthenticated>'' | Some s \<Rightarrow> s)),
        (lit ''result'', Display (as_str Issued)), (lit ''error'', DebugOf (Wrapped err))],
      message = lit ''failed to write the audit log entry''\<rparr>"
  have lost: "audit_lost (Some k) Issued (?lost err)" for err by (simp add: audit_lost_def)
  then have line: "affords (pin_lines P) (accounted who) (atomically (emit (?lost err))) n (\<lambda>_ m. n + 1 \<le> m)" for err
    by (intro row_account.affords_atomically exI [of _ "n + 1"]) (auto simp: accounted_fields(4) [where who = who, OF _ assms])
  show "affords (pin_lines P) (accounted who)
      (tbind (atomically (execute D (insert_log uuid (Some k) (as_str Issued)))) (\<lambda>outcome.
        case outcome of Inr _ \<Rightarrow> Done () | Inl err \<Rightarrow> atomically (emit (?lost err)))) n (\<lambda>_ m. n + 1 \<le> m)"
    (is "affords _ _ (tbind _ ?rest) _ _")
  proof (rule row_account.affords_tbind, rule row_account.affords_atomically)
    fix w a w' assume run: "run_state (execute D (insert_log uuid (Some k) (as_str Issued))) w = (a, w')"
    note row = accounted_row [OF run, where who = who]
    have "trace w' = trace w" using state_io_relD [OF row_lines, of D uuid "Some k" "as_str Issued" w]
      unfolding run by simp
    then have "pin_lines P w' = pin_lines P w" by (rule pin_lines_kept(1))
    then show "\<exists>n'. pin_lines P w' + n' + accounted who w \<le> pin_lines P w + n + accounted who w' \<and>
        affords (pin_lines P) (accounted who) (?rest a) n' (\<lambda>_ m. n + 1 \<le> m)"
      using row(1) row(2) [OF _ refl assms refl] line by (cases a) (auto intro: exI [of _ n] exI [of _ "n + 1"])
  qed
qed

lemma accounted_check:
  "run_state (limiter_check G g key) w = (admitted, w') \<Longrightarrow> pin_lines P w' = pin_lines P w \<and> accounted who w' = accounted who w"
  by (auto simp: limiter_check_def accounted_def rows_issued_def rows_lost_def pin_lines_def)

text \<open>Rows pay for the log lines of one subject's PINs, and for the answers to all subjects.\<close>

lemma row_books:
  assumes "\<And>s. P s \<Longrightarrow> who s" and "\<And>s. P s \<Longrightarrow> 1 \<le> d" and "d \<le> 1"
  shows "pin_books (pin_lines P) (accounted who) who G g 0 1 d"
proof unfold_locales
  show "same_books w w' \<Longrightarrow> pin_lines P w' = pin_lines P w \<and> accounted who w' = accounted who w" for w w'
    using accounted_fields(1) pin_lines_kept(2) by blast
  show "(\<And>s. who s \<Longrightarrow> l \<noteq> issued_line s) \<Longrightarrow> pin_lines P (w\<lparr>trace := trace w @ [l]\<rparr>) = pin_lines P w" for w l
    using assms(1) by (auto simp: pin_lines_def)
  show "pin_lines P (w\<lparr>trace := trace w @ [issued_line s]\<rparr>) \<le> pin_lines P w + d" for w s
    using assms(2) by (auto simp: pin_lines_def)
  show "run_state (limiter_check G g key) w = (admitted, w') \<Longrightarrow>
      accounted who w + (if admitted \<and> who key then 0 else 0) \<le> accounted who w'" for key w admitted w'
    using accounted_check [of G g key w admitted w' P who] by simp
  show "run_state (limiter_check G g key) w = (admitted, w') \<Longrightarrow> pin_lines P w' = pin_lines P w" for key w admitted w'
    using accounted_check [of G g key w admitted w' P who] by simp
  show "d \<le> 0 + 1" using assms(3) by simp
qed (rule accounted_fields(3) audit_row_kept | erule issued_row_earns)+

interpretation rows: pin_books "pin_lines (\<lambda>s. s = k)" "accounted (\<lambda>s. s = k)" "\<lambda>s. s = k" G g 0 1 1 for k G g
  by (rule row_books) simp_all

interpretation answers: pin_books "pin_lines (\<lambda>_. False)" "accounted (\<lambda>_. True)" "\<lambda>_. True" G g 0 1 0 for G g
  by (rule row_books) simp_all

section \<open>Properties\<close>

lemma granted_bound:
  assumes "token_bucket G" and "0 < period g" and "0 < unat (burst_size g)" and "\<forall>(s, t) \<in> set h. t \<le> T"
  shows "length (granted G g k [] h) \<le> unat (burst_size g) + T div period g"
proof -
  let ?p = "passing (period g) (unat (burst_size g)) 0 (times_of k h)"
  have "set (passing p b tat ts) \<subseteq> set ts" for p b tat ts
    by (induction ts arbitrary: tat) auto
  then have "\<forall>t \<in> set ?p. t \<in> set (times_of k h)" by blast
  moreover have "\<forall>t \<in> set (times_of k h). t \<le> T" using assms(4) by (auto simp: times_of_def)
  ultimately have "filter (\<lambda>t. 0 \<le> t \<and> t \<le> T) ?p = ?p" by (intro filter_True) simp
  with passing_bound [OF assms(3) refl, of 0 T "period g" 0 "times_of k h"]
  have "length ?p * period g \<le> T + unat (burst_size g) * period g" by auto
  then have "length ?p * period g div period g \<le> (T + unat (burst_size g) * period g) div period g"
    by (rule div_le_mono)
  then show ?thesis using assms(2) by (simp add: granted_passing [OF assms(1)])
qed

lemma demo_pin_served:
  obtains serve j resp w where "create_task_router demo_externals demo_state = Inr serve"
    and "(serving_step serve)\<^sup>*\<^sup>* ([], demo_world) ([j], w)" and "left j = Done (Some resp)" and "status resp = 200"
    and "job_route j = RequestPin"
proof -
  obtain serve where serve: "create_router demo_externals demo_state = Inr serve"
      "serve RequestPin = protected demo_externals demo_state demo_limits (request_pin_service demo_externals demo_state)"
    using demo_router by blast
  obtain tasks where tasks: "create_task_router demo_externals demo_state = Inr tasks"
      "alone (keycloak demo_externals) (tasks RequestPin demo_request) = serve RequestPin demo_request"
      "unblocked (tasks RequestPin demo_request) demo_world"
    using demo_tasks serve by blast
  let ?job = "\<lparr>job_route = RequestPin, job_request = demo_request, arrived = demo_world,
      left = tasks RequestPin demo_request\<rparr>"
  obtain resp w where run: "run_state (alone (keycloak demo_externals) (tasks RequestPin demo_request)) demo_world = (Some resp, w)"
      "status resp = 200"
    using demo_pin_status tasks(2) serve(2) by metis
  have reach: "(serving_step tasks)\<^sup>*\<^sup>* ([], demo_world) ([?job\<lparr>left := Done (Some resp)\<rparr>], w)"
    using serving_step.arrive [of tasks "[]" demo_world RequestPin demo_request]
      task_completes [of ?job, OF _ tasks(3) run(1)] by (simp add: converse_rtranclp_into_rtranclp)
  from that [OF tasks(1) reach _ run(2)] show ?thesis by simp
qed

text \<open>
  C9. A subject gets no more PINs than the limiter allows, also from the concurrent server: from a
  start with an unused limiter on, however requests for the subject and for others arrive, are
  interleaved and are dropped, the PINs issued to the subject by the time the limiter's clock
  shows \<open>T\<close> milliseconds are at most the configured budget and one for each refill period until
  then.
\<close>

theorem issued_pins_within_budget:
  assumes "create_task_router X st = Inr serve" and "token_bucket (governor X)" and "limiter_log w0 = []"
    and "(serving_step serve)\<^sup>*\<^sup>* ([], w0) (jobs, w)" and "\<forall>(s, t) \<in> set (limiter_log w). t \<le> T"
    and "budget = unat (rate_limit_max_requests (app_config st))"
  shows "pins_logged k w \<le> pins_logged k w0 + budget + T div unat (refill_millis (app_config st))"
proof -
  obtain g where g: "rate_limit_config (governor X) (app_config st) = Inr g" "serve = task_routes X st g"
    using assms(1) by (auto simp: create_task_router_def)
  have period: "period g = unat (refill_millis (app_config st))" "unat (burst_size g) = budget" "0 < period g"
    "0 < unat (burst_size g)"
    using g(1) assms(6) by (auto simp: rate_limit_config_ok [OF assms(2)] unat_gt_0)
  have "pins_logged k w + checks_passed (governor X) g k w0 \<le> pins_logged k w0 + checks_passed (governor X) g k w"
    by (rule checks.pins_are_paid_for [OF refl assms(4) [unfolded g(2)]])
  moreover have "checks_passed (governor X) g k w \<le> budget + T div period g"
    using granted_bound [OF assms(2) period(3,4) assms(5), of k] period(2) by (simp add: checks_passed_def)
  ultimately show ?thesis by (simp add: period(1))
qed

theorem issued_pins_within_budget_witness:
  "\<exists>serve j resp w T. create_task_router demo_externals demo_state = Inr serve \<and>
     (serving_step serve)\<^sup>*\<^sup>* ([], demo_world) ([j], w) \<and> left j = Done (Some resp) \<and> status resp = 200 \<and>
     pins_logged [117] w \<le> pins_logged [117] demo_world + unat (rate_limit_max_requests (app_config demo_state)) +
       T div unat (refill_millis (app_config demo_state))"
proof -
  obtain serve j resp w where run: "create_task_router demo_externals demo_state = Inr serve"
      "(serving_step serve)\<^sup>*\<^sup>* ([], demo_world) ([j], w)" "left j = Done (Some resp)" "status resp = 200"
    by (rule demo_pin_served)
  have bucket: "token_bucket (governor demo_externals)" using demo_token_bucket by (simp add: demo_externals_def)
  have empty: "limiter_log demo_world = []" by (simp add: demo_world_def demo_world_with_def world_init_def)
  have "\<forall>(s, t) \<in> set (limiter_log w). t \<le> sum_list (map snd (limiter_log w))"
    by (auto intro!: member_le_sum_list) force
  from issued_pins_within_budget [OF run(1) bucket empty run(2) this refl, of "[117]"] run
  show ?thesis by blast
qed

text \<open>The answer to a request for a PIN that carries one.\<close>

definition answered_with_pin :: "job \<Rightarrow> bool" where
  "answered_with_pin j \<longleftrightarrow> job_route j = RequestPin \<and>
     (case left j of Done (Some resp) \<Rightarrow> status resp = 200 | _ \<Rightarrow> False)"

text \<open>
  C25. Every PIN that is answered leaves an audit row of its own, or a line in the log that says its
  row was lost: while requests are served concurrently and dropped at any point, the requests
  answered with a PIN are never more than the rows written since the start that record an issued
  PIN and the lines that report such a row as lost, so no two answers share a row. For each subject
  the lines that say that a PIN was issued to it are bounded in the same way by the rows and lines
  that name it.
\<close>

theorem every_issued_pin_has_its_row:
  assumes "create_task_router X st = Inr serve" and "status (error_response (governor X) TooManyRequests) \<noteq> 200"
    and "(serving_step serve)\<^sup>*\<^sup>* ([], w0) (jobs, w)"
  shows "length (filter answered_with_pin jobs) + rows_issued (\<lambda>_. True) w0 + rows_lost (\<lambda>_. True) w0 \<le>
      rows_issued (\<lambda>_. True) w + rows_lost (\<lambda>_. True) w \<and>
    pins_logged k w + rows_issued (\<lambda>s. s = k) w0 + rows_lost (\<lambda>s. s = k) w0 \<le>
      pins_logged k w0 + rows_issued (\<lambda>s. s = k) w + rows_lost (\<lambda>s. s = k) w"
proof -
  obtain g where g: "serve = task_routes X st g" using assms(1) by (auto simp: create_task_router_def)
  note run = assms(3) [unfolded g]
  have "length (filter answered_with_pin jobs) + pin_lines (\<lambda>_. False) w + accounted (\<lambda>_. True) w0 \<le>
      pin_lines (\<lambda>_. False) w0 + accounted (\<lambda>_. True) w"
  proof (rule row_account.earned_pays_for_answers [OF answers.routes_solvent [OF refl run]])
    fix j a m assume j: "answered_with_pin j" "left j = Done a" "answers.promised (governor X) (job_route j) a m"
    then obtain resp where "a = Some resp" "status resp = 200" "job_route j = RequestPin"
      by (auto simp: answered_with_pin_def split: option.splits)
    with j(3) answers.promised_pin [of "governor X" resp m] assms(2) show "1 \<le> m" by simp
  qed (auto simp: answered_with_pin_def split: task.splits)
  moreover have "pin_lines (\<lambda>s. s = k) w + accounted (\<lambda>s. s = k) w0 \<le> pin_lines (\<lambda>s. s = k) w0 + accounted (\<lambda>s. s = k) w"
    by (rule rows.pins_are_paid_for [OF refl run])
  ultimately show ?thesis by (simp add: accounted_def)
qed

theorem every_issued_pin_has_its_row_witness:
  "\<exists>serve j w. create_task_router demo_externals demo_state = Inr serve \<and>
     (serving_step serve)\<^sup>*\<^sup>* ([], demo_world) ([j], w) \<and> answered_with_pin j \<and>
     1 \<le> rows_issued (\<lambda>_. True) w + rows_lost (\<lambda>_. True) w"
proof -
  obtain serve j resp w where run: "create_task_router demo_externals demo_state = Inr serve"
      "(serving_step serve)\<^sup>*\<^sup>* ([], demo_world) ([j], w)" "left j = Done (Some resp)" "status resp = 200"
      "job_route j = RequestPin"
    by (rule demo_pin_served)
  have law: "status (error_response (governor demo_externals) TooManyRequests) \<noteq> 200"
    by (simp add: demo_externals_def demo_governor_def)
  have "answered_with_pin j" using run(3-5) by (simp add: answered_with_pin_def)
  with every_issued_pin_has_its_row [OF run(1) law run(2)] run(1,2) show ?thesis by fastforce
qed

end
