(* ===== verification/End_To_End.thy ===== *)
theory End_To_End
  imports Routes Rfc6238
begin

text \<open>
  The two tests of \<^verbatim>\<open>totp-server/tests/e2e_integration.rs\<close>: a server with an empty database is asked
  for PINs, provisioned, asked again and asked too often. The tests are written out as programs
  over the served routes, and shown to pass whenever what surrounds the server works: these are
  the theorems that say that the server does its job, not only that it does nothing else. The last
  one asks for PINs at the pace at which the limiter gives out most, for any configuration.
\<close>

section \<open>Model\<close>

definition CLIENT_SECRET :: ustr where
  "CLIENT_SECRET = lit ''dev-secret-change-me''"

text \<open>The configuration of the harness; the containers' addresses are arguments.\<close>

definition harness_config :: "ustr \<Rightarrow> ustr \<Rightarrow> u32 \<Rightarrow> config" where
  "harness_config database keycloak_url rate_limit =
     \<lparr>database_url = database, host = lit ''127.0.0.1'', port = 0,
      keycloak_issuer = keycloak_url, keycloak_client_id = lit ''totp-server'',
      keycloak_client_secret = CLIENT_SECRET, expected_audience = lit ''totp-server'',
      admin_role = lit ''totp-admin'', encryption_key = replicate 32 9, totp_skew_steps = 1,
      rate_limit_max_requests = rate_limit, rate_limit_window_seconds = 300\<rparr>"

definition start_with_rate_limit ::
  "externals \<Rightarrow> (nat \<Rightarrow> (ustr, unit) result) \<Rightarrow> ustr \<Rightarrow> ustr \<Rightarrow> u32 \<Rightarrow> (anyhow, route \<Rightarrow> service) result" where
  "start_with_rate_limit X build database keycloak_url rate_limit =
     and_then (app_state_new build (harness_config database keycloak_url rate_limit)) (create_router X)"

text \<open>
  A request of the test client: the token goes into the header, and the body names a subject or
  is empty (which only the provisioning route would reject).
\<close>

definition posted :: "ustr option \<Rightarrow> ustr option \<Rightarrow> server_request" where
  "posted token subj =
     \<lparr>authorization = map_option (\<lambda>t. Inr (lit ''Bearer '' @ t)) token, extension_user = None,
      provision_payload = (case subj of
         None \<Rightarrow> Inl \<lparr>status = 422, body = Raw []\<rparr> | Some s \<Rightarrow> Inr \<lparr>for_subject = s\<rparr>)\<rparr>"

definition post :: "(route \<Rightarrow> service) \<Rightarrow> route \<Rightarrow> ustr option \<Rightarrow> ustr option \<Rightarrow> response option server" where
  "post serve route token subj = serve route (posted token subj)"

text \<open>An assertion on the status of an answer; the test fails if the connection breaks.\<close>

definition expecting :: "nat \<Rightarrow> response option server \<Rightarrow> (response \<Rightarrow> bool server) \<Rightarrow> bool server" where
  "expecting code m rest = do {
     answer \<leftarrow> m;
     case answer of
       None \<Rightarrow> State_Monad.return False
     | Some resp \<Rightarrow> if status resp = code then rest resp else State_Monad.return False
   }"

text \<open>\<open>value[key].as_str()\<close> and \<open>value[key].as_u64()\<close> on a JSON body.\<close>

definition json_field :: "string \<Rightarrow> response \<Rightarrow> json option" where
  "json_field k resp = (case body resp of Json (JObject fs) \<Rightarrow> map_of fs (lit k) | _ \<Rightarrow> None)"

fun as_text :: "json option \<Rightarrow> ustr option" where
  "as_text (Some (JString s)) = Some s"
| "as_text _ = None"

fun as_u64 :: "json option \<Rightarrow> nat option" where
  "as_u64 (Some (JNumber n)) = Some n"
| "as_u64 _ = None"

text \<open>The last part of the first test: who is refused.\<close>

definition refusals :: "(route \<Rightarrow> service) \<Rightarrow> ustr \<Rightarrow> ustr \<Rightarrow> ustr \<Rightarrow> bool server" where
  "refusals serve user_token wrong_audience subj =
   expecting 401 (post serve RequestPin None None) (\<lambda>_.
   expecting 401 (post serve RequestPin (Some (lit ''not-a-token'')) None) (\<lambda>_.
   expecting 403 (post serve RequestPin (Some wrong_audience) None) (\<lambda>_.
   expecting 403 (post serve Provision (Some user_token) (Some subj)) (\<lambda>_.
   State_Monad.return True))))"

definition provisions_a_secret_and_issues_a_matching_pin ::
  "(bytes \<Rightarrow> bytes \<Rightarrow> bytes) \<Rightarrow> (ustr \<Rightarrow> bytes option) \<Rightarrow> (nat \<Rightarrow> int) \<Rightarrow> (route \<Rightarrow> service) \<Rightarrow>
     ustr \<Rightarrow> ustr \<Rightarrow> ustr \<Rightarrow> ustr \<Rightarrow> bool server" where
  "provisions_a_secret_and_issues_a_matching_pin hmac decode32 wall serve
     admin_token user_token wrong_audience subj =
   expecting 404 (post serve RequestPin (Some user_token) None) (\<lambda>_.
   expecting 200 (post serve Provision (Some admin_token) (Some subj)) (\<lambda>provisioned.
   case (as_text (json_field ''secret_base32'' provisioned), as_text (json_field ''otpauth_url'' provisioned)) of
     (Some base32, Some url) \<Rightarrow>
       if \<not> prefix (lit ''otpauth://totp/'') url then State_Monad.return False
       else do {
         before \<leftarrow> draw wall;
         expecting 200 (post serve RequestPin (Some user_token) None) (\<lambda>issued. do {
           after \<leftarrow> draw wall;
           case (unix_now before, unix_now after, as_text (json_field ''pin'' issued),
                 as_u64 (json_field ''valid_for_seconds'' issued)) of
             (Some before, Some after, Some code, Some valid_for) \<Rightarrow>
               if length code = 6 \<and>
                 (expected_pin hmac decode32 base32 before = Some code \<or>
                  expected_pin hmac decode32 base32 after = Some code) \<and>
                 1 \<le> valid_for \<and> valid_for \<le> 30
               then refusals serve user_token wrong_audience subj
               else State_Monad.return False
           | _ \<Rightarrow> State_Monad.return False
         })
       }
   | _ \<Rightarrow> State_Monad.return False))"

definition LIMIT :: nat where
  "LIMIT = 6"

text \<open>The statuses of \<open>n\<close> requests in a row.\<close>

primrec statuses :: "(route \<Rightarrow> service) \<Rightarrow> ustr \<Rightarrow> nat \<Rightarrow> nat option list server" where
  "statuses serve user_token 0 = State_Monad.return []"
| "statuses serve user_token (Suc n) = do {
     answer \<leftarrow> post serve RequestPin (Some user_token) None;
     rest \<leftarrow> statuses serve user_token n;
     State_Monad.return (map_option status answer # rest)
   }"

definition enforces_the_per_subject_rate_limit ::
  "(route \<Rightarrow> service) \<Rightarrow> ustr \<Rightarrow> ustr \<Rightarrow> ustr \<Rightarrow> bool server" where
  "enforces_the_per_subject_rate_limit serve admin_token user_token subj = do {
     answer \<leftarrow> post serve Provision (Some admin_token) (Some subj);
     answers \<leftarrow> statuses serve user_token (LIMIT + 2);
     State_Monad.return
       (answer \<noteq> None \<and> None \<notin> set answers \<and>
        length (filter (\<lambda>s. s = Some 200) answers) = LIMIT \<and>
        list_all (\<lambda>s. s = Some 429) (take 2 (rev answers)))
   }"

section \<open>What surrounds the server\<close>

text \<open>
  Nothing fails: statements of the database, building the generator; the wall clock is after the
  epoch; and the limiter is a token bucket. For the end-to-end tests, moreover, encryption succeeds,
  the wall clock does not go back and crosses at most one boundary of the 30-second steps; the generator implements the function the test computes; the limiter is a token bucket
  with a clock that does not go back.
\<close>

definition nothing_fails :: "externals \<Rightarrow> bool" where
  "nothing_fails X \<longleftrightarrow>
     (\<forall>t. sqlx_fault (db X) t = None) \<and> (\<forall>b. builder_build (totp_rs X) b = Inr b) \<and>
     (\<forall>t. 0 \<le> system_time X t) \<and> token_bucket (governor X)"

definition all_is_well :: "externals \<Rightarrow> (bytes \<Rightarrow> bytes \<Rightarrow> bytes) \<Rightarrow> (ustr \<Rightarrow> bytes option) \<Rightarrow> bool" where
  "all_is_well X hmac decode32 \<longleftrightarrow>
     (\<forall>t. sqlx_fault (db X) t = None) \<and>
     aead_laws (aead X) \<and> (\<forall>k n p. seal (aead X) k n p \<noteq> None) \<and>
     totp_laws (totp_rs X) \<and> (\<forall>b. builder_build (totp_rs X) b = Inr b) \<and>
     (\<forall>b. \<exists>rest. totp_to_url (totp_rs X) b = Inr (lit ''otpauth://totp/'' @ rest)) \<and>
     (\<forall>sec t. expected_pin hmac decode32 (secret_to_base32 (totp_rs X) sec) t =
        Some (totp_generate (totp_rs X) (pin_builder sec) t)) \<and>
     (\<forall>t t'. t \<le> t' \<longrightarrow> 0 \<le> system_time X t \<and> system_time X t \<le> system_time X t' \<and> system_time X t' < 2 ^ 64 \<and>
        system_time X t' div 30 \<le> system_time X t div 30 + 1) \<and>
     token_bucket (governor X) \<and> (\<forall>t t'. t \<le> t' \<longrightarrow> limiter_now (governor X) t \<le> limiter_now (governor X) t')"

text \<open>What Keycloak says of a token, whenever it is asked.\<close>

definition token_is :: "externals \<Rightarrow> introspection_client \<Rightarrow> ustr \<Rightarrow> introspection_outcome \<Rightarrow> bool" where
  "token_is X client tok out \<longleftrightarrow>
     tok \<noteq> [] \<and> trim tok = tok \<and> (\<forall>d t. call_outcome (keycloak X) client tok d t = out)"

section \<open>Requests that go well\<close>

definition same_limiter :: "world \<Rightarrow> world \<Rightarrow> bool" where
  "same_limiter w w' \<longleftrightarrow> limiter_log w' = limiter_log w"

interpretation limiter: effect_relation same_limiter
  by unfold_locales (auto simp: same_limiter_def)

lemmas limiter_intros = limiter.keeps_return limiter.keeps_bind limiter.keeps_try_then

lemma limiter_statements:
  "limiter_log (snd (upsert_secret subj ct n now w)) = limiter_log w"
  "limiter_log (snd (update_last_used subj now w)) = limiter_log w"
  "limiter_log (snd (insert_log uuid s r now w)) = limiter_log w"
  by (simp_all add: upsert_secret_def update_last_used_def insert_log_def split: option.splits)

lemma limiter_effects:
  "state_io_rel same_limiter (draw f)" "state_io_rel same_limiter (emit l)"
  "state_io_rel same_limiter (execute D (select_secret subj))"
  "state_io_rel same_limiter (execute D (upsert_secret subj ct n))"
  "state_io_rel same_limiter (execute D (update_last_used subj))"
  "state_io_rel same_limiter (execute D (insert_log uuid s r))"
  by ((rule execute_effect; simp add: same_limiter_def limiter_statements)
      | simp add: state_io_rel_def same_limiter_def)+

lemma limiter_log_request: "state_io_rel same_limiter (log_request D self s r)"
  unfolding log_request_def by (auto intro!: limiter_intros limiter_effects split: sum.splits)

lemma limiter_reply_error: "state_io_rel same_limiter (reply_error e)"
  unfolding reply_error_def by (auto intro!: limiter_intros limiter_effects)

lemma limiter_respond: "state_io_rel same_limiter (respond r)"
  by (cases r rule: respond.cases) (auto intro!: limiter_intros limiter_reply_error)

lemma limiter_services:
  "state_io_rel same_limiter (request_pin_service X st req)"
  "state_io_rel same_limiter (provision_service X st req)"
  unfolding request_pin_service_def request_pin_def issue_pin_def secret_get_def touch_last_used_def
    provision_service_def provision_def totp_provision_def secret_upsert_def encrypt_def Let_def
  by (auto intro!: limiter_intros limiter_effects limiter_log_request limiter_respond limiter_reply_error
      split: option.splits sum.splits prod.splits)

text \<open>The handlers, when nothing around them fails.\<close>

lemma well_nothing_fails:
  assumes "all_is_well X hmac decode32"
  shows "nothing_fails X"
proof -
  have "0 \<le> system_time X t" for t using assms unfolding all_is_well_def by (metis order_refl)
  moreover have "\<forall>t. sqlx_fault (db X) t = None" "\<forall>b. builder_build (totp_rs X) b = Inr b" "token_bucket (governor X)"
    using assms by (simp_all add: all_is_well_def)
  ultimately show ?thesis by (simp add: nothing_fails_def)
qed

definition pin_at :: "totp_rs \<Rightarrow> bytes \<Rightarrow> int \<Rightarrow> generated_pin" where
  "pin_at T sec t =
     \<lparr>pin = totp_generate T (pin_builder sec) (of_int t), valid_for_seconds = 30 - of_int t mod 30\<rparr>"

lemma generate_well:
  assumes "nothing_fails X"
  shows "generate (totp_rs X) (system_time X t) sec = Some (Inr (pin_at (totp_rs X) sec (system_time X t)))"
proof -
  have "0 \<le> system_time X t" "builder_build (totp_rs X) (pin_builder sec) = Inr (pin_builder sec)"
    using assms unfolding nothing_fails_def by blast+
  moreover have "generate_at (totp_rs X) sec u =
      Inr \<lparr>pin = totp_generate (totp_rs X) (pin_builder sec) u, valid_for_seconds = 30 - u mod 30\<rparr>" for u
    using calculation(2) by (simp add: generate_at_ok)
  ultimately show ?thesis by (simp add: generate_def unix_now_def pin_at_def)
qed

lemma get_well:
  assumes "nothing_fails X" and "vault_ok (aead X) self w"
  shows "run_state (secret_get (aead X) (db X) self s) w = (Inr (vault_of (aead X) self w s), w\<lparr>tick := Suc (tick w)\<rparr>)"
proof -
  have "sqlx_fault (db X) (tick w) = None" using assms(1) by (simp add: nothing_fails_def)
  then show ?thesis
    using assms(2)
    by (auto simp: secret_get_def run_execute select_secret_def vault_of_def vault_ok_def row_secret_def Let_def
        split: option.splits sum.splits)
qed

lemma request_pin_well:
  assumes "nothing_fails X" and "vault_ok (aead X) (secrets st) w"
  shows "fst (run_state (request_pin X st user) w) =
    Some (case vault_of (aead X) (secrets st) w (subject user) of
            None \<Rightarrow> Inl NotFound
          | Some sec \<Rightarrow> Inr (pin_response (pin_at (totp_rs X) sec (system_time X (Suc (tick w))))))"
    and "vault_of (aead X) (secrets st) w (subject user) \<noteq> None \<Longrightarrow>
      tick (snd (run_state (request_pin X st user) w)) = tick w + 5"
proof -
  have fault: "sqlx_fault (db X) t = None" for t using assms(1) by (simp add: nothing_fails_def)
  show "fst (run_state (request_pin X st user) w) =
    Some (case vault_of (aead X) (secrets st) w (subject user) of
            None \<Rightarrow> Inl NotFound
          | Some sec \<Rightarrow> Inr (pin_response (pin_at (totp_rs X) sec (system_time X (Suc (tick w))))))"
    by (simp add: request_pin_def get_well [OF assms] issue_pin_def generate_well [OF assms(1)]
        touch_last_used_def run_execute fault update_last_used_def Let_def
        split: option.split prod.split)
  show "tick (snd (run_state (request_pin X st user) w)) = tick w + 5"
    if "vault_of (aead X) (secrets st) w (subject user) \<noteq> None"
    using that
    by (auto simp: request_pin_def get_well [OF assms] issue_pin_def generate_well [OF assms(1)]
        touch_last_used_def run_execute fault update_last_used_def log_request_def insert_log_def Let_def
        split: option.split prod.split sum.split)
qed

lemma pin_service_status:
  assumes "nothing_fails X" and "vault_ok (aead X) (secrets st) w" and "extension_user req = Some user"
  shows "\<exists>resp. fst (run_state (request_pin_service X st req) w) = Some resp \<and>
    status resp = (if vault_of (aead X) (secrets st) w (subject user) = None then 404 else 200)"
proof -
  obtain r w' where run: "run_state (request_pin X st user) w = (r, w')" by fastforce
  with request_pin_well [OF assms(1,2), of user] assms(3) show ?thesis
    by (cases "vault_of (aead X) (secrets st) w (subject user)")
      (simp_all add: request_pin_service_def run_reply_error)
qed

lemma provision_well:
  assumes "all_is_well X hmac decode32" and "has_role admin (admin_role (app_config st))"
    and "trim (for_subject payload) \<noteq> []"
  shows "\<exists>p. fst (run_state (provision X st admin payload) w) = Some (Inr (provision_response p)) \<and>
    prefix (lit ''otpauth://totp/'') (otpauth_url p)"
proof -
  have well: "\<And>t. sqlx_fault (db X) t = None" "\<And>k n p. \<exists>c. seal (aead X) k n p = Some c"
    "\<And>b. builder_build (totp_rs X) b = Inr b"
    "\<And>b. \<exists>rest. totp_to_url (totp_rs X) b = Inr (lit ''otpauth://totp/'' @ rest)"
    using assms(1) unfolding all_is_well_def by auto
  obtain b where b: "generator (totp_rs X) (secret_generate (totp_rs X) (tick w)) (trim (for_subject payload)) = Inr b"
    using well(3) by (simp add: generator_def)
  obtain rest where "totp_to_url (totp_rs X) b = Inr (lit ''otpauth://totp/'' @ rest)" using well(4) by blast
  moreover obtain c where "seal (aead X) (cipher_key (crypto_of (secrets st))) (gen_nonce (aead X) (Suc (tick w)))
      (secret_generate (totp_rs X) (tick w)) = Some c"
    using well(2) by blast
  ultimately show ?thesis
    using assms(2,3) b
    by (auto simp: provision_def totp_provision_def secret_upsert_def run_encrypt run_execute well(1)
        upsert_secret_def Let_def split: prod.split)
qed

section \<open>Requests through all layers\<close>

text \<open>
  The state between two requests of a test: the stored secrets, the checks the limiter has seen,
  each at a time read from its clock, and no introspection in flight.
\<close>

definition read_before :: "governor \<Rightarrow> nat \<Rightarrow> (ustr \<times> nat) list \<Rightarrow> bool" where
  "read_before G n L \<longleftrightarrow> snd ` set L \<subseteq> limiter_now G ` {..<n}"

definition standing ::
  "externals \<Rightarrow> app_state \<Rightarrow> (ustr \<Rightarrow> bytes option) \<Rightarrow> (ustr \<times> nat) list \<Rightarrow> world \<Rightarrow> bool" where
  "standing X st V L w \<longleftrightarrow>
     server_inv X st w \<and> vault_of (aead X) (secrets st) w = V \<and> limiter_log w = L \<and>
     read_before (governor X) (tick w) L"

lemma read_before_mono: "read_before G n L \<Longrightarrow> n \<le> m \<Longrightarrow> read_before G m L"
  by (fastforce simp: read_before_def)

lemma read_before_snoc: "read_before G n L \<Longrightarrow> n \<le> m \<Longrightarrow> read_before G (Suc m) (L @ [(k, limiter_now G m)])"
  by (fastforce simp: read_before_def)

lemma standing_later:
  assumes "standing X st V L w" and "extends w w'" and "same_inflight w w'" and "same_limiter w w'"
    and "vault_ok (aead X) (secrets st) w'" and "vault_of (aead X) (secrets st) w' = V'"
  shows "standing X st V' L w'"
  using assms read_before_mono [of "governor X" "tick w" L "tick w'"]
  by (simp add: standing_def server_inv_def extends_def same_inflight_def same_limiter_def)

lemma standing_tick: "standing X st V L w \<Longrightarrow> standing X st V L (w\<lparr>tick := Suc (tick w)\<rparr>)"
  using read_before_mono [of "governor X" "tick w" L "Suc (tick w)"] by (simp add: standing_def server_inv_def)

text \<open>What a layer's request goes through when its token is good.\<close>

lemma run_protected:
  assumes st: "standing X st V L w" and tok: "bearer_token req = Some tok"
    and user: "\<And>d t. call_outcome (keycloak X) (introspection st) tok d t = Active user"
    and law: "status (error_response (governor X) TooManyRequests) = 429"
  obtains n w1 where "tick w < n" "tick w1 = Suc n" "extends w w1" "same_inflight w w1"
      "standing X st V (L @ [(subject user, limiter_now (governor X) n)]) w1"
      "\<And>h. admits (governor X) g L (subject user) (limiter_now (governor X) n) \<Longrightarrow>
         (\<exists>r w'. run_state (h (req\<lparr>extension_user := Some user\<rparr>)) w1 = (Some r, w') \<and> status r \<noteq> 429) \<Longrightarrow>
         run_state (protected X st g h req) w = run_state (h (req\<lparr>extension_user := Some user\<rparr>)) w1"
      "\<And>h. \<not> admits (governor X) g L (subject user) (limiter_now (governor X) n) \<Longrightarrow>
         \<exists>w'. run_state (protected X st g h req) w = (Some (error_response (governor X) TooManyRequests), w') \<and>
           tick w1 \<le> tick w' \<and> standing X st V (L @ [(subject user, limiter_now (governor X) n)]) w'"
proof -
  have idle: "inflight w = Map.empty" and L: "limiter_log w = L"
    using st by (simp_all add: standing_def server_inv_def)
  obtain n where auth: "run_state (authenticate (keycloak X) (introspection st) tok) w = (Inr user, w\<lparr>tick := n\<rparr>)"
      "tick w < n"
    using run_authenticate_alone [of w "keycloak X" tok "introspection st"] idle user by auto
  let ?t = "limiter_now (governor X) n"
  let ?w = "w\<lparr>trace := trace w @ [authenticated_line (subject user)], tick := Suc n,
      limiter_log := L @ [(subject user, ?t)]\<rparr>"
  let ?req = "req\<lparr>extension_user := Some user\<rparr>"
  have w: "extends w ?w" "same_inflight w ?w" using auth(2) by (simp_all add: extends_def same_inflight_def)
  have standing: "standing X st V (L @ [(subject user, ?t)]) ?w"
    using st auth(2) read_before_snoc [of "governor X" "tick w" L n "subject user"]
    by (simp add: standing_def server_inv_def vault_ok_def vault_of_def fun_eq_iff)
  have key: "extract_key ?req = Inr (subject user)" by (simp add: extract_key_def)
  show thesis
  proof (rule that [OF auth(2) _ w standing])
    show "tick ?w = Suc n" by simp
    show "run_state (protected X st g h req) w = run_state (h ?req) ?w"
      if "admits (governor X) g L (subject user) ?t"
        "\<exists>r w'. run_state (h ?req) ?w = (Some r, w') \<and> status r \<noteq> 429" for h
      using that tok auth L key
      by (auto simp: protected_def require_authentication_def audit_rate_limited_def governor_layer_def Let_def)
    fix h assume no: "\<not> admits (governor X) g L (subject user) ?t"
    let ?v = "?w\<lparr>trace := trace ?w @ [rate_limited_line (Some (subject user))]\<rparr>"
    let ?log = "log_request (db X) (secrets st) (Some (subject user)) RateLimitedResult"
    obtain w' where log: "run_state ?log ?v = ((), w')" by (cases "run_state ?log ?v") simp
    have "run_state (protected X st g h req) w = (Some (error_response (governor X) TooManyRequests), w')"
      using no tok auth L key law log
      by (simp add: protected_def require_authentication_def audit_rate_limited_def governor_layer_def Let_def)
    moreover have "extends ?v w'" "same_inflight ?v w'" "same_secrets ?v w'" "same_limiter ?v w'"
      using audit.keeps_run [OF log_request_effects(1) log] flights.keeps_run [OF log_request_effects(3) log]
        vault.keeps_run [OF log_request_effects(2) log] limiter.keeps_run [OF limiter_log_request log] by simp_all
    moreover have "standing X st V (L @ [(subject user, ?t)]) ?v"
      using standing by (simp add: standing_def server_inv_def vault_ok_def vault_of_def fun_eq_iff)
    ultimately show "\<exists>w'. run_state (protected X st g h req) w = (Some (error_response (governor X) TooManyRequests), w') \<and>
        tick ?w \<le> tick w' \<and> standing X st V (L @ [(subject user, ?t)]) w'"
      using standing_later [of X st V "L @ [(subject user, ?t)]" ?v w' V] vault_same_secrets [of ?v w' "aead X" "secrets st"]
      by (auto simp: standing_def server_inv_def extends_def)
  qed
qed

lemma bearer_auth:
  assumes "tok \<noteq> []" and "trim tok = tok"
  shows "bearer_token (posted (Some tok) s) = Some tok"
proof -
  have "lit ''Bearer '' = lit ''Bearer'' @ [32]" "32 \<notin> set (lit ''Bearer'')"
    "map to_ascii_lowercase (lit ''Bearer'') = map to_ascii_lowercase (lit ''bearer'')"
    by (simp_all add: lit_def to_ascii_lowercase_def)
  then show ?thesis using assms by (auto simp: posted_def bearer_token_Some eq_ignore_ascii_case_def)
qed

lemma post_signed_in:
  assumes well: "all_is_well X hmac decode32" and serve: "serve route = protected X st g h"
    and tok: "token_is X (introspection st) tok (Active user)" and st: "standing X st V L w"
  obtains n w1 where "tick w < n" "tick w1 = Suc n"
      "standing X st V (L @ [(subject user, limiter_now (governor X) n)]) w1"
      "\<And>r w'. admits (governor X) g L (subject user) (limiter_now (governor X) n) \<Longrightarrow>
         run_state (h ((posted (Some tok) s)\<lparr>extension_user := Some user\<rparr>)) w1 = (Some r, w') \<Longrightarrow> status r \<noteq> 429 \<Longrightarrow>
         run_state (post serve route (Some tok) s) w = (Some r, w')"
      "\<not> admits (governor X) g L (subject user) (limiter_now (governor X) n) \<Longrightarrow>
         \<exists>r w'. run_state (post serve route (Some tok) s) w = (Some r, w') \<and> status r = 429 \<and>
           tick w1 \<le> tick w' \<and> standing X st V (L @ [(subject user, limiter_now (governor X) n)]) w'"
proof -
  have law: "status (error_response (governor X) TooManyRequests) = 429"
    using well by (simp add: all_is_well_def token_bucket_def)
  have bearer: "bearer_token (posted (Some tok) s) = Some tok" using tok by (simp add: token_is_def bearer_auth)
  have user: "call_outcome (keycloak X) (introspection st) tok d t = Active user" for d t
    using tok by (simp add: token_is_def)
  show thesis
    by (rule run_protected [OF st bearer user law, of g], rule that, assumption, assumption, assumption)
      (use law in \<open>force simp: post_def serve\<close>)+
qed

text \<open>What the handlers answer from a given state.\<close>

lemma pin_service_answer:
  assumes well: "all_is_well X hmac decode32" and st: "standing X st V L w"
  obtains resp w' where
      "run_state (request_pin_service X st (req\<lparr>extension_user := Some user\<rparr>)) w = (Some resp, w')"
      "standing X st V L w'" "tick w \<le> tick w'" "status resp \<noteq> 429"
      "case V (subject user) of
         None \<Rightarrow> status resp = 404
       | Some sec \<Rightarrow> \<exists>t. tick w \<le> t \<and> t < tick w' \<and>
           resp = \<lparr>status = 200, body = Json (pin_response (pin_at (totp_rs X) sec (system_time X t)))\<rparr>"
proof -
  let ?req = "req\<lparr>extension_user := Some user\<rparr>"
  have ok: "vault_ok (aead X) (secrets st) w" "vault_of (aead X) (secrets st) w = V"
    using st by (simp_all add: standing_def server_inv_def)
  obtain r w' where run: "run_state (request_pin_service X st ?req) w = (r, w')" by fastforce
  note frame = audit.keeps_run [OF service_frame(1) run] flights.keeps_run [OF service_frame(2) run]
    contents.keeps_run [OF service_frame(3) run] limiter.keeps_run [OF limiter_services(1) run]
  obtain resp where r: "r = Some resp" "status resp = (if V (subject user) = None then 404 else 200)"
    using pin_service_status [OF well_nothing_fails [OF well] ok(1), of ?req user] run ok(2) by auto
  have "case V (subject user) of None \<Rightarrow> status resp = 404
      | Some sec \<Rightarrow> \<exists>t. tick w \<le> t \<and> t < tick w' \<and>
          resp = \<lparr>status = 200, body = Json (pin_response (pin_at (totp_rs X) sec (system_time X t)))\<rparr>"
  proof (cases rule: pin_service_cases [OF ok(1) run])
    case (4 sec t u p)
    have "p = pin_at (totp_rs X) sec (system_time X t)"
      using generate_well [OF well_nothing_fails [OF well], of t sec] 4(4,5) by (simp add: generate_def)
    with 4 r ok(2) show ?thesis by auto
  qed (use r ok(2) in \<open>auto split: if_splits\<close>)
  moreover have "standing X st V L w'"
    using standing_later [OF st frame(1,2,4)] frame(3) ok by (simp add: same_vault_def)
  ultimately show thesis using that r run frame(1) by (simp add: extends_def)
qed

lemma provision_service_answer:
  assumes well: "all_is_well X hmac decode32" and st: "standing X st V L w" and subj: "trim s = s" "s \<noteq> []"
    and req: "provision_payload req = Inr \<lparr>for_subject = s\<rparr>"
  obtains resp w' where
      "run_state (provision_service X st (req\<lparr>extension_user := Some user\<rparr>)) w = (Some resp, w')" "tick w \<le> tick w'"
      "\<not> has_role user (admin_role (app_config st)) \<Longrightarrow> status resp = 403 \<and> standing X st V L w'"
      "has_role user (admin_role (app_config st)) \<Longrightarrow>
         \<exists>p. resp = \<lparr>status = 200, body = Json (provision_response p)\<rparr> \<and>
           prefix (lit ''otpauth://totp/'') (otpauth_url p) \<and>
           secret_base32 p = secret_to_base32 (totp_rs X) (raw p) \<and> standing X st (V(s \<mapsto> raw p)) L w'"
proof -
  have ok: "vault_ok (aead X) (secrets st) w" "vault_of (aead X) (secrets st) w = V"
    using st by (simp_all add: standing_def server_inv_def)
  obtain r w' where run: "run_state (provision_service X st (req\<lparr>extension_user := Some user\<rparr>)) w = (r, w')" by fastforce
  note frame = audit.keeps_run [OF service_frame(4) run] flights.keeps_run [OF service_frame(5) run]
    limiter.keeps_run [OF limiter_services(2) run]
  have later: "tick w \<le> tick w'" using frame(1) by (simp add: extends_def)
  note standing = standing_later [OF st frame]
  show thesis
  proof (cases "has_role user (admin_role (app_config st))")
    case False
    then have r: "r = Some (fst (into_response Forbidden))" "same_secrets w w'"
      using run req by (auto simp: provision_service_def provision_def run_reply_error same_secrets_def)
    then have "standing X st V L w'" using standing ok vault_same_secrets [OF r(2)] by metis
    with False r(1) run later show thesis by (intro that [of "fst (into_response Forbidden)" w']) simp_all
  next
    case True
    obtain q w2 where made: "run_state (provision X st user \<lparr>for_subject = s\<rparr>) w = (Some (Inr (provision_response q)), w2)"
        "prefix (lit ''otpauth://totp/'') (otpauth_url q)"
      using provision_well [OF well True, of "\<lparr>for_subject = s\<rparr>" w] subj by (metis prod.collapse provision_request.select_convs(1))
    then have r: "r = Some \<lparr>status = 200, body = Json (provision_response q)\<rparr>" "w' = w2"
      using run req by (simp_all add: provision_service_def)
    obtain p where p: "provision_response q = provision_response p" "secret_base32 p = secret_to_base32 (totp_rs X) (raw p)"
        "vault_ok (aead X) (secrets st) w'" "vault_of (aead X) (secrets st) w' = V(s \<mapsto> raw p)"
      by (cases rule: provision_cases [OF ok(1) made(1)]) (use r(2) ok(2) subj in auto)
    then have "otpauth_url p = otpauth_url q" by (simp add: provision_response_def)
    with True r(1) p made(2) run later standing [OF p(3,4)] show thesis by (intro that [of _ w']) auto
  qed
qed

text \<open>The same for whole requests.\<close>

lemma post_pin:
  assumes well: "all_is_well X hmac decode32" and serve: "serve RequestPin = protected X st g (request_pin_service X st)"
    and tok: "token_is X (introspection st) tok (Active user)" and st: "standing X st V L w"
  obtains n resp w' where "run_state (post serve RequestPin (Some tok) None) w = (Some resp, w')"
      "tick w \<le> n" "n < tick w'" "standing X st V (L @ [(subject user, limiter_now (governor X) n)]) w'"
      "\<not> admits (governor X) g L (subject user) (limiter_now (governor X) n) \<Longrightarrow> status resp = 429"
      "admits (governor X) g L (subject user) (limiter_now (governor X) n) \<Longrightarrow>
         (case V (subject user) of
            None \<Rightarrow> status resp = 404
          | Some sec \<Rightarrow> \<exists>t. tick w \<le> t \<and> t < tick w' \<and>
              resp = \<lparr>status = 200, body = Json (pin_response (pin_at (totp_rs X) sec (system_time X t)))\<rparr>)"
proof (rule post_signed_in [where serve = serve and s = None, OF well serve tok st])
  fix n w1
  assume n: "tick w < n" "tick w1 = Suc n" "standing X st V (L @ [(subject user, limiter_now (governor X) n)]) w1"
    and yes: "\<And>r w'. admits (governor X) g L (subject user) (limiter_now (governor X) n) \<Longrightarrow>
         run_state (request_pin_service X st ((posted (Some tok) None)\<lparr>extension_user := Some user\<rparr>)) w1 = (Some r, w') \<Longrightarrow>
         status r \<noteq> 429 \<Longrightarrow> run_state (post serve RequestPin (Some tok) None) w = (Some r, w')"
    and no: "\<not> admits (governor X) g L (subject user) (limiter_now (governor X) n) \<Longrightarrow>
         \<exists>r w'. run_state (post serve RequestPin (Some tok) None) w = (Some r, w') \<and> status r = 429 \<and>
           tick w1 \<le> tick w' \<and> standing X st V (L @ [(subject user, limiter_now (governor X) n)]) w'"
  obtain resp w' where h: "run_state (request_pin_service X st ((posted (Some tok) None)\<lparr>extension_user := Some user\<rparr>)) w1 = (Some resp, w')"
      "standing X st V (L @ [(subject user, limiter_now (governor X) n)]) w'" "tick w1 \<le> tick w'" "status resp \<noteq> 429"
    and resp: "case V (subject user) of None \<Rightarrow> status resp = 404
       | Some sec \<Rightarrow> \<exists>t. tick w1 \<le> t \<and> t < tick w' \<and>
           resp = \<lparr>status = 200, body = Json (pin_response (pin_at (totp_rs X) sec (system_time X t)))\<rparr>"
    by (rule pin_service_answer [OF well n(3)])
  have "case V (subject user) of None \<Rightarrow> status resp = 404
      | Some sec \<Rightarrow> \<exists>t. tick w \<le> t \<and> t < tick w' \<and>
          resp = \<lparr>status = 200, body = Json (pin_response (pin_at (totp_rs X) sec (system_time X t)))\<rparr>"
    using resp n(1,2) by (cases "V (subject user)") (simp_all, metis Suc_leD less_imp_le order_trans)
  then show thesis
    using that [of resp w' n] yes [OF _ h(1,4)] no that [of _ _ n] h(2,3) n(1,2)
    by (cases "admits (governor X) g L (subject user) (limiter_now (governor X) n)") fastforce+
qed

lemma post_provision:
  assumes well: "all_is_well X hmac decode32" and serve: "serve Provision = protected X st g (provision_service X st)"
    and tok: "token_is X (introspection st) tok (Active user)" and st: "standing X st V L w" and subj: "trim s = s" "s \<noteq> []"
    and admitted: "\<And>n. tick w \<le> n \<Longrightarrow> admits (governor X) g L (subject user) (limiter_now (governor X) n)"
  obtains n resp w' where "run_state (post serve Provision (Some tok) (Some s)) w = (Some resp, w')"
      "\<not> has_role user (admin_role (app_config st)) \<Longrightarrow> status resp = 403 \<and>
         standing X st V (L @ [(subject user, limiter_now (governor X) n)]) w'"
      "has_role user (admin_role (app_config st)) \<Longrightarrow>
         \<exists>p. resp = \<lparr>status = 200, body = Json (provision_response p)\<rparr> \<and>
           prefix (lit ''otpauth://totp/'') (otpauth_url p) \<and>
           secret_base32 p = secret_to_base32 (totp_rs X) (raw p) \<and>
           standing X st (V(s \<mapsto> raw p)) (L @ [(subject user, limiter_now (governor X) n)]) w'"
proof (rule post_signed_in [where serve = serve and s = "Some s", OF well serve tok st])
  fix n w1
  assume n: "tick w < n" "standing X st V (L @ [(subject user, limiter_now (governor X) n)]) w1"
    and yes: "\<And>r w'. admits (governor X) g L (subject user) (limiter_now (governor X) n) \<Longrightarrow>
         run_state (provision_service X st ((posted (Some tok) (Some s))\<lparr>extension_user := Some user\<rparr>)) w1 = (Some r, w') \<Longrightarrow>
         status r \<noteq> 429 \<Longrightarrow> run_state (post serve Provision (Some tok) (Some s)) w = (Some r, w')"
  have payload: "provision_payload (posted (Some tok) (Some s)) = Inr \<lparr>for_subject = s\<rparr>" by (simp add: posted_def)
  show thesis
  proof (rule provision_service_answer [OF well n(2) subj payload, of user])
    fix resp w'
    assume h: "run_state (provision_service X st ((posted (Some tok) (Some s))\<lparr>extension_user := Some user\<rparr>)) w1 = (Some resp, w')"
      and no: "\<not> has_role user (admin_role (app_config st)) \<Longrightarrow> status resp = 403 \<and>
         standing X st V (L @ [(subject user, limiter_now (governor X) n)]) w'"
      and role: "has_role user (admin_role (app_config st)) \<Longrightarrow>
         \<exists>p. resp = \<lparr>status = 200, body = Json (provision_response p)\<rparr> \<and>
           prefix (lit ''otpauth://totp/'') (otpauth_url p) \<and>
           secret_base32 p = secret_to_base32 (totp_rs X) (raw p) \<and>
           standing X st (V(s \<mapsto> raw p)) (L @ [(subject user, limiter_now (governor X) n)]) w'"
    have "status resp \<noteq> 429" using no role by force
    then show thesis by (rule that [OF yes [OF admitted [OF less_imp_le [OF n(1)]] h] no role])
  qed
qed

lemma post_denied:
  assumes serve: "serve route = protected X st g h" and st: "standing X st V L w"
    and tok: "case token of None \<Rightarrow> e = Unauthorized
      | Some tok \<Rightarrow> \<exists>out. token_is X (introspection st) tok out \<and> outcome_result out = Inl e"
    and e: "e = Unauthorized \<or> e = Forbidden"
  obtains resp w' where "run_state (post serve route token s) w = (Some resp, w')"
      "status resp = (if e = Unauthorized then 401 else 403)" "standing X st V L w'"
proof -
  let ?deny = "do { log_request (db X) (secrets st) None DeniedInactiveToken; reply_error e }"
  have "\<exists>n \<ge> tick w. run_state (post serve route token s) w = run_state ?deny (w\<lparr>tick := n\<rparr>)"
  proof (cases token)
    case None
    then show ?thesis
      using tok by (intro exI [of _ "tick w"])
        (simp add: post_def posted_def serve protected_def require_authentication_def bearer_token_def)
  next
    case (Some t)
    then obtain out where out: "token_is X (introspection st) t out" "outcome_result out = Inl e" using tok by auto
    have "inflight w (sha256 (keycloak X) t) = None" using st by (simp add: standing_def server_inv_def)
    from run_authenticate_alone [OF this, of "introspection st"] out
    obtain n where "run_state (authenticate (keycloak X) (introspection st) t) w = (Inl e, w\<lparr>tick := n\<rparr>)" "tick w < n"
      by (auto simp: token_is_def)
    with Some out(1) e show ?thesis
      by (intro exI [of _ n])
        (auto simp: post_def serve protected_def require_authentication_def token_is_def bearer_auth)
  qed
  then obtain n r w' where n: "tick w \<le> n" "run_state (post serve route token s) w = (r, w')"
      "run_state ?deny (w\<lparr>tick := n\<rparr>) = (r, w')"
    by (metis prod.collapse)
  note deny = deny_effects [OF n(3)]
  have "state_io_rel same_limiter ?deny"
    by (auto intro!: limiter_intros limiter_log_request limiter_reply_error)
  from limiter.keeps_run [OF this n(3)] have "same_limiter w w'" by (simp add: same_limiter_def)
  moreover have "extends w w'" "same_inflight w w'" "same_secrets w w'"
    using deny(3-5) n(1) by (auto simp: extends_def same_inflight_def same_secrets_def)
  ultimately have "standing X st V L w'"
    using standing_later [OF st] vault_same_secrets [of w w' "aead X" "secrets st"] st
    by (auto simp: standing_def server_inv_def)
  with n(2) deny(1) e show thesis by (intro that) (auto simp: into_response_def)
qed

section \<open>The limiter during a test\<close>

text \<open>Few checks, none of them later than now, leave room for one more.\<close>

lemma arrival_time_le:
  "\<forall>t' \<in> set ts. t' \<le> t \<Longrightarrow> arrival_time p b 0 ts \<le> t + length ts * p"
proof (induction ts rule: rev_induct)
  case (snoc x ts)
  then have "arrival_time p b 0 ts \<le> t + length ts * p" "x \<le> t" by simp_all
  then show ?case by (simp add: Let_def algebra_simps)
qed simp

lemma few_checks_pass:
  assumes "token_bucket G" and "length L < unat (burst_size g)" and "read_before G n L"
    and "\<forall>m m'. m \<le> m' \<longrightarrow> limiter_now G m \<le> limiter_now G m'" and "n \<le> m"
  shows "admits G g L k (limiter_now G m)"
proof -
  let ?ts = "times_of k L" and ?p = "period g"
  have "t \<le> limiter_now G m" if "t \<in> set ?ts" for t
  proof -
    have "t \<in> snd ` set L" using that by (auto simp: times_of_def)
    then obtain j where "j < n" "t = limiter_now G j" using assms(3) by (auto simp: read_before_def)
    with assms(4,5) show ?thesis by simp
  qed
  then have "\<forall>t \<in> set ?ts. t \<le> limiter_now G m" by blast
  from arrival_time_le [OF this]
  have "arrival_time ?p (unat (burst_size g)) 0 ?ts \<le> limiter_now G m + length ?ts * ?p" .
  moreover have "length ?ts \<le> length L" by (simp add: times_of_def)
  with assms(2) have "length ?ts \<le> unat (burst_size g) - 1" by linarith
  then have "length ?ts * ?p \<le> (unat (burst_size g) - 1) * ?p" by (rule mult_le_mono1)
  ultimately have "arrival_time ?p (unat (burst_size g)) 0 ?ts \<le> limiter_now G m + (unat (burst_size g) - 1) * ?p"
    by linarith
  then show ?thesis using assms(1) unfolding token_bucket_def conforms_def by blast
qed

text \<open>While no token comes back, a bucket passes exactly as many checks as it holds.\<close>

lemma conforms_burst:
  assumes "0 < b" and "y \<le> x" and "x < y + p"
  shows "conforms p b (y + min n b * p) x \<longleftrightarrow> n < b"
proof (cases "n < b")
  case True
  then have "n * p \<le> (b - 1) * p" by (intro mult_le_mono1) simp
  with True add_mono [OF assms(2) this] show ?thesis by (simp add: conforms_def)
next
  case False
  have "b * p = (b - 1) * p + p" using assms(1) by (cases b) simp_all
  with False assms(3) show ?thesis by (simp add: conforms_def)
qed

lemma arrival_time_burst:
  assumes "0 < b" and "ts \<noteq> []" and "\<forall>t \<in> set ts. hd ts \<le> t \<and> t < hd ts + p"
  shows "arrival_time p b 0 ts = hd ts + min (length ts) b * p"
  using assms(2,3)
proof (induction ts rule: rev_induct)
  case (snoc x ts)
  show ?case
  proof (cases ts)
    case Nil
    then show ?thesis using assms(1) by (simp add: conforms_def)
  next
    case (Cons y ys)
    then have x: "y \<le> x" "x < y + p" using snoc.prems by auto
    have IH: "arrival_time p b 0 ts = y + min (length ts) b * p" using snoc Cons by auto
    have first: "p \<le> min (length ts) b * p" using assms(1) Cons by (cases "min (length ts) b") simp_all
    with conforms_burst [OF assms(1) x, of "length ts"] IH x Cons show ?thesis by (auto simp: Let_def max_def min_def algebra_simps)
  qed
qed simp

lemma burst_admits:
  assumes "token_bucket G" and "0 < unat (burst_size g)" and "ts = times_of k L"
    and "\<forall>t \<in> set ts \<union> {x}. ts \<noteq> [] \<longrightarrow> hd ts \<le> t \<and> t < hd ts + period g"
  shows "admits G g L k x \<longleftrightarrow> length ts < unat (burst_size g)"
proof -
  have "admits G g L k x \<longleftrightarrow> conforms (period g) (unat (burst_size g)) (arrival_time (period g) (unat (burst_size g)) 0 ts) x"
    using assms(1,3) by (simp add: token_bucket_def)
  also have "\<dots> \<longleftrightarrow> length ts < unat (burst_size g)"
  proof (cases "ts = []")
    case False
    have "arrival_time (period g) (unat (burst_size g)) 0 ts = hd ts + min (length ts) (unat (burst_size g)) * period g"
      using assms(2,4) False by (intro arrival_time_burst) auto
    moreover have "hd ts \<le> x" "x < hd ts + period g" using assms(4) False by auto
    ultimately show ?thesis using conforms_burst [OF assms(2)] by simp
  qed (use assms(2) in \<open>simp add: conforms_def\<close>)
  finally show ?thesis .
qed

section \<open>Properties\<close>

lemma harness_serves:
  assumes "start_with_rate_limit X build database url n = Inr serve" and "token_bucket (governor X)"
  obtains st g where "app_config st = harness_config database url n"
    "introspection st = introspection_client_new (harness_config database url n)"
    "serve RequestPin = protected X st g (request_pin_service X st)"
    "serve Provision = protected X st g (provision_service X st)" "burst_size g = n" "0 < unat n"
    "period g = unat (300000 div ucast n :: u64)"
proof -
  obtain st where st: "app_state_new build (harness_config database url n) = Inr st" "create_router X st = Inr serve"
    using assms(1) by (auto simp: start_with_rate_limit_def elim!: and_then.elims)
  obtain g where g: "rate_limit_config (governor X) (app_config st) = Inr g"
      "serve RequestPin = protected X st g (request_pin_service X st)"
      "serve Provision = protected X st g (provision_service X st)"
    by (rule create_router_ok [OF st(2)])
  have conf: "app_config st = harness_config database url n"
    "introspection st = introspection_client_new (harness_config database url n)"
    using st(1) by (auto simp: app_state_new_def elim!: and_then.elims)
  from g(1) assms(2) have "burst_size g = n" "n \<noteq> 0" "period g = unat (300000 div ucast n :: u64)"
    by (auto simp: rate_limit_config_def conf token_bucket_def refill_millis_def harness_config_def split: if_splits)
  with g(2,3) conf that show thesis by (simp add: unat_gt_0)
qed

lemma fresh_standing:
  assumes "all_is_well X hmac decode32"
  shows "standing X st Map.empty [] world_init"
  using assms
  by (simp add: standing_def server_inv_def vault_ok_def vault_of_def world_init_def read_before_def
      all_is_well_def fun_eq_iff)

lemma totp_same_step:
  assumes "totp_laws T" and "u div 30 = v div (30 :: u64)"
  shows "totp_generate T (pin_builder sec) u = totp_generate T (pin_builder sec) v"
proof -
  have same: "u div b_step_duration b = v div b_step_duration b \<longrightarrow> totp_generate T b u = totp_generate T b v" for b
    using assms(1) unfolding totp_laws_def by blast
  have "b_step_duration (pin_builder sec) = 30" by (simp add: pin_builder_def)
  with assms(2) show ?thesis by (intro mp [OF same]) simp
qed

text \<open>
  A PIN computed between two readings of the clock is the one the test expects for the first or
  the second of them.
\<close>

lemma pin_between:
  assumes well: "all_is_well X hmac decode32" and "b \<le> t" "t \<le> a"
    and "base32 = secret_to_base32 (totp_rs X) sec"
  shows "expected_pin hmac decode32 base32 (of_int (system_time X b)) = Some (pin (pin_at (totp_rs X) sec (system_time X t))) \<or>
    expected_pin hmac decode32 base32 (of_int (system_time X a)) = Some (pin (pin_at (totp_rs X) sec (system_time X t)))"
proof -
  let ?s = "system_time X"
  have time: "0 \<le> ?s i \<and> ?s i \<le> ?s j \<and> ?s j < 2 ^ 64 \<and> ?s j div 30 \<le> ?s i div 30 + 1" if "i \<le> j" for i j
    using well that unfolding all_is_well_def by blast
  have "?s b div 30 \<le> ?s t div 30" "?s t div 30 \<le> ?s a div 30"
    using time [OF assms(2)] time [OF assms(3)] by (simp_all add: zdiv_mono1)
  with time [of b a] assms(2,3) have near: "?s t div 30 = ?s b div 30 \<or> ?s t div 30 = ?s a div 30" by linarith
  have same: "totp_generate (totp_rs X) (pin_builder sec) (of_int (?s i)) =
      totp_generate (totp_rs X) (pin_builder sec) (of_int (?s j))" if "?s i div 30 = ?s j div 30" for i j
  proof -
    have "(of_int (?s k) :: u64) div 30 = of_int (?s k div 30)" for k
    proof -
      have "0 \<le> ?s k" "?s k < 2 ^ 64" using time [of k k] by simp_all
      moreover from this(1) have "0 \<le> ?s k div 30" "?s k div 30 \<le> ?s k" by presburger+
      ultimately have "0 \<le> ?s k div 30" "?s k div 30 < 2 ^ 64" by linarith+
      with \<open>0 \<le> ?s k\<close> \<open>?s k < 2 ^ 64\<close> show ?thesis
        by (simp add: word_uint_eq_iff uint_div_distrib unsigned_of_int take_bit_int_eq_self)
    qed
    then have "(of_int (?s i) :: u64) div 30 = of_int (?s j) div 30" using that by simp
    moreover have "totp_laws (totp_rs X)" using well by (simp add: all_is_well_def)
    ultimately show ?thesis by (intro totp_same_step)
  qed
  have "expected_pin hmac decode32 base32 u = Some (totp_generate (totp_rs X) (pin_builder sec) u)" for u
    using well unfolding all_is_well_def assms(4) by blast
  then show ?thesis using near same [of t b] same [of t a] by (simp add: pin_at_def) metis
qed

lemma pin_response_fields:
  "as_text (json_field ''pin'' \<lparr>status = 200, body = Json (pin_response g)\<rparr>) = Some (pin g)"
  "as_u64 (json_field ''valid_for_seconds'' \<lparr>status = 200, body = Json (pin_response g)\<rparr>) =
     Some (unat (valid_for_seconds g))"
  by (simp_all add: json_field_def pin_response_def lit_def)

lemma provision_response_fields:
  "as_text (json_field ''secret_base32'' \<lparr>status = 200, body = Json (provision_response p)\<rparr>) = Some (secret_base32 p)"
  "as_text (json_field ''otpauth_url'' \<lparr>status = 200, body = Json (provision_response p)\<rparr>) = Some (otpauth_url p)"
  by (simp_all add: json_field_def provision_response_def lit_def)

lemma pin_at_ranges:
  assumes "all_is_well X hmac decode32"
  shows "length (pin (pin_at (totp_rs X) sec t)) = 6"
    "1 \<le> unat (valid_for_seconds (pin_at (totp_rs X) sec t))" "unat (valid_for_seconds (pin_at (totp_rs X) sec t)) \<le> 30"
proof -
  have "totp_laws (totp_rs X)" using assms by (simp add: all_is_well_def)
  then show "length (pin (pin_at (totp_rs X) sec t)) = 6"
    by (simp add: totp_laws_def pin_at_def pin_builder_def)
  have small: "of_int t mod (30 :: u64) < 30" by (simp add: word_mod_less_divisor)
  then have "unat (30 - of_int t mod (30 :: u64)) = 30 - unat (of_int t mod (30 :: u64))"
    by (simp add: unat_sub)
  moreover have "unat (of_int t mod (30 :: u64)) < 30" using small by (simp add: word_less_nat_alt)
  ultimately show "1 \<le> unat (valid_for_seconds (pin_at (totp_rs X) sec t))"
    "unat (valid_for_seconds (pin_at (totp_rs X) sec t)) \<le> 30"
    by (simp_all add: pin_at_def)
qed

lemma run_expecting:
  "run_state m w = (Some resp, w') \<Longrightarrow> status resp = code \<Longrightarrow> run_state (expecting code m rest) w = run_state (rest resp) w'"
  by (simp add: expecting_def)

lemma run_refusals:
  assumes "all_is_well X hmac decode32"
    and st: "serve RequestPin = protected X st g (request_pin_service X st)"
      "serve Provision = protected X st g (provision_service X st)"
    and tok: "token_is X (introspection st) user_token (Active user)"
      "token_is X (introspection st) wrong_audience WrongAudience"
      "token_is X (introspection st) (lit ''not-a-token'') Inactive"
    and "\<not> has_role user (admin_role (app_config st))" and start: "standing X st V L w"
    and subj: "trim s = s" "s \<noteq> []"
    and admitted: "\<And>w' n. standing X st V L w' \<Longrightarrow> tick w' \<le> n \<Longrightarrow>
      admits (governor X) g L (subject user) (limiter_now (governor X) n)"
  shows "\<exists>w'. run_state (refusals serve user_token wrong_audience s) w = (True, w')"
proof -
  obtain r1 w1 where 1: "run_state (post serve RequestPin None None) w = (Some r1, w1)"
      "status r1 = 401" "standing X st V L w1"
    by (rule post_denied [where serve = serve and token = None and e = Unauthorized, OF st(1) start]) auto
  obtain r2 w2 where 2: "run_state (post serve RequestPin (Some (lit ''not-a-token'')) None) w1 = (Some r2, w2)"
      "status r2 = 401" "standing X st V L w2"
    by (rule post_denied [where serve = serve and token = "Some (lit ''not-a-token'')" and e = Unauthorized, OF st(1) 1(3)])
      (use tok(3) in auto)
  obtain r3 w3 where 3: "run_state (post serve RequestPin (Some wrong_audience) None) w2 = (Some r3, w3)"
      "status r3 = 403" "standing X st V L w3"
    by (rule post_denied [where serve = serve and token = "Some wrong_audience" and e = Forbidden, OF st(1) 2(3)])
      (use tok(2) in auto)
  obtain r4 w4 where 4: "run_state (post serve Provision (Some user_token) (Some s)) w3 = (Some r4, w4)"
      "status r4 = 403"
    by (rule post_provision [where serve = serve, OF assms(1) st(2) tok(1) 3(3) subj])
      (use admitted [OF 3(3)] assms(7) in auto)
  show ?thesis
    by (simp add: refusals_def run_expecting [OF 1(1,2)] run_expecting [OF 2(1,2)] run_expecting [OF 3(1,2)]
        run_expecting [OF 4])
qed

text \<open>
  C4. The server does its job, as the end-to-end test has it: started on an empty database, while
  nothing around it fails, it has no PIN for a user (404); an administrator provisions a secret
  for the user (200, with the secret in base32 and its URL); now the user gets a PIN (200), of
  six digits, valid for 1 to 30 seconds, which is the one that an independent implementation of
  RFC 6238 computes from that secret for the time just before or just after the request; a
  missing or unknown token is refused (401), a token for another audience (403), and a user
  without the administrator's role who wants to provision (403).
\<close>

theorem end_to_end_test_passes:
  assumes "all_is_well X hmac decode32" and "start_with_rate_limit X build database url 100 = Inr serve"
    and "client = introspection_client_new (harness_config database url 100)"
    and "token_is X client admin_token (Active admin)" and "has_role admin (lit ''totp-admin'')"
    and "token_is X client user_token (Active user)" and "\<not> has_role user (lit ''totp-admin'')"
    and "token_is X client wrong_audience WrongAudience" and "token_is X client (lit ''not-a-token'') Inactive"
    and "trim (subject user) = subject user" and "subject user \<noteq> []"
  shows "\<exists>w'. run_state (provisions_a_secret_and_issues_a_matching_pin hmac decode32 (system_time X) serve
      admin_token user_token wrong_audience (subject user)) world_init = (True, w')"
proof -
  have bucket: "token_bucket (governor X)" "\<forall>m m'. m \<le> m' \<longrightarrow> limiter_now (governor X) m \<le> limiter_now (governor X) m'"
    using assms(1) by (simp_all add: all_is_well_def)
  obtain st g where st: "app_config st = harness_config database url 100" "introspection st = client"
      "serve RequestPin = protected X st g (request_pin_service X st)"
      "serve Provision = protected X st g (provision_service X st)" "burst_size g = 100"
    using harness_serves [OF assms(2) bucket(1)] assms(3) by metis
  have role: "admin_role (app_config st) = lit ''totp-admin''" by (simp add: st(1) harness_config_def)
  note tok = assms(4,6,8,9) [folded st(2)]
  have admitted: "admits (governor X) g L k (limiter_now (governor X) n)"
    if "standing X st V L w" "length L < 100" "tick w \<le> n" for V L w k n
    using few_checks_pass [OF bucket(1) _ _ bucket(2) that(3), of L g k] that(1,2) st(5) by (simp add: standing_def)
  note start = fresh_standing [OF assms(1), of st]
  obtain n1 r1 w1 where 1: "run_state (post serve RequestPin (Some user_token) None) world_init = (Some r1, w1)"
      "status r1 = 404" "standing X st Map.empty [(subject user, limiter_now (governor X) n1)] w1"
    by (rule post_pin [where serve = serve, OF assms(1) st(3) tok(2) start]) (use admitted [OF start] in auto)
  let ?L1 = "[(subject user, limiter_now (governor X) n1)]"
  obtain n2 p w2 where 2: "run_state (post serve Provision (Some admin_token) (Some (subject user))) w1 =
        (Some \<lparr>status = 200, body = Json (provision_response p)\<rparr>, w2)"
      "prefix (lit ''otpauth://totp/'') (otpauth_url p)" "secret_base32 p = secret_to_base32 (totp_rs X) (raw p)"
      "standing X st [subject user \<mapsto> raw p] (?L1 @ [(subject admin, limiter_now (governor X) n2)]) w2"
    by (rule post_provision [where serve = serve, OF assms(1) st(4) tok(1) 1(3) assms(10,11)])
      (use admitted [OF 1(3)] assms(5) role in auto)
  let ?L2 = "?L1 @ [(subject admin, limiter_now (governor X) n2)]"
  let ?w2 = "w2\<lparr>tick := Suc (tick w2)\<rparr>"
  have s2: "standing X st [subject user \<mapsto> raw p] ?L2 ?w2"
    by (rule standing_tick [OF 2(4)])
  obtain n3 t w3 where 3: "run_state (post serve RequestPin (Some user_token) None) ?w2 =
        (Some \<lparr>status = 200, body = Json (pin_response (pin_at (totp_rs X) (raw p) (system_time X t)))\<rparr>, w3)"
      "tick ?w2 \<le> t" "t < tick w3" "standing X st [subject user \<mapsto> raw p] (?L2 @ [(subject user, limiter_now (governor X) n3)]) w3"
    by (rule post_pin [where serve = serve, OF assms(1) st(3) tok(2) s2]) (use admitted [OF s2] in auto)
  let ?L3 = "?L2 @ [(subject user, limiter_now (governor X) n3)]"
  have s3: "standing X st [subject user \<mapsto> raw p] ?L3 (w3\<lparr>tick := Suc (tick w3)\<rparr>)" by (rule standing_tick [OF 3(4)])
  obtain w4 where 4: "run_state (refusals serve user_token wrong_audience (subject user)) (w3\<lparr>tick := Suc (tick w3)\<rparr>) = (True, w4)"
    using run_refusals [where serve = serve, OF assms(1) st(3,4) tok(2-4) _ s3 assms(10,11)] admitted assms(7) role by auto
  have times: "unix_now (system_time X i) = Some (of_int (system_time X i))" for i
    using assms(1) unfolding all_is_well_def by (simp add: unix_now_def) (metis not_less order_refl)
  have "tick w2 \<le> t" "t \<le> tick w3" using 3(2,3) by simp_all
  note pin = pin_between [OF assms(1) this 2(3)] pin_at_ranges [OF assms(1), of "raw p" "system_time X t"]
  have "run_state (provisions_a_secret_and_issues_a_matching_pin hmac decode32 (system_time X) serve
      admin_token user_token wrong_audience (subject user)) world_init = (True, w4)"
    using pin 2(2) 4
    by (simp add: provisions_a_secret_and_issues_a_matching_pin_def run_expecting [OF 1(1,2)] run_expecting [OF 2(1)]
        run_expecting [OF 3(1)] provision_response_fields pin_response_fields times)
  then show ?thesis by blast
qed

text \<open>Surroundings in which all is well: Keycloak knows the tokens \<open>admin\<close>, \<open>user\<close> and \<open>other\<close>.\<close>

definition lab_reply :: "ustr \<Rightarrow> introspection_response" where
  "lab_reply tok =
     \<lparr>active = tok \<in> {lit ''admin'', lit ''user'', lit ''other''}, sub = Some (lit ''subject-of-'' @ tok),
      aud = Some (One (if tok = lit ''other'' then lit ''account'' else lit ''totp-server'')), expires = None,
      realm = Some \<lparr>roles = if tok = lit ''admin'' then [lit ''totp-admin''] else []\<rparr>\<rparr>"

definition lab_externals :: externals where
  "lab_externals =
     \<lparr>aead = demo_aead, db = demo_db, totp_rs = rfc_totp_rs,
      keycloak = \<lparr>http_send = (\<lambda>_ req. Inr \<lparr>reply_status = 200, reply_status_text = lit ''200 OK'',
          reply_json = Inr (lab_reply (snd (hd (form req))))\<rparr>),
        utc_timestamp = (\<lambda>_. 0), sha256 = map of_nat, recv = (\<lambda>_ _. None)\<rparr>,
      governor = demo_governor\<lparr>limiter_now := (\<lambda>_. 7)\<rparr>, system_time = (\<lambda>_. 59),
      missing_extension = \<lparr>status = 500, body = Raw []\<rparr>\<rparr>"

lemma lab_well: "all_is_well lab_externals hmac_sha1 base32_decode"
proof -
  have "expected_pin hmac_sha1 base32_decode (base32_encode sec) t = Some (totp_generate rfc_totp_rs (pin_builder sec) t)" for sec t
    by (rule rfc_generate_expected) (rule base32_roundtrip)
  then have pins: "expected_pin hmac_sha1 base32_decode (secret_to_base32 rfc_totp_rs sec) t =
      Some (totp_generate rfc_totp_rs (pin_builder sec) t)" for sec t
    by (simp add: rfc_totp_rs_def)
  have bucket: "token_bucket (demo_governor\<lparr>limiter_now := (\<lambda>_. 7)\<rparr>)"
    by (simp add: token_bucket_def demo_governor_def)
  have rest: "builder_build rfc_totp_rs b = Inr b" "\<exists>rest. totp_to_url rfc_totp_rs b = Inr (lit ''otpauth://totp/'' @ rest)" for b
    by (simp_all add: rfc_totp_rs_def)
  show ?thesis
    unfolding all_is_well_def
    by (simp add: lab_externals_def demo_aead_laws rfc_totp_laws pins bucket rest)
      (simp add: demo_db_def demo_aead_def)
qed

definition lab_user :: "string \<Rightarrow> string list \<Rightarrow> authenticated_user" where
  "lab_user tok rs = \<lparr>subject = lit ''subject-of-'' @ lit tok, realm_roles = map lit rs\<rparr>"

lemma lab_tokens:
  assumes "client = introspection_client_new (harness_config database url n)"
  shows "token_is lab_externals client (lit ''admin'') (Active (lab_user ''admin'' [''totp-admin'']))"
    "token_is lab_externals client (lit ''user'') (Active (lab_user ''user'' []))"
    "token_is lab_externals client (lit ''other'') WrongAudience"
    "token_is lab_externals client (lit ''not-a-token'') Inactive"
  by (simp_all add: assms token_is_def call_outcome_def introspection_request_def introspection_client_new_def
      harness_config_def lab_externals_def lab_reply_def lab_user_def is_success_def evaluate_def lit_def
      trim_def trim_end_by_def is_whitespace_def)

lemma lab_serves:
  assumes "n = 6 \<or> n = 100"
  shows "\<exists>serve. start_with_rate_limit lab_externals (\<lambda>_. Inr ()) [] [] n = Inr serve"
  using assms
  by (auto simp: start_with_rate_limit_def app_state_new_def create_router_def rate_limit_config_def
      lab_externals_def demo_governor_def refill_millis_def harness_config_def)

lemma lab_subject:
  "trim (subject (lab_user ''user'' [])) = subject (lab_user ''user'' [])" "subject (lab_user ''user'' []) \<noteq> []"
  "subject (lab_user ''admin'' rs) \<noteq> subject (lab_user ''user'' [])"
  by (simp_all add: lab_user_def lit_def trim_def trim_end_by_def is_whitespace_def)

lemma lab_roles:
  "has_role (lab_user ''admin'' [''totp-admin'']) (lit ''totp-admin'')" "\<not> has_role (lab_user ''user'' []) (lit ''totp-admin'')"
  by (simp_all add: lab_user_def has_role_def)

theorem end_to_end_test_passes_witness:
  "\<exists>serve w'. start_with_rate_limit lab_externals (\<lambda>_. Inr ()) [] [] 100 = Inr serve \<and>
     run_state (provisions_a_secret_and_issues_a_matching_pin hmac_sha1 base32_decode (\<lambda>_. 59) serve
       (lit ''admin'') (lit ''user'') (lit ''other'') (lit ''subject-of-user'')) world_init = (True, w')"
proof -
  obtain serve where serve: "start_with_rate_limit lab_externals (\<lambda>_. Inr ()) [] [] 100 = Inr serve"
    using lab_serves by blast
  have "subject (lab_user ''user'' []) = lit ''subject-of-user''" "system_time lab_externals = (\<lambda>_. 59)"
    by (simp_all add: lab_user_def lit_def lab_externals_def)
  with end_to_end_test_passes [OF lab_well serve refl lab_tokens(1) [OF refl] lab_roles(1) lab_tokens(2) [OF refl]
      lab_roles(2) lab_tokens(3,4) [OF refl] lab_subject(1,2)] serve
  show ?thesis by simp
qed

text \<open>The statuses of a row of requests while no token comes back: the budget, then refusals.\<close>

lemma run_statuses:
  assumes well: "all_is_well X hmac decode32" and serve: "serve RequestPin = protected X st g (request_pin_service X st)"
    and tok: "token_is X (introspection st) tok (Active user)" and stored: "V (subject user) \<noteq> None"
    and burst: "0 < unat (burst_size g)"
    and quick: "\<And>m n. limiter_now (governor X) m < limiter_now (governor X) n + period g"
    and "standing X st V L w" and "sorted (times_of (subject user) L)"
  shows "\<exists>w'. run_state (statuses serve tok n) w =
    (map (\<lambda>i. Some (if length (times_of (subject user) L) + i < unat (burst_size g) then 200 else 429)) [0..<n], w')"
  using assms(7,8)
proof (induction n arbitrary: L w)
  case (Suc n)
  let ?ts = "times_of (subject user) L" and ?b = "unat (burst_size g)"
  obtain m resp w1 where post: "run_state (post serve RequestPin (Some tok) None) w = (Some resp, w1)"
      "tick w \<le> m" "standing X st V (L @ [(subject user, limiter_now (governor X) m)]) w1"
    and no: "\<not> admits (governor X) g L (subject user) (limiter_now (governor X) m) \<Longrightarrow> status resp = 429"
    and yes: "admits (governor X) g L (subject user) (limiter_now (governor X) m) \<Longrightarrow> status resp = 200"
  proof (rule post_pin [where serve = serve, OF well serve tok Suc.prems(1)], goal_cases)
    case (1 m resp w1)
    have "status resp = 200" if "admits (governor X) g L (subject user) (limiter_now (governor X) m)"
      using 1(7) [OF that] stored by auto
    with 1 show ?case by blast
  qed
  have bucket: "token_bucket (governor X)" using well by (simp add: all_is_well_def)
  have past: "t \<le> limiter_now (governor X) m \<and> (\<exists>j. t = limiter_now (governor X) j)" if "t \<in> set ?ts" for t
  proof -
    have "t \<in> snd ` set L" using that by (auto simp: times_of_def)
    then obtain j where "j < tick w" "t = limiter_now (governor X) j"
      using Suc.prems(1) by (auto simp: standing_def read_before_def)
    with post(2) well show ?thesis by (auto simp: all_is_well_def)
  qed
  have "hd ?ts \<le> t \<and> t < hd ?ts + period g"
    if t: "t \<in> set ?ts \<union> {limiter_now (governor X) m}" and ne: "?ts \<noteq> []" for t
  proof
    have first: "hd ?ts \<in> set ?ts" using ne by simp
    show "hd ?ts \<le> t"
      using t past [OF first] Suc.prems(2) ne by (cases ?ts) auto
    show "t < hd ?ts + period g" using t past [OF first] past quick by (metis UnE singletonD)
  qed
  then have "admits (governor X) g L (subject user) (limiter_now (governor X) m) \<longleftrightarrow> length ?ts < ?b"
    using burst_admits [OF bucket burst refl, of "subject user" L "limiter_now (governor X) m"] by blast
  then have status: "status resp = (if length ?ts < ?b then 200 else 429)" using yes no by auto
  have "sorted (times_of (subject user) (L @ [(subject user, limiter_now (governor X) m)]))"
    using Suc.prems(2) past by (auto simp: sorted_append)
  from Suc.IH [OF post(3) this] obtain w' where "run_state (statuses serve tok n) w1 =
      (map (\<lambda>i. Some (if Suc (length ?ts) + i < ?b then 200 else 429)) [0..<n], w')"
    by auto
  moreover have "[0..<Suc n] = 0 # map Suc [0..<n]" by (simp add: upt_conv_Cons map_Suc_upt del: upt_Suc)
  ultimately show ?case using post(1) status by (simp del: upt_Suc)
qed simp

text \<open>
  C30. The limiter is in effect, as the second end-to-end test has it: with a budget of six
  requests in five minutes, and a test that is over before the first of them is given back, the
  first six of eight requests of a user with a secret are served and the last two are refused
  with 429; provisioning by the administrator does not count against the user.
\<close>

theorem rate_limit_test_passes:
  assumes "all_is_well X hmac decode32" and "start_with_rate_limit X build database url 6 = Inr serve"
    and "client = introspection_client_new (harness_config database url 6)"
    and "token_is X client admin_token (Active admin)" and "has_role admin (lit ''totp-admin'')"
    and "token_is X client user_token (Active user)" and "subject admin \<noteq> subject user"
    and "trim (subject user) = subject user" and "subject user \<noteq> []"
    and "\<forall>m n. limiter_now (governor X) m < limiter_now (governor X) n + 50000"
  shows "\<exists>w'. run_state (enforces_the_per_subject_rate_limit serve admin_token user_token (subject user))
    world_init = (True, w')"
proof -
  have bucket: "token_bucket (governor X)" "\<forall>m m'. m \<le> m' \<longrightarrow> limiter_now (governor X) m \<le> limiter_now (governor X) m'"
    using assms(1) by (simp_all add: all_is_well_def)
  obtain st g where st: "app_config st = harness_config database url 6" "introspection st = client"
      "serve RequestPin = protected X st g (request_pin_service X st)"
      "serve Provision = protected X st g (provision_service X st)" "burst_size g = 6"
      "period g = unat (300000 div ucast (6 :: u32) :: u64)"
    using harness_serves [OF assms(2) bucket(1)] assms(3) by metis
  have role: "admin_role (app_config st) = lit ''totp-admin''" by (simp add: st(1) harness_config_def)
  note tok = assms(4,6) [folded st(2)]
  note start = fresh_standing [OF assms(1), of st]
  have admitted: "admits (governor X) g [] k (limiter_now (governor X) n)" for k n
    using few_checks_pass [OF bucket(1) _ _ bucket(2), of "[]" g 0] st(5) by (simp add: read_before_def)
  obtain n p w1 where prov: "run_state (post serve Provision (Some admin_token) (Some (subject user))) world_init =
        (Some \<lparr>status = 200, body = Json (provision_response p)\<rparr>, w1)"
      "standing X st [subject user \<mapsto> raw p] [(subject admin, limiter_now (governor X) n)] w1"
    by (rule post_provision [where serve = serve, OF assms(1) st(4) tok(1) start assms(8,9)])
      (use admitted assms(5) role in auto)
  have "limiter_now (governor X) m < limiter_now (governor X) n + period g" for m n
    using assms(10) by (simp add: st(6))
  from run_statuses [where serve = serve, OF assms(1) st(3) tok(2) _ _ this prov(2), of "LIMIT + 2"] assms(7) st(5)
  obtain w' where "run_state (statuses serve user_token (LIMIT + 2)) w1 =
      (map (\<lambda>i. Some (if i < 6 then 200 else 429)) [0..<LIMIT + 2], w')"
    by auto
  then have "run_state (enforces_the_per_subject_rate_limit serve admin_token user_token (subject user)) world_init = (True, w')"
    by (simp add: enforces_the_per_subject_rate_limit_def prov(1) LIMIT_def upt_rec)
  then show ?thesis by blast
qed

theorem rate_limit_test_passes_witness:
  "\<exists>serve w'. start_with_rate_limit lab_externals (\<lambda>_. Inr ()) [] [] 6 = Inr serve \<and>
     run_state (enforces_the_per_subject_rate_limit serve (lit ''admin'') (lit ''user'') (lit ''subject-of-user''))
       world_init = (True, w')"
proof -
  obtain serve where serve: "start_with_rate_limit lab_externals (\<lambda>_. Inr ()) [] [] 6 = Inr serve"
    using lab_serves by blast
  have quick: "\<forall>m n. limiter_now (governor lab_externals) m < limiter_now (governor lab_externals) n + 50000"
    by (simp add: lab_externals_def)
  have "subject (lab_user ''user'' []) = lit ''subject-of-user''" by (simp add: lab_user_def lit_def)
  with rate_limit_test_passes [OF lab_well serve refl lab_tokens(1) [OF refl] lab_roles(1) lab_tokens(2) [OF refl]
      lab_subject(3,1,2) quick] serve
  show ?thesis by simp
qed

section \<open>The limiter at its limit\<close>

text \<open>
  A request of a user with a secret, tick by tick: authentication takes three readings of the
  outside, the limiter's check one, the handler five.
\<close>

lemma authenticate_ticks:
  assumes "inflight w (sha256 K tok) = None" and "\<And>d t. call_outcome K self tok d t = Active user"
  shows "run_state (authenticate K self tok) w = (Inr user, w\<lparr>tick := tick w + 3\<rparr>)"
proof -
  let ?w = "w\<lparr>tick := Suc (tick w), inflight := (inflight w)(sha256 K tok \<mapsto> tick w)\<rparr>"
  have "run_state (call K self tok) ?w = (Active user, ?w\<lparr>tick := tick w + 3\<rparr>)"
    using assms(2) [of "Suc (tick w)" "Suc (Suc (tick w))"]
    by (auto simp: call_def call_outcome_def split: sum.splits if_splits)
  moreover have "(inflight w)(sha256 K tok := None) = inflight w" using assms(1) by auto
  ultimately show ?thesis
    using assms(1) by (simp add: authenticate_def introspect_def join_or_lead_def drop_guard_def Let_def)
qed

lemma post_pin_ticks:
  assumes "nothing_fails X" and serve: "serve RequestPin = protected X st g (request_pin_service X st)"
    and tok: "token_is X (introspection st) tok (Active user)" and inv: "server_inv X st w"
    and stored: "vault_of (aead X) (secrets st) w (subject user) \<noteq> None"
    and t: "t = limiter_now (governor X) (tick w + 3)"
  obtains resp w' where "run_state (post serve RequestPin (Some tok) None) w = (Some resp, w')"
    "status resp = (if admits (governor X) g (limiter_log w) (subject user) t then 200 else 429)"
    "admits (governor X) g (limiter_log w) (subject user) t \<Longrightarrow> server_inv X st w' \<and> tick w' = tick w + 9 \<and>
       limiter_log w' = limiter_log w @ [(subject user, t)] \<and>
       vault_of (aead X) (secrets st) w' = vault_of (aead X) (secrets st) w"
proof -
  let ?req = "(posted (Some tok) None)\<lparr>extension_user := Some user\<rparr>"
  let ?w = "w\<lparr>trace := trace w @ [authenticated_line (subject user)], tick := 4 + tick w,
      limiter_log := limiter_log w @ [(subject user, t)]\<rparr>"
  have law: "status (error_response (governor X) TooManyRequests) = 429"
    using assms(1) by (simp add: nothing_fails_def token_bucket_def)
  have auth: "run_state (authenticate (keycloak X) (introspection st) tok) w = (Inr user, w\<lparr>tick := tick w + 3\<rparr>)"
    using inv tok by (intro authenticate_ticks) (simp_all add: server_inv_def token_is_def)
  have bearer: "bearer_token (posted (Some tok) None) = Some tok" using tok by (simp add: token_is_def bearer_auth)
  have key: "extract_key ?req = Inr (subject user)" by (simp add: extract_key_def)
  have ok: "vault_ok (aead X) (secrets st) ?w" "vault_of (aead X) (secrets st) ?w = vault_of (aead X) (secrets st) w"
    using inv by (simp_all add: server_inv_def vault_ok_def vault_of_def fun_eq_iff)
  obtain r w' where h: "run_state (request_pin_service X st ?req) ?w = (r, w')" by fastforce
  show thesis
  proof (cases "admits (governor X) g (limiter_log w) (subject user) t")
    case True
    obtain resp where resp: "r = Some resp" "status resp = 200"
      using pin_service_status [OF assms(1) ok(1), of ?req user] h stored ok(2) by auto
    have "run_state (post serve RequestPin (Some tok) None) w = (Some resp, w')"
      using True bearer auth key h resp t
      by (simp add: post_def serve protected_def require_authentication_def audit_rate_limited_def governor_layer_def Let_def)
    moreover have "tick w' = tick w + 9"
      using request_pin_well(2) [OF assms(1) ok(1), of user] request_pin_well(1) [OF assms(1) ok(1), of user] stored ok(2) h
      by (cases "run_state (request_pin X st user) ?w") (auto simp: request_pin_service_def)
    moreover have "server_inv X st w'" "limiter_log w' = limiter_log w @ [(subject user, t)]"
        "vault_of (aead X) (secrets st) w' = vault_of (aead X) (secrets st) w"
      using flights.keeps_run [OF service_frame(2) h] contents.keeps_run [OF service_frame(3) h]
        limiter.keeps_run [OF limiter_services(1) h] ok inv
      by (simp_all add: server_inv_def same_inflight_def same_vault_def same_limiter_def)
    ultimately show thesis using that True resp(2) by simp
  next
    case False
    let ?v = "?w\<lparr>trace := trace ?w @ [rate_limited_line (Some (subject user))]\<rparr>"
    obtain v where "run_state (log_request (db X) (secrets st) (Some (subject user)) RateLimitedResult) ?v = ((), v)"
      by (cases "run_state (log_request (db X) (secrets st) (Some (subject user)) RateLimitedResult) ?v") simp
    then have "run_state (post serve RequestPin (Some tok) None) w = (Some (error_response (governor X) TooManyRequests), v)"
      using False bearer auth key law t
      by (simp add: post_def serve protected_def require_authentication_def audit_rate_limited_def governor_layer_def Let_def)
    then show thesis using that False law by simp
  qed
qed

lemma statuses_snoc:
  "run_state (statuses serve tok n) w = (xs, w1) \<Longrightarrow> run_state (post serve RequestPin (Some tok) None) w1 = (a, w2) \<Longrightarrow>
     run_state (statuses serve tok (Suc n)) w = (xs @ [map_option status a], w2)"
proof (induction n arbitrary: w xs)
  case (Suc n)
  obtain b v where b: "run_state (post serve RequestPin (Some tok) None) w = (b, v)" by fastforce
  obtain ys u where ys: "run_state (statuses serve tok n) v = (ys, u)" by fastforce
  have eq: "xs = map_option status b # ys" "u = w1" using Suc.prems(1) b ys by auto
  from Suc.IH [OF ys [unfolded eq(2)] Suc.prems(2)] b eq(1) show ?case
    by (simp del: statuses.simps(2) add: statuses.simps(2) [of _ _ "Suc n"])
qed simp

text \<open>
  A clock on which \<open>b\<close> checks come at once and each later one when the next token is back, for
  \<open>q\<close> tokens: the checks come nine ticks apart, the first three ticks after \<open>t0\<close>.
\<close>

definition patient_clock :: "nat \<Rightarrow> nat \<Rightarrow> nat \<Rightarrow> nat \<Rightarrow> nat \<Rightarrow> nat" where
  "patient_clock p b q t0 t = p * min q ((t - t0 - 3) div 9 + 1 - b)"

lemma patient_clock_check: "patient_clock p b q t0 (t0 + 9 * i + 3) = p * min q (i + 1 - b)"
  by (simp add: patient_clock_def)

lemma patient_clock_mono: "mono (patient_clock p b q t0)"
  unfolding patient_clock_def
  by (intro monoI mult_le_mono2 min.mono order_refl diff_le_mono add_le_mono1 div_le_mono)

lemma patient_clock_less:
  assumes "0 < window"
  shows "patient_clock p b ((window - 1) div p) t0 t < window"
proof -
  have "patient_clock p b ((window - 1) div p) t0 t \<le> p * ((window - 1) div p)" by (simp add: patient_clock_def)
  also have "\<dots> \<le> window - 1" by simp
  finally show ?thesis using assms by linarith
qed

text \<open>The tokens that come back within less than a window are the budget less one, or more.\<close>

lemma refills_in_window:
  fixes b window :: nat
  assumes "0 < b" and "b \<le> window"
  shows "b - 1 \<le> (window - 1) div (window div b)"
proof -
  have p: "0 < window div b" using assms by (simp add: div_greater_zero_iff)
  have "b * (window div b) \<le> window" by simp
  then have "(b - 1) * (window div b) \<le> window - 1" using p assms(1) by (cases b) auto
  then show ?thesis using p by (simp add: less_eq_div_iff_mult_less_eq)
qed

lemma patient_checks:
  assumes "0 < b" and "0 < p" and "i \<le> b + q"
  shows "arrival_time p b 0 (map (\<lambda>j. p * min q (j + 1 - b)) [0..<i]) = p * i"
    and "conforms p b (p * i) (p * min q (i + 1 - b)) \<longleftrightarrow> i < b + q"
proof -
  have conf: "conforms p b (p * j) (p * min q (j + 1 - b)) \<longleftrightarrow> j < b + q" if "j \<le> b + q" for j
  proof -
    have "conforms p b (p * j) (p * min q (j + 1 - b)) \<longleftrightarrow> p * j \<le> p * (min q (j + 1 - b) + (b - 1))"
      by (simp add: conforms_def algebra_simps)
    also have "\<dots> \<longleftrightarrow> j \<le> min q (j + 1 - b) + (b - 1)" using assms(2) by simp
    also have "\<dots> \<longleftrightarrow> j < b + q" using assms(1) that by (simp add: min_def) linarith
    finally show ?thesis .
  qed
  show "conforms p b (p * i) (p * min q (i + 1 - b)) \<longleftrightarrow> i < b + q" using assms(3) by (rule conf)
  show "arrival_time p b 0 (map (\<lambda>j. p * min q (j + 1 - b)) [0..<i]) = p * i"
    using assms(3)
  proof (induction i)
    case (Suc i)
    have "min q (i + 1 - b) \<le> i + 1 - b" by simp
    also have "\<dots> \<le> i" using assms(1) by linarith
    finally have "min q (i + 1 - b) \<le> i" .
    then have "p * min q (i + 1 - b) \<le> p * i" by simp
    with Suc conf [of i] show ?case by (simp add: Let_def max_def algebra_simps)
  qed simp
qed

lemma run_patient_statuses:
  assumes "nothing_fails X" and "serve RequestPin = protected X st g (request_pin_service X st)"
    and "token_is X (introspection st) tok (Active user)" and "server_inv X st w"
    and "vault_of (aead X) (secrets st) w (subject user) \<noteq> None" and "times_of (subject user) (limiter_log w) = []"
    and b: "b = unat (burst_size g)" "0 < b" "0 < period g"
    and clock: "limiter_now (governor X) = patient_clock (period g) b q (tick w)" and n: "n \<le> b + q"
  shows "\<exists>w'. run_state (statuses serve tok n) w = (replicate n (Some 200), w') \<and> server_inv X st w' \<and>
    tick w' = tick w + 9 * n \<and> vault_of (aead X) (secrets st) w' = vault_of (aead X) (secrets st) w \<and>
    times_of (subject user) (limiter_log w') = map (\<lambda>j. period g * min q (j + 1 - b)) [0..<n]"
  using n
proof (induction n)
  case 0
  show ?case using assms(4,6) by simp
next
  case (Suc n)
  then obtain w1 where w1: "run_state (statuses serve tok n) w = (replicate n (Some 200), w1)" "server_inv X st w1"
      "tick w1 = tick w + 9 * n" "vault_of (aead X) (secrets st) w1 = vault_of (aead X) (secrets st) w"
      "times_of (subject user) (limiter_log w1) = map (\<lambda>j. period g * min q (j + 1 - b)) [0..<n]"
    by auto
  let ?t = "period g * min q (n + 1 - b)"
  have t: "?t = limiter_now (governor X) (tick w1 + 3)" using patient_clock_check by (simp add: clock w1(3))
  have "admits (governor X) g (limiter_log w1) (subject user) ?t"
    using assms(1) patient_checks [of b "period g" n q] b Suc.prems w1(5)
    by (simp add: nothing_fails_def token_bucket_def)
  with post_pin_ticks [where serve = serve, OF assms(1-3) w1(2) _ t] w1(4) assms(5) obtain resp w' where
    "run_state (post serve RequestPin (Some tok) None) w1 = (Some resp, w')" "status resp = 200" "server_inv X st w'"
    "tick w' = tick w1 + 9" "limiter_log w' = limiter_log w1 @ [(subject user, ?t)]"
    "vault_of (aead X) (secrets st) w' = vault_of (aead X) (secrets st) w1"
    by (metis (no_types, lifting))
  with statuses_snoc [OF w1(1)] w1(3-5) show ?case by (simp add: replicate_append_same)
qed

lemma budgeted_router:
  assumes "token_bucket (governor X)"
    and "window = unat (rate_limit_window_seconds (app_config st)) * 1000" and "window < 2 ^ 64"
    and "budget = unat (rate_limit_max_requests (app_config st))" and "budget \<le> window" and "0 < budget"
  obtains g serve where "create_router X st = Inr serve" "serve RequestPin = protected X st g (request_pin_service X st)"
    "period g = window div budget" "unat (burst_size g) = budget"
proof -
  have refill: "unat (refill_millis (app_config st)) = window div budget" using refill_unwrapped assms(2-4) by simp
  then have "refill_millis (app_config st) \<noteq> 0" using assms(5,6) by (auto simp: div_eq_0_iff)
  then have "rate_limit_config (governor X) (app_config st) =
      Inr \<lparr>period = unat (refill_millis (app_config st)), burst_size = rate_limit_max_requests (app_config st)\<rparr>"
    using rate_limit_config_ok [OF assms(1)] assms(4,6) by (simp add: unat_gt_0)
  then show thesis using that refill assms(4) by (auto simp: create_router_def)
qed

text \<open>
  C39. The bound on issued PINs is attained, so the limiter lets nearly twice the configured budget
  through in one window: for every usable configuration whose window fits in 64 bits of
  milliseconds and every user with a secret who has not been checked yet, there is a clock on
  which the whole run takes less than a window and in which the first \<open>budget + (window - 1) div
  refill\<close> requests in a row, at least twice the budget less one, are answered with a PIN, and only
  the next one is refused.
\<close>

theorem burst_and_refill_exceed_budget:
  assumes "nothing_fails X" and "config_valid (app_config st)"
    and "window = unat (rate_limit_window_seconds (app_config st)) * 1000" and "window < 2 ^ 64"
    and "budget = unat (rate_limit_max_requests (app_config st))" and "budget \<le> window"
    and "token_is X (introspection st) tok (Active user)" and "server_inv X st w"
    and "vault_of (aead X) (secrets st) w (subject user) \<noteq> None" and "times_of (subject user) (limiter_log w) = []"
    and "most = budget + (window - 1) div (window div budget)"
  shows "2 * budget - 1 \<le> most \<and>
    (\<exists>clock serve w'. mono clock \<and> (\<forall>t. clock t < window) \<and>
       create_router (X\<lparr>governor := (governor X)\<lparr>limiter_now := clock\<rparr>\<rparr>) st = Inr serve \<and>
       run_state (statuses serve tok (Suc most)) w = (replicate most (Some 200) @ [Some 429], w'))"
proof -
  let ?p = "window div budget"
  let ?q = "(window - 1) div ?p"
  let ?clock = "patient_clock ?p budget ?q (tick w)"
  let ?X = "X\<lparr>governor := (governor X)\<lparr>limiter_now := ?clock\<rparr>\<rparr>"
  have b: "0 < budget" using config_positive [OF assms(2)] assms(5) by simp
  then have p: "0 < ?p" using assms(6) by (simp add: div_greater_zero_iff)
  have bucket: "token_bucket (governor ?X)" using assms(1) by (simp add: nothing_fails_def token_bucket_def)
  have X: "nothing_fails ?X" using assms(1) bucket by (simp add: nothing_fails_def)
  obtain g serve where g: "create_router ?X st = Inr serve" "serve RequestPin = protected ?X st g (request_pin_service ?X st)"
      "period g = ?p" "unat (burst_size g) = budget"
    by (rule budgeted_router [OF bucket assms(3-6) b])
  have tok: "token_is ?X (introspection st) tok (Active user)" using assms(7) by (simp add: token_is_def)
  have inv: "server_inv ?X st w" using assms(8) by (simp add: server_inv_def)
  obtain w1 where w1: "run_state (statuses serve tok most) w = (replicate most (Some 200), w1)" "server_inv ?X st w1"
      "tick w1 = tick w + 9 * most" "vault_of (aead X) (secrets st) w1 = vault_of (aead X) (secrets st) w"
      "times_of (subject user) (limiter_log w1) = map (\<lambda>j. ?p * min ?q (j + 1 - budget)) [0..<most]"
  proof -
    have stored: "vault_of (aead ?X) (secrets st) w (subject user) \<noteq> None" using assms(9) by simp
    have clock: "limiter_now (governor ?X) = patient_clock (period g) budget ?q (tick w)" by (simp add: g(3))
    have n: "most \<le> budget + ?q" by (simp add: assms(11))
    from run_patient_statuses [where serve = serve, OF X g(2) tok inv stored assms(10) g(4) [symmetric] b p [folded g(3)] clock n]
    show thesis using that unfolding g(3) by auto
  qed
  let ?t = "?p * min ?q (most + 1 - budget)"
  have t: "?t = limiter_now (governor ?X) (tick w1 + 3)" using patient_clock_check by (simp add: w1(3))
  have "\<not> admits (governor ?X) g (limiter_log w1) (subject user) ?t"
    using bucket patient_checks [of budget ?p most ?q] b p g(3,4) w1(5) assms(11) by (simp add: token_bucket_def)
  moreover have "vault_of (aead ?X) (secrets st) w1 (subject user) \<noteq> None" using w1(4) assms(9) by simp
  ultimately obtain resp w' where
    "run_state (post serve RequestPin (Some tok) None) w1 = (Some resp, w')" "status resp = 429"
    using post_pin_ticks [where serve = serve, OF X g(2) tok w1(2) _ t] by (metis (no_types, lifting))
  with statuses_snoc [OF w1(1)] have run: "run_state (statuses serve tok (Suc most)) w = (replicate most (Some 200) @ [Some 429], w')"
    by simp
  have "2 * budget - 1 \<le> most" using refills_in_window [OF b assms(6)] assms(11) by simp
  moreover have "\<forall>t. ?clock t < window" using patient_clock_less b assms(6) by simp
  ultimately show ?thesis using patient_clock_mono g(1) run by blast
qed

text \<open>The default limits, 6 requests in 300 seconds, and a user whose token does not expire.\<close>

definition steady_externals :: externals where
  "steady_externals = demo_externals\<lparr>keycloak := demo_keycloak\<lparr>http_send := (\<lambda>_ _. Inr
     \<lparr>reply_status = 200, reply_status_text = lit ''200 OK'', reply_json = Inr
       \<lparr>active = True, sub = Some (lit ''u''), aud = Some (One (expected_audience demo_config)), expires = None,
        realm = None\<rparr>\<rparr>)\<rparr>\<rparr>"

theorem burst_and_refill_exceed_budget_witness:
  "\<exists>clock serve w'. mono clock \<and> (\<forall>t. clock t < 300000) \<and>
     create_router (steady_externals\<lparr>governor := (governor steady_externals)\<lparr>limiter_now := clock\<rparr>\<rparr>) demo_state = Inr serve \<and>
     run_state (statuses serve (lit ''token'') 12) demo_world = (replicate 11 (Some 200) @ [Some 429], w')"
proof -
  let ?user = "\<lparr>subject = lit ''u'', realm_roles = []\<rparr>"
  have X: "nothing_fails steady_externals"
    using demo_token_bucket by (simp add: nothing_fails_def steady_externals_def demo_externals_def demo_db_def demo_totp_rs_def)
  have tok: "token_is steady_externals (introspection demo_state) (lit ''token'') (Active ?user)"
    by (simp add: token_is_def call_outcome_def steady_externals_def is_success_def evaluate_def demo_state_def
        introspection_client_new_def lit_def trim_def trim_end_by_def is_whitespace_def)
  have inv: "server_inv steady_externals demo_state demo_world"
    using demo_server_inv by (simp add: server_inv_def steady_externals_def)
  have stored: "vault_of (aead steady_externals) (secrets demo_state) demo_world (subject ?user) \<noteq> None"
    using inv by (auto simp: server_inv_def vault_ok_def vault_of_def demo_world_def demo_world_with_def)
  have empty: "times_of (subject ?user) (limiter_log demo_world) = []"
    by (simp add: demo_world_def demo_world_with_def world_init_def)
  have conf: "config_valid (app_config demo_state)" "300000 = unat (rate_limit_window_seconds (app_config demo_state)) * 1000"
      "6 = unat (rate_limit_max_requests (app_config demo_state))"
    using demo_config_valid by (simp_all add: demo_state_def demo_rates)
  have nums: "(300000 :: nat) < 2 ^ 64" "(6 :: nat) \<le> 300000" "(11 :: nat) = 6 + (300000 - 1) div (300000 div 6)" "Suc 11 = 12"
    by simp_all
  from burst_and_refill_exceed_budget [OF X conf(1,2) nums(1) conf(3) nums(2) tok inv stored empty nums(3)]
  show ?thesis unfolding nums(4) by blast
qed

end
