(* ===== verification/Spec2Isabelle.thy ===== *)
theory Spec2Isabelle
  imports Sim_Tests Startup Shared_Calls Core_Tests Noninterference Concurrent_Flights Issue_Budget End_To_End
begin

text \<open>
  The box of \<^verbatim>\<open>urheilulaatikko\<close> is opened with a six-digit code that changes every 30 seconds. The
  repository holds two programs: the firmware of the lock, an offline microcontroller with a
  Wiegand keypad and a relay for the bolt (\<^verbatim>\<open>lock-client/\<close>), and a server that gives the current
  code to users who have logged in at Keycloak (\<^verbatim>\<open>totp-server/\<close>). The two share a secret and the
  algorithm of RFC 6238 and nothing else. This development models both programs as functions and
  step relations in HOL and proves what makes them correct, each on its own and, in this theory,
  the two together. It follows all Rust sources under \<^verbatim>\<open>src/\<close> but the module declarations, their
  unit tests included.

  \<^bold>\<open>The lock.\<close> \<open>Wiegand\<close> models \<^verbatim>\<open>core/src/wiegand.rs\<close>: bursts of bits become frames, with the
  encoders of the tests, exactness of decoding and a round trip for cards. \<open>Pin_Entry\<close> models
  \<^verbatim>\<open>core/src/pin_entry.rs\<close>: the six-slot buffer refines a list of digits, and Enter submits exactly
  the last six. \<open>Totp_Verify\<close> models \<^verbatim>\<open>core/src/totp.rs\<close>: which windows the check accepts, with the
  saturating arithmetic of the 64-bit clock. \<open>Lock_Controller\<close> models \<^verbatim>\<open>core/src/lock.rs\<close>: over any
  sequence of frames the controller decides as a function of the keys pressed; the traits of the
  clock and the actuator are records of functions, the actuator's contract the locale
  \<open>bolt_actuator\<close>. \<open>Wiegand_Capture\<close> models \<^verbatim>\<open>firmware/src/wiegand_capture.rs\<close>: interrupt handler
  and polling function as a source of frames (locale \<open>frame_source\<close>), refining a recorder of
  pulses. \<open>Firmware\<close> models \<^verbatim>\<open>actuator.rs\<close>, \<^verbatim>\<open>clock.rs\<close>, \<^verbatim>\<open>build.rs\<close> and the main loop of \<^verbatim>\<open>main.rs\<close>
  as a step relation in which interrupts and the passing of time come between any two steps of the
  loop; its invariants say that only an accepted code releases the bolt and that a released bolt
  has a deadline, and that all its buffers and counters stay in range. \<open>Relock_Timing\<close> bounds how long
  the bolt stays released, from below under any interleaving and exactly for a loop that nothing
  disturbs. Times are microseconds as natural numbers; Unix seconds are 64-bit words.

  \<^bold>\<open>The server.\<close> \<open>App_Error\<close> (\<^verbatim>\<open>error.rs\<close>) and \<open>Config\<close> (\<^verbatim>\<open>config.rs\<close>) are pure functions.
  \<open>Server_World\<close> is the state all handlers share, the tables of the migration included, and the
  effects on it as a state monad; its locale \<open>effect_relation\<close> gives the frame rules, interpreted
  for the audit table, the secrets, the map of calls in flight and the abstract vault. \<open>Crypto\<close>
  (\<^verbatim>\<open>crypto.rs\<close>), \<open>Secret_Store\<close> (\<^verbatim>\<open>totp/secret_store.rs\<close>) and \<open>Totp_Server\<close> (\<^verbatim>\<open>totp/mod.rs\<close>) are the
  operations on secrets; the store implements the locale \<open>secret_vault\<close>, a map from subjects to
  secrets. \<open>Introspection\<close> (\<^verbatim>\<open>auth/mod.rs\<close>, \<^verbatim>\<open>auth/introspection.rs\<close>) is one request's
  authentication; \<open>Single_Flight\<close> is the concurrent protocol by which requests with the same token
  share a call, as a step relation over tasks with arrival, reply, publication, cancellation and
  time; \<open>Shared_Calls\<close> counts the calls to Keycloak along its runs and shows what sharing saves.
  \<open>Rate_Limit\<close> (\<^verbatim>\<open>rate_limit.rs\<close>), \<open>Middleware\<close> (\<^verbatim>\<open>auth/middleware.rs\<close>, \<^verbatim>\<open>state.rs\<close>) and
  \<open>Routes\<close> (\<^verbatim>\<open>routes/\<close>) put the layers around the handlers in the order of the router,
  authentication, audit, limiter, handler. The theorems say
  when a PIN is issued, who changes secrets, what is recorded, and that any sequence of requests
  keeps the state sound. \<open>Tasks\<close> cuts the handlers and layers at their \<^verbatim>\<open>.await\<close> points
  into tasks and runs any number of them in any order, dropping those whose clients disconnect
  (\<open>serving_step\<close>); a task that joins a call in flight waits on the leader's broadcast channel, which
  hands the leader's outcome to those who wait and is closed with its entry in the map. A task run
  alone is the handler of \<open>Routes\<close>. \<open>Interleaving\<close> carries what a 200 answer promises over to
  concurrent requests by a rely-guarantee argument on steps and messages (locales \<open>rely\<close> and
  \<open>rely_guarantee\<close>), relative to the states that a run has passed (\<open>serving_run\<close>): the secret of a PIN
  and the answer of Keycloak behind it belong to such states. \<open>Startup\<close> is \<^verbatim>\<open>main.rs\<close> with
  \<^verbatim>\<open>db.rs\<close> and the script \<^verbatim>\<open>migrations/0001_init.sql\<close>: the steps of a start with its log lines and
  errors, the migrations as an effect on the tables, and a deployment in which servers are started, fail
  to start, are stopped or killed at any moment and started again on the database they left
  (\<open>deployment\<close>). A server that comes up has its tables (\<open>tables_exist\<close>); the theories about requests
  are about such a server and take the tables for granted. \<open>Noninterference\<close> runs two servers with different secrets side by side (locales
  \<open>two_runs\<close> and \<open>two_servers\<close>): each step of the one is matched by the other, with the same log, audit
  table and status codes, so nothing of a secret or a PIN gets there. \<open>Concurrent_Flights\<close> shows that no entry of the map of calls in flight outlives
  the request that made it and that all requests get their answers under every schedule: their steps
  end by a well-founded order on tasks, and while one has no answer some task can go on;
  \<open>Issue_Budget\<close> keeps an account for every task (locales \<open>account\<close> and \<open>pin_books\<close>, interpreted three
  times) and so bounds the PINs a subject gets by the checks of the limiter that passed, and the answers
  with a PIN by the audit rows that record them and the lines that report such a row as lost.
  \<open>Prelude\<close> and \<open>Rust_Text\<close> hold the shared types and what is used of Rust's
  standard library on strings and numbers.

  \<^bold>\<open>What stands outside.\<close> Third-party code is an argument of the definitions: the code generators
  (\<open>totp_fn\<close>, \<open>totp_rs\<close>), AES-GCM (\<open>aead\<close>), the database (\<open>db\<close>), HTTP with JSON decoding, SHA-256
  and, for a request run by itself, the channel (\<open>keycloak\<close>), the limiter (\<open>governor\<close>), base64 and
  dotenv. What is relied on is named: \<open>step_determined\<close>, \<open>totp_laws\<close>, \<open>aead_laws\<close>, \<open>token_bucket\<close>, \<open>responses_ok\<close>,
  \<open>base64_laws\<close>, \<open>dotenv_keeps\<close>, \<open>implements_rfc\<close>, \<open>generates_rfc6238\<close>, \<open>migrator_laws\<close> (what
  \<open>sqlx\<close> documents of its migrator), and each has a concrete instance. Randomness, clocks, the network
  and failures of database statements are functions of a tick that every reading advances, and
  theorems hold for all such functions. No definition uses fuel: all recursion is structural or
  has a measure, and that the main loop's pass and every concurrent request completes is proved.

  \<^bold>\<open>Tests and standards.\<close> \<open>Core_Tests\<close>, \<open>Server_Tests\<close> and \<open>Shared_Calls\<close> write the unit tests of both
  programs and the tests of \<^verbatim>\<open>tests/introspection.rs\<close> as definitions that say whether the test passes, and
  prove as lemmas that the model passes them, with RFC 6238, base32 and base64 for the libraries and a
  small reversible cipher in the place of AES-GCM. \<open>End_To_End\<close> does so for the two tests of
  \<^verbatim>\<open>tests/e2e_integration.rs\<close>, in any surroundings where nothing fails (\<open>all_is_well\<close>): these are the
  theorems that the server serves whom it should. It also shows, for any usable configuration, how many
  requests the routes answer with a PIN within one window before the first refusal. \<open>Sim_Tests\<close> does so for the simulated tests of the
  firmware in \<^verbatim>\<open>firmware/sim\<close>: the generated script of pulses is played against the main loop,
  whose passes may come at any times at most 17 ms apart. The tests compare with RFC 6238, so \<open>Sha1\<close>
  (SHA-1 and HMAC), \<open>Base_Encoding\<close> (base32 and base64, locale \<open>text_encoding\<close>) and \<open>Rfc6238\<close> define
  these from the standards; \<open>Rfc6238\<close> also says which code the server's PIN is and for how long. They are instances of the parameters; the theorems about the
  programs hold for all parameters with the laws.

  \<^bold>\<open>What is not modelled.\<close> That a token's hash identifies it is nowhere assumed but where stated: a
  request that joins a call gets the answer for a token with the same hash. The start of the
  containers and the log-in at Keycloak of the end-to-end tests are left out. Between the steps of
  the firmware's loop any time may pass; the time its instructions take is not bounded. The text
  of log lines is modelled, their filtering is not. The router is modelled for requests that
  match a route. Release builds are assumed where arithmetic can overflow: it wraps. The
  set-up of the server's logging library, containers, shell scripts, the
  invocation of the emulator and the enclosure are left out. Connections are not modelled: a request
  arrives, and its client stays or goes.
\<close>

section \<open>From the server's answer to the open bolt\<close>

text \<open>The keys a user presses for a PIN: the values of its characters.\<close>

definition pin_keys :: "ustr \<Rightarrow> u8 list" where
  "pin_keys p = map (\<lambda>c. of_nat (c - 48)) p"

definition pin_presses :: "ustr \<Rightarrow> bool list list" where
  "pin_presses p = nibble 10 # map nibble (pin_keys p) @ [nibble 11]"

text \<open>
  Both ends implement RFC 6238 for a secret: the lock's generator gives the number that the
  server's spells out.
\<close>

definition codes_agree :: "totp_rs \<Rightarrow> totp_fn \<Rightarrow> bytes \<Rightarrow> bool" where
  "codes_agree T totp_custom sec \<longleftrightarrow>
     (\<forall>t. digits_to_value (pin_keys (totp_generate T (pin_builder sec) t)) =
          ucast (totp_custom STEP_SECONDS DIGITS sec t))"

lemma pin_keys_slots:
  assumes "length p = 6" and "list_all (\<lambda>c. 48 \<le> c \<and> c \<le> 57) p"
  shows "digit_slots PIN_LEN (digits_to_value (pin_keys p)) = pin_keys p"
proof (rule decimal_inj)
  have small: "unat (of_nat (c - 48) :: u8) \<le> 9" if "c \<in> set p" for c
  proof -
    have "48 \<le> c" "c \<le> 57" using assms(2) that by (auto simp: list_all_iff)
    then obtain n where "c = 48 + n" "n \<le> 9" by (auto dest: le_Suc_ex)
    then show ?thesis by (simp add: unsigned_of_nat take_bit_nat_eq_self)
  qed
  have len: "length (pin_keys p) = PIN_LEN" using assms(1) by (simp add: pin_keys_def PIN_LEN_def)
  then show "length (digit_slots PIN_LEN (digits_to_value (pin_keys p))) = length (pin_keys p)" by simp
  show "list_all (\<lambda>d. d \<le> 9) (digit_slots PIN_LEN (digits_to_value (pin_keys p)))"
    by (rule digit_slots_small)
  show nine: "list_all (\<lambda>d. d \<le> 9) (pin_keys p)"
    using small by (auto simp: list_all_iff pin_keys_def word_le_nat_alt)
  have "decimal ds < 10 ^ length ds" if "list_all (\<lambda>d. d \<le> 9) ds" for ds
    using that
  proof (induction ds rule: rev_induct)
    case (snoc d ds)
    then have "unat d \<le> 9" "decimal ds < 10 ^ length ds" by (simp_all add: word_le_nat_alt)
    then show ?case by simp
  qed simp
  then have "decimal (pin_keys p) < 10 ^ PIN_LEN" using nine len by metis
  then show "decimal (digit_slots PIN_LEN (digits_to_value (pin_keys p))) = decimal (pin_keys p)"
    by (simp add: decimal_digit_slots unat_digits_to_value [OF len])
qed

text \<open>A PIN of the server is accepted while the lock's window is at most its skew away.\<close>

lemma issued_pin_matches:
  assumes "totp_laws T" and "step_determined totp_custom" and "codes_agree T totp_custom sec"
    and "generate_at T sec t = Inr g"
    and "\<bar>int (unat t div 30) - int (unat lock_time div 30)\<bar> \<le> uint skew"
  shows "matches totp_custom sec (pin_keys (pin g)) lock_time skew"
proof -
  note g = generate_at_pin(1) [OF assms(1,4)]
  have "window_code totp_custom sec (unat t div 30) = digits_to_value (pin_keys (pin g))"
    using assms(3) by (simp add: codes_agree_def g flip: window_code_at [OF assms(2)])
  moreover have "unat t div 30 \<le> last_window"
    using unat_le_max_u64 [of t] by (simp add: last_window_def div_le_mono)
  ultimately show ?thesis using assms(5) by (auto simp: matches_windows [OF assms(2)])
qed

lemma typed_pin_opens:
  assumes "totp_laws T" and "step_determined totp_custom" and "codes_agree T totp_custom SECRET"
    and "generate_at T SECRET t = Inr g"
    and "fw_reachable totp_custom s" and "phase s = AtPoll" and "capture_empty s"
    and "\<bar>int (unat t div 30) -
          int (unat (unix_seconds system_clock_trait (clock s, now s + 235000)) div 30)\<bar> \<le> 1"
  shows "\<exists>s'. press_all totp_custom (pin_presses (pin g)) s = Some s' \<and>
    (fw_step totp_custom)\<^sup>*\<^sup>* s s' \<and> relay_high (bolt s')"
proof -
  note keys = pin_keys_slots [OF generate_at_pin(2,3) [OF assms(1,4)]]
  let ?code = "digits_to_value (pin_keys (pin g))"
  have "matches totp_custom SECRET (digit_slots PIN_LEN ?code)
      (unix_seconds system_clock_trait (clock s, now s + 235000)) SKEW_STEPS"
    unfolding keys by (rule issued_pin_matches [OF assms(1-4)]) (use assms(8) in \<open>simp add: SKEW_STEPS_def\<close>)
  moreover have "idle s" using assms(5-7) by (simp add: idle_def fw_reachable_inv)
  moreover have "code_presses ?code = pin_presses (pin g)"
    unfolding code_presses_def pin_presses_def keys ..
  ultimately show ?thesis using code_presses_open [of s totp_custom ?code] by auto
qed

text \<open>
  C1. The two ends fit together: when the server, busy with any other requests at the same time,
  has answered a PIN request with 200, typing \<open>*\<close>, the PIN of the response and \<open>#\<close> at an idle lock
  opens its bolt, if the lock's secret is the one stored for the users while the server runs, both
  code generators implement the same RFC 6238 function, and the lock's clock at the final key is
  at most one step of 30 seconds from the server's clock since the request arrived.
\<close>

theorem issued_pin_opens_lock:
  assumes "create_task_router X st = Inr serve" and "vault_ok (aead X) (secrets st) w0"
    and "serving_run serve ([], w0) ws (jobs, w)" and "j \<in> set jobs" and "responses_ok X (job_request j)"
    and "job_route j = RequestPin" and "left j = Done (Some resp)" and "status resp = 200"
    and "totp_laws (totp_rs X)" and "step_determined totp_custom"
    and "codes_agree (totp_rs X) totp_custom SECRET"
    and "\<forall>v \<in> set ws. \<forall>subj sec. vault_of (aead X) (secrets st) v subj = Some sec \<longrightarrow> sec = SECRET"
    and "fw_reachable totp_custom s" and "phase s = AtPoll" and "capture_empty s"
    and "\<forall>t u. tick (arrived j) \<le> t \<and> t < tick w \<and> unix_now (system_time X t) = Some u \<longrightarrow>
      \<bar>int (unat u div 30) -
       int (unat (unix_seconds system_clock_trait (clock s, now s + 235000)) div 30)\<bar> \<le> 1"
  shows "\<exists>code valid s'.
    body resp = Json (JObject [(lit ''pin'', JString code), (lit ''valid_for_seconds'', JNumber valid)]) \<and>
    press_all totp_custom (pin_presses code) s = Some s' \<and>
    (fw_step totp_custom)\<^sup>*\<^sup>* s s' \<and> relay_high (bolt s')"
proof -
  let ?seen = "\<lambda>v. v \<in> set ws"
  obtain g where serve: "serve = task_routes X st g" using assms(1) by (auto simp: create_task_router_def)
  obtain w1 where "sound_step (aead X) (secrets st) w0 (arrived j)" and w1: "sound_step (aead X) (secrets st) w1 w"
    and "answer_promise X st ?seen RequestPin (job_request j) (arrived j) (Some resp) w1"
    using concurrent.finished_keeps_promise [OF assms(3) [unfolded serve] _ assms(4,7), of ?seen] assms(6) by auto
  then obtain user pin_json where body: "body resp = Json pin_json"
    and "pin_issued X st ?seen user (arrived j) pin_json w1"
    using assms(2,5,8) by (auto simp: answer_promise_def on_success_def pin_promise_def sound_step_def)
  then obtain v sec t u p where v: "v \<in> set ws" "vault_of (aead X) (secrets st) v (subject user) = Some sec"
      and t: "tick (arrived j) \<le> t" "t < tick w1" "unix_now (system_time X t) = Some u"
      and p: "generate_at (totp_rs X) sec u = Inr p" "pin_json = pin_response p"
    unfolding pin_issued_def by blast
  have "t < tick w" using t(2) w1 by (simp add: sound_step_def extends_def)
  then have close: "\<bar>int (unat u div 30) -
      int (unat (unix_seconds system_clock_trait (clock s, now s + 235000)) div 30)\<bar> \<le> 1"
    using t(1,3) assms(16) by blast
  have "sec = SECRET" using v assms(12) by blast
  with p(1) have "generate_at (totp_rs X) SECRET u = Inr p" by simp
  from typed_pin_opens [OF assms(9-11) this assms(13-15) close] show ?thesis
    unfolding body p(2) pin_response_def by blast
qed

text \<open>A generator for the lock that goes with \<open>demo_totp_rs\<close>: the number of the step.\<close>

definition demo_lock_totp :: totp_fn where
  "demo_lock_totp step ds sec t = t div step mod 1000000"

lemma decimal_Cons: "decimal (d # ds) = unat d * 10 ^ length ds + decimal ds"
  by (induction ds rule: rev_induct) (simp_all add: decimal_def)

lemma decimal_places:
  "decimal (map (\<lambda>i. of_nat (x div 10 ^ i mod 10)) (rev [0..<n])) = x mod 10 ^ n"
proof (induction n)
  case (Suc n)
  have "unat (of_nat (x div 10 ^ n mod 10) :: u8) = x div 10 ^ n mod 10"
    by (simp add: unsigned_of_nat take_bit_nat_eq_self)
  moreover have "x mod 10 ^ Suc n = 10 ^ n * (x div 10 ^ n mod 10) + x mod 10 ^ n"
    using mod_mult2_eq [of x "10 ^ n" 10] by (simp add: mult.commute)
  ultimately show ?case using Suc by (simp add: decimal_Cons mult.commute del: power_Suc)
qed simp

lemma demo_codes_agree: "codes_agree demo_totp_rs demo_lock_totp SECRET"
  unfolding codes_agree_def
proof
  fix t
  let ?x = "unat (t div 30 :: u64)"
  have keys: "pin_keys (totp_generate demo_totp_rs (pin_builder SECRET) t) =
      map (\<lambda>i. of_nat (?x div 10 ^ i mod 10)) (rev [0..<6])"
    by (simp add: pin_keys_def demo_totp_rs_def pin_builder_def)
  have "digits_to_value (pin_keys (totp_generate demo_totp_rs (pin_builder SECRET) t)) =
      of_nat (?x mod 10 ^ 6)"
    unfolding keys digits_to_value_of_nat decimal_places ..
  also have "\<dots> = ucast (demo_lock_totp STEP_SECONDS DIGITS SECRET t)"
    by (simp add: demo_lock_totp_def STEP_SECONDS_def word_unat_eq_iff unsigned_ucast_eq unat_mod_distrib
        unsigned_of_nat)
  finally show "digits_to_value (pin_keys (totp_generate demo_totp_rs (pin_builder SECRET) t)) =
      ucast (demo_lock_totp STEP_SECONDS DIGITS SECRET t)" .
qed

text \<open>So do the two generators of the standard, for every secret.\<close>

lemma rfc_codes_agree: "codes_agree rfc_totp_rs rfc_totp_custom sec"
  unfolding codes_agree_def
proof
  fix t
  let ?x = "unat (rfc6238 sec (t div 30))"
  have keys: "pin_keys (totp_generate rfc_totp_rs (pin_builder sec) t) =
      map (\<lambda>i. of_nat (?x div 10 ^ i mod 10)) (rev [0..<6])"
    by (simp add: pin_keys_def rfc_totp_rs_def pin_builder_def padded_def)
  have "digits_to_value (pin_keys (totp_generate rfc_totp_rs (pin_builder sec) t)) = of_nat (?x mod 10 ^ 6)"
    unfolding keys digits_to_value_of_nat decimal_places ..
  also have "\<dots> = ucast (rfc_totp_custom STEP_SECONDS DIGITS sec t)"
  proof -
    have "?x < 2 ^ 64" using unsigned_less [of "rfc6238 sec (t div 30)", where ?'a = nat] by simp
    then show ?thesis
      by (simp add: rfc_totp_custom_def STEP_SECONDS_def DIGITS_def word_unat_eq_iff unsigned_ucast_eq
          unat_mod_distrib unsigned_of_nat take_bit_nat_eq_self)
  qed
  finally show "digits_to_value (pin_keys (totp_generate rfc_totp_rs (pin_builder sec) t)) =
      ucast (rfc_totp_custom STEP_SECONDS DIGITS sec t)" .
qed

lemma demo_step_determined: "step_determined demo_lock_totp"
  by (simp add: step_determined_def demo_lock_totp_def)

lemma demo_vault_with:
  "vault_of (aead demo_externals) (secrets demo_state) (demo_world_with stored) subj = Some sec \<Longrightarrow> sec = stored"
  by (simp add: vault_of_def demo_world_with_def world_init_def row_secret_def decrypt_def
      demo_externals_def demo_state_def demo_aead_def secret_store_new_def crypto_new_def
      demo_config_def NONCE_LEN_def split: if_splits)

lemma demo_task_router:
  obtains tasks g where "create_task_router demo_externals demo_state = Inr tasks"
    and "tasks = task_routes demo_externals demo_state g"
    and "alone (keycloak demo_externals) (tasks RequestPin demo_request) =
      protected demo_externals demo_state demo_limits (request_pin_service demo_externals demo_state) demo_request"
proof -
  obtain serve where serve: "create_router demo_externals demo_state = Inr serve"
      "serve RequestPin = protected demo_externals demo_state demo_limits (request_pin_service demo_externals demo_state)"
    using demo_router by blast
  obtain tasks where tasks: "create_task_router demo_externals demo_state = Inr tasks"
      "alone (keycloak demo_externals) (tasks RequestPin demo_request) = serve RequestPin demo_request"
    using demo_tasks [OF serve(1)] by blast
  obtain g where "tasks = task_routes demo_externals demo_state g"
    using tasks(1) by (auto simp: create_task_router_def)
  with tasks serve(2) that show thesis by simp
qed

abbreviation demo_job :: "world \<Rightarrow> response option Tasks.task \<Rightarrow> job" where
  "demo_job w t \<equiv> \<lparr>job_route = RequestPin, job_request = demo_request, arrived = w, left = t\<rparr>"

text \<open>A PIN request served while the lock's secret is the only one stored.\<close>

lemma demo_pin_run:
  obtains tasks ws resp w where "create_task_router demo_externals demo_state = Inr tasks"
    and "serving_run tasks ([], demo_world_with SECRET) ws ([demo_job (demo_world_with SECRET) (Done (Some resp))], w)"
    and "status resp = 200"
    and "\<forall>v \<in> set ws. \<forall>subj sec. vault_of (aead demo_externals) (secrets demo_state) v subj = Some sec \<longrightarrow> sec = SECRET"
proof -
  let ?X = demo_externals and ?st = demo_state and ?w0 = "demo_world_with SECRET"
  obtain tasks g where tasks: "create_task_router ?X ?st = Inr tasks" "tasks = task_routes ?X ?st g"
      "alone (keycloak ?X) (tasks RequestPin demo_request) =
         protected ?X ?st demo_limits (request_pin_service ?X ?st) demo_request"
    by (rule demo_task_router)
  let ?t = "tasks RequestPin demo_request"
  obtain resp w where run: "run_state (alone (keycloak ?X) ?t) ?w0 = (Some resp, w)" "status resp = 200"
    using demo_pin_status_with tasks(3) by metis
  have idle: "inflight ?w0 = Map.empty" using demo_server_inv_with by (simp add: server_inv_def)
  have t: "unblocked ?t ?w0" "steps_within (same_vault (aead ?X) (secrets ?st)) ?t"
    unfolding tasks(2) by (rule unblocked_routes [OF idle], rule within_routes) simp
  have j: "left (demo_job ?w0 ?t) = ?t" by simp
  obtain ws where ws: "serving_run tasks ([demo_job ?w0 ?t], ?w0) ws ([(demo_job ?w0 ?t)\<lparr>left := Done (Some resp)\<rparr>], w)"
      "\<forall>v \<in> set ws. same_vault (aead ?X) (secrets ?st) ?w0 v"
    using task_completes_within [OF j t(1) run(1) t(2)] by blast
  have reach: "serving_run tasks ([], ?w0) (?w0 # ws) ([demo_job ?w0 (Done (Some resp))], w)"
    using serving_run_Cons [OF _ ws(1), of "([], ?w0)"] serving_step.arrive [of tasks "[]" ?w0 RequestPin demo_request] by simp
  have "\<forall>v \<in> set (?w0 # ws). \<forall>subj sec. vault_of (aead ?X) (secrets ?st) v subj = Some sec \<longrightarrow> sec = SECRET"
    using ws(2) demo_vault_with by (auto simp: same_vault_def)
  with tasks(1) reach run(2) that show thesis by blast
qed

theorem issued_pin_opens_lock_witness:
  "\<exists>serve ws j w resp s code valid s'. create_task_router demo_externals demo_state = Inr serve \<and>
     serving_run serve ([], demo_world_with SECRET) ws ([j], w) \<and> left j = Done (Some resp) \<and>
     body resp = Json (JObject [(lit ''pin'', JString code), (lit ''valid_for_seconds'', JNumber valid)]) \<and>
     fw_init (lit ''75'') 0 = Some s \<and>
     press_all demo_lock_totp (pin_presses code) s = Some s' \<and> relay_high (bolt s')"
proof -
  let ?X = demo_externals and ?w0 = "demo_world_with SECRET"
  obtain tasks ws resp w where run: "create_task_router ?X demo_state = Inr tasks"
      "serving_run tasks ([], ?w0) ws ([demo_job ?w0 (Done (Some resp))], w)" "status resp = 200"
      "\<forall>v \<in> set ws. \<forall>subj sec. vault_of (aead ?X) (secrets demo_state) v subj = Some sec \<longrightarrow> sec = SECRET"
    by (rule demo_pin_run)
  have ok: "vault_ok (aead ?X) (secrets demo_state) ?w0" using demo_server_inv_with by (simp add: server_inv_def)
  have "system_clock_start (lit ''75'') = Some \<lparr>boot_epoch = 75\<rparr>"
    by (simp add: system_clock_start_def lit_def parse_unsigned_def)
  then obtain s where s: "fw_init (lit ''75'') 0 = Some s" "clock s = \<lparr>boot_epoch = 75\<rparr>" "now s = 0"
    by (simp add: fw_init_def)
  have clocks: "\<forall>t u. tick ?w0 \<le> t \<and> t < tick w \<and> unix_now (system_time ?X t) = Some u \<longrightarrow>
      \<bar>int (unat u div 30) - int (unat (unix_seconds system_clock_trait (clock s, now s + 235000)) div 30)\<bar> \<le> 1"
    by (simp add: unix_now_def demo_externals_def system_clock_trait_def s(2,3))
  have laws: "totp_laws (totp_rs ?X)" "codes_agree (totp_rs ?X) demo_lock_totp SECRET"
    by (simp_all add: demo_externals_def demo_totp_laws demo_codes_agree)
  have idle: "phase s = AtPoll" "capture_empty s" using idle_init [OF s(1)] by (simp_all add: idle_def)
  have "\<exists>code valid s'.
      body resp = Json (JObject [(lit ''pin'', JString code), (lit ''valid_for_seconds'', JNumber valid)]) \<and>
      press_all demo_lock_totp (pin_presses code) s = Some s' \<and> (fw_step demo_lock_totp)\<^sup>*\<^sup>* s s' \<and> relay_high (bolt s')"
    by (rule issued_pin_opens_lock [OF run(1) ok run(2) _ _ _ _ run(3) laws(1) demo_step_determined laws(2) run(4)
        fw_reachable.boot [OF s(1)] idle, of "demo_job ?w0 (Done (Some resp))"])
      (use clocks demo_responses_ok in simp_all)
  then show ?thesis using run(1,2) s(1)
    by (auto intro!: exI [of _ tasks] exI [of _ ws] exI [of _ "demo_job ?w0 (Done (Some resp))"] exI [of _ w]
        exI [of _ resp] exI [of _ s])
qed

end
